(* ===== verification/Prelude.thy ===== *)
theory Prelude
  imports Main "HOL-Library.Word"
begin

text \<open>
  Types and facts every component shares.

  \<^item> Machine types: \<open>byte\<close> is \<^verbatim>\<open>unsigned char\<close>, \<open>size_t\<close> is the 64-bit
    \<^verbatim>\<open>size_t\<close> of the x86-64 Linux target of the build files.
  \<^item> Faults: every way in which the C code stops without returning is a constructor of
    \<open>fault\<close>, and a fallible operation returns \<open>'a res\<close>.
  \<^item> Memory regions: the bytes a pointer from \<^verbatim>\<open>malloc\<close> or \<^verbatim>\<open>realloc\<close> leads to are a
    list. Bytes that C leaves uninitialised come from the allocator, an argument of the
    operations that allocate.
\<close>

unbundle bit_operations_syntax

named_theorems res_simps \<open>simplification of fallible computations\<close>
named_theorems wf_defs \<open>well-formedness predicates of the components\<close>

type_synonym byte = "8 word"
type_synonym size_t = "64 word"
type_synonym pointer = "64 word"

abbreviation NULL :: pointer where
  "NULL \<equiv> 0"

section \<open>Faults and fallible computations\<close>

text \<open>
  \<open>Exit_Failure m\<close> is the macro \<^verbatim>\<open>CHECK\<close> of logging.h: it logs \<open>m\<close> and calls
  \<^verbatim>\<open>exit(EXIT_FAILURE)\<close>. \<open>Out_Of_Bounds\<close> and \<open>Dangling\<close> are the undefined behaviours
  the model watches for: an access outside a memory region, a use of a freed object.
  \<open>Uninitialised\<close> is the use of a variable that was never assigned, \<open>Blocks_Forever\<close> a call
  that never returns.
\<close>

datatype fault =
    Exit_Failure string
  | Assert_Failed
  | Out_Of_Bounds
  | Dangling
  | Uninitialised
  | Blocks_Forever

type_synonym 'a res = "fault + 'a"

fun bind_res :: "'a res \<Rightarrow> ('a \<Rightarrow> 'b res) \<Rightarrow> 'b res" where
  "bind_res (Inl e) f = Inl e"
| "bind_res (Inr x) f = f x"

definition CHECK :: "bool \<Rightarrow> string \<Rightarrow> unit res" where
  "CHECK a m = (if a then Inl (Exit_Failure m) else Inr ())"

definition OOM :: fault where
  "OOM = Exit_Failure ''Out of Memory''"

definition CHECK_MEM :: "'a option \<Rightarrow> 'a res" where
  "CHECK_MEM p = (case p of None \<Rightarrow> Inl OOM | Some x \<Rightarrow> Inr x)"

lemma bind_res_cong [fundef_cong]:
  "\<lbrakk>m = m'; \<And>x. m' = Inr x \<Longrightarrow> f x = f' x\<rbrakk> \<Longrightarrow> bind_res m f = bind_res m' f'"
  by (cases m') auto

lemma bind_res_eq_Inr [res_simps]:
  "bind_res m f = Inr y \<longleftrightarrow> (\<exists>x. m = Inr x \<and> f x = Inr y)"
  by (cases m) auto

lemma bind_res_eq_Inl [res_simps]:
  "bind_res m f = Inl e \<longleftrightarrow> m = Inl e \<or> (\<exists>x. m = Inr x \<and> f x = Inl e)"
  by (cases m) auto

lemma eq_bind_res [res_simps]:
  "Inr y = bind_res m f \<longleftrightarrow> (\<exists>x. m = Inr x \<and> f x = Inr y)"
  "Inl e = bind_res m f \<longleftrightarrow> m = Inl e \<or> (\<exists>x. m = Inr x \<and> f x = Inl e)"
  by (cases m; auto)+

lemma bind_res_assoc: "bind_res (bind_res m f) g = bind_res m (\<lambda>x. bind_res (f x) g)"
  by (cases m) auto

lemma CHECK_eq_Inr [res_simps]: "CHECK a m = Inr u \<longleftrightarrow> \<not> a"
  by (simp add: CHECK_def)

lemma CHECK_eq_Inl [res_simps]: "CHECK a m = Inl e \<longleftrightarrow> a \<and> e = Exit_Failure m"
  by (auto simp: CHECK_def)

lemma CHECK_True [simp]: "CHECK True m = Inl (Exit_Failure m)"
  by (simp add: CHECK_def)

lemma CHECK_False [simp]: "CHECK False m = Inr ()"
  by (simp add: CHECK_def)

lemma CHECK_MEM_eq_Inr [res_simps]: "CHECK_MEM p = Inr x \<longleftrightarrow> p = Some x"
  by (auto simp: CHECK_MEM_def split: option.splits)

lemma CHECK_MEM_eq_Inl [res_simps]: "CHECK_MEM p = Inl e \<longleftrightarrow> p = None \<and> e = OOM"
  by (auto simp: CHECK_MEM_def split: option.splits)

section \<open>Memory regions\<close>

text \<open>
  An allocator answers a request for \<open>n\<close> bytes with \<open>None\<close> (no memory) or with the
  bytes the fresh region happens to hold. \<^verbatim>\<open>malloc\<close> and \<^verbatim>\<open>realloc\<close> refuse requests
  above \<^verbatim>\<open>PTRDIFF_MAX\<close>, and \<^verbatim>\<open>realloc(p, 0)\<close> returns \<^verbatim>\<open>NULL\<close>, as the manual page of
  the GNU C library documents.
\<close>

type_synonym allocator = "size_t \<Rightarrow> (nat \<Rightarrow> byte) option"

definition PTRDIFF_MAX :: size_t where
  "PTRDIFF_MAX = 0x7FFFFFFFFFFFFFFF"

definition malloc :: "allocator \<Rightarrow> size_t \<Rightarrow> byte list option" where
  "malloc al n =
     (if n \<le> PTRDIFF_MAX then map_option (\<lambda>g. map g [0..<unat n]) (al n) else None)"

definition realloc :: "allocator \<Rightarrow> byte list \<Rightarrow> size_t \<Rightarrow> byte list option" where
  "realloc al old n =
     (if n = 0 \<or> n > PTRDIFF_MAX then None
      else map_option (\<lambda>g. take (unat n) old @ map g [length old..<unat n]) (al n))"

text \<open>Storing \<open>bs\<close> at offset \<open>i\<close> of a region; outside the region it is a fault.\<close>

definition overwrite :: "'a list \<Rightarrow> nat \<Rightarrow> 'a list \<Rightarrow> 'a list" where
  "overwrite m i bs = take i m @ bs @ drop (i + length bs) m"

definition mem_store :: "byte list \<Rightarrow> nat \<Rightarrow> byte list \<Rightarrow> byte list res" where
  "mem_store m i bs =
     (if i + length bs \<le> length m then Inr (overwrite m i bs) else Inl Out_Of_Bounds)"

definition mem_load :: "byte list \<Rightarrow> nat \<Rightarrow> nat \<Rightarrow> byte list res" where
  "mem_load m i n =
     (if i + n \<le> length m then Inr (take n (drop i m)) else Inl Out_Of_Bounds)"

lemma length_overwrite [simp]:
  "i + length bs \<le> length m \<Longrightarrow> length (overwrite m i bs) = length m"
  by (simp add: overwrite_def)

lemma take_overwrite [simp]:
  "i \<le> length m \<Longrightarrow> take i (overwrite m i bs) = take i m"
  by (simp add: overwrite_def)

lemma take_overwrite_add [simp]:
  "i \<le> length m \<Longrightarrow> take (i + length bs) (overwrite m i bs) = take i m @ bs"
  by (simp add: overwrite_def)

lemma take_overwrite_prefix:
  "\<lbrakk>i \<le> length m; k \<le> length bs\<rbrakk> \<Longrightarrow> take (i + k) (overwrite m i bs) = take i m @ take k bs"
  by (simp add: overwrite_def)

lemma take_overwrite_below [simp]:
  "\<lbrakk>k \<le> i; i \<le> length m\<rbrakk> \<Longrightarrow> take k (overwrite m i bs) = take k m"
  by (simp add: overwrite_def min_def)

lemma mem_load_eq_Inr [res_simps]:
  "mem_load m i n = Inr bs \<longleftrightarrow> i + n \<le> length m \<and> bs = take n (drop i m)"
  by (auto simp: mem_load_def)

lemma mem_load_eq_Inl [res_simps]:
  "mem_load m i n = Inl e \<longleftrightarrow> length m < i + n \<and> e = Out_Of_Bounds"
  by (auto simp: mem_load_def)

lemma mem_store_eq_Inr [res_simps]:
  "mem_store m i bs = Inr m' \<longleftrightarrow> i + length bs \<le> length m \<and> m' = overwrite m i bs"
  by (auto simp: mem_store_def)

lemma mem_store_eq_Inl [res_simps]:
  "mem_store m i bs = Inl e \<longleftrightarrow> length m < i + length bs \<and> e = Out_Of_Bounds"
  by (auto simp: mem_store_def)

lemma unat_PTRDIFF_MAX [simp]: "unat PTRDIFF_MAX = 2 ^ 63 - 1"
  by (simp add: PTRDIFF_MAX_def)

lemma le_PTRDIFF_MAX_iff: "n \<le> PTRDIFF_MAX \<longleftrightarrow> unat n < 2 ^ 63"
  by (simp add: word_le_nat_alt less_le_trans) linarith

lemma gt_PTRDIFF_MAX_iff: "PTRDIFF_MAX < n \<longleftrightarrow> 2 ^ 63 \<le> unat n"
  using le_PTRDIFF_MAX_iff [of n] by auto

lemma malloc_eq_Some [res_simps]:
  "malloc al n = Some m \<longleftrightarrow>
     unat n < 2 ^ 63 \<and> (\<exists>g. al n = Some g \<and> m = map g [0..<unat n])"
  by (auto simp: malloc_def le_PTRDIFF_MAX_iff)

lemma realloc_eq_Some [res_simps]:
  "realloc al old n = Some m \<longleftrightarrow>
     0 < unat n \<and> unat n < 2 ^ 63 \<and>
     (\<exists>g. al n = Some g \<and> m = take (unat n) old @ map g [length old..<unat n])"
  by (auto simp: realloc_def gt_PTRDIFF_MAX_iff unat_gt_0)

lemma length_realloc: "realloc al old n = Some m \<Longrightarrow> length m = unat n"
  by (auto simp: realloc_eq_Some)

lemma take_realloc:
  "\<lbrakk>realloc al old n = Some m; k \<le> length old; k \<le> unat n\<rbrakk> \<Longrightarrow> take k m = take k old"
  by (auto simp: realloc_eq_Some min_def)

section \<open>Bytes of a pointer\<close>

text \<open>\<^verbatim>\<open>memcpy\<close> between a pointer and its bytes, on a little-endian machine.\<close>

fun le_bytes :: "nat \<Rightarrow> pointer \<Rightarrow> byte list" where
  "le_bytes 0 p = []"
| "le_bytes (Suc n) p = ucast p # le_bytes n (drop_bit 8 p)"

fun le_value :: "byte list \<Rightarrow> pointer" where
  "le_value [] = 0"
| "le_value (b # bs) = ucast b OR push_bit 8 (le_value bs)"

text \<open>A region of bytes read as an array of pointers; an incomplete last one does not count.\<close>

definition pointer_slots :: "byte list \<Rightarrow> pointer list" where
  "pointer_slots m = map (\<lambda>i. le_value (take 8 (drop (8 * i) m))) [0..<length m div 8]"

lemma length_le_bytes [simp]: "length (le_bytes n p) = n"
  by (induction n p rule: le_bytes.induct) auto

lemma le_value_step: "ucast (ucast p :: byte) OR push_bit 8 (take_bit n (drop_bit 8 p)) = take_bit (8 + n) (p :: pointer)"
  by (rule bit_eqI) (auto simp: bit_simps)

lemma le_value_le_bytes: "le_value (le_bytes n p) = take_bit (8 * n) p"
proof (induction n arbitrary: p)
  case (Suc n)
  then show ?case using le_value_step [of p "8 * n"] by simp
qed simp

lemma le_value_le_bytes_8 [simp]: "le_value (le_bytes 8 p) = p"
  by (simp add: le_value_le_bytes take_bit_word_eq_self)

section \<open>Words\<close>

lemma unat_add_no_wrap:
  "unat (a::size_t) + unat b < 2 ^ 64 \<Longrightarrow> unat (a + b) = unat a + unat b"
  by (simp add: unat_word_ariths)

lemma unat_of_nat_size [simp]: "n < 2 ^ 64 \<Longrightarrow> unat (of_nat n :: size_t) = n"
  by (simp add: unat_of_nat take_bit_nat_eq_self)

lemma unat_add_of_nat:
  "unat (a::size_t) + n < 2 ^ 64 \<Longrightarrow> unat (a + of_nat n) = unat a + n"
  by (simp add: unat_word_ariths unat_of_nat take_bit_eq_mod)

lemma unat_diff_no_wrap: "b \<le> (a::size_t) \<Longrightarrow> unat (a - b) = unat a - unat b"
  by (simp add: unat_sub)

lemma unat_shift1: "unat (a::size_t) < 2 ^ 63 \<Longrightarrow> unat (push_bit 1 a) = 2 * unat a"
  by (simp add: push_bit_eq_mult unat_word_ariths)

lemma unat_less_size [simp]: "unat (a::size_t) < 18446744073709551616"
  using unsigned_less [of a] by simp

section \<open>Lists\<close>

lemma take_drop_split: "i \<le> j \<Longrightarrow> take j xs = take i xs @ take (j - i) (drop i xs)"
  by (metis le_add_diff_inverse take_add)

end
