(* ===== verification/Posix.thy ===== *)
theory Posix
  imports Prelude
begin

text \<open>
  The system calls the server relies on, as the manual pages describe them.

  A connected non-blocking stream socket is a script of what the kernel will answer: the
  receiving side is a list of events (a chunk of bytes that has arrived, "nothing there
  yet", an error, the peer's shutdown), the sending side a list of how much each
  \<^verbatim>\<open>write\<close> accepts. Every behaviour of the peer and of the network is some script, so a
  theorem for all scripts is a theorem for all behaviours. \<open>sent\<close> records the bytes
  that went out. An event descriptor is its 64-bit kernel counter, a default mutex is
  locked or not.
\<close>

section \<open>Stream sockets\<close>

datatype rx_event = Rx_Data byte "byte list" | Rx_Block | Rx_Error | Rx_Closed

datatype tx_event = Tx_Accept nat | Tx_Block | Tx_Error | Tx_Zero

record socket =
  rx :: "rx_event list"
  tx :: "tx_event list"
  sent :: "byte list"

datatype read_ret = Read_Bytes "byte list" | Read_Again | Read_Fail

datatype write_ret = Wrote nat | Write_Again | Write_Fail

text \<open>Bytes of a chunk that a short read leaves behind stay in front of the script.\<close>

fun push_back :: "byte list \<Rightarrow> rx_event list \<Rightarrow> rx_event list" where
  "push_back [] es = es"
| "push_back (b # bs) es = Rx_Data b bs # es"

fun rx_read :: "nat \<Rightarrow> rx_event list \<Rightarrow> read_ret \<times> rx_event list" where
  "rx_read n [] = (Read_Again, [])"
| "rx_read n (Rx_Data b bs # es) =
     (if n = 0 then (Read_Bytes [], Rx_Data b bs # es)
      else (Read_Bytes (take n (b # bs)), push_back (drop n (b # bs)) es))"
| "rx_read n (Rx_Block # es) = (Read_Again, es)"
| "rx_read n (Rx_Error # es) = (Read_Fail, es)"
| "rx_read n (Rx_Closed # es) = (Read_Bytes [], Rx_Closed # es)"

definition sys_read :: "nat \<Rightarrow> socket \<Rightarrow> read_ret \<times> socket" where
  "sys_read n s = (let (r, es) = rx_read n (rx s) in (r, s\<lparr>rx := es\<rparr>))"

text \<open>\<open>Tx_Accept k\<close> takes at most \<open>k + 1\<close> bytes of what is offered.\<close>

fun sys_write :: "byte list \<Rightarrow> socket \<Rightarrow> write_ret \<times> socket" where
  "sys_write bs s =
     (case tx s of
        [] \<Rightarrow> (Write_Again, s)
      | Tx_Accept k # es \<Rightarrow>
          (let n = min (Suc k) (length bs)
           in (Wrote n, s\<lparr>tx := es, sent := sent s @ take n bs\<rparr>))
      | Tx_Block # es \<Rightarrow> (Write_Again, s\<lparr>tx := es\<rparr>)
      | Tx_Error # es \<Rightarrow> (Write_Fail, s\<lparr>tx := es\<rparr>)
      | Tx_Zero # es \<Rightarrow> (Wrote 0, s\<lparr>tx := es\<rparr>))"

text \<open>The bytes in front of the first event that is not data, and what follows them.\<close>

fun rx_data :: "rx_event list \<Rightarrow> byte list" where
  "rx_data (Rx_Data b bs # es) = b # bs @ rx_data es"
| "rx_data _ = []"

fun rx_after :: "rx_event list \<Rightarrow> rx_event list" where
  "rx_after (Rx_Data b bs # es) = rx_after es"
| "rx_after es = es"

fun rx_event_size :: "rx_event \<Rightarrow> nat" where
  "rx_event_size (Rx_Data b bs) = Suc (Suc (length bs))"
| "rx_event_size _ = 1"

definition rx_size :: "rx_event list \<Rightarrow> nat" where
  "rx_size es = sum_list (map rx_event_size es)"

lemma rx_size_simps [simp]:
  "rx_size [] = 0"
  "rx_size (e # es) = rx_event_size e + rx_size es"
  by (simp_all add: rx_size_def)

lemma rx_size_push_back: "rx_size (push_back bs es) \<le> Suc (length bs) + rx_size es"
  by (cases bs) auto

lemma rx_data_push_back [simp]: "rx_data (push_back bs es) = bs @ rx_data es"
  by (cases bs) auto

lemma rx_after_push_back [simp]: "rx_after (push_back bs es) = rx_after es"
  by (cases bs) auto

lemma rx_read_decreases:
  "\<lbrakk>rx_read n es = (Read_Bytes bs, es'); bs \<noteq> []\<rbrakk> \<Longrightarrow> rx_size es' < rx_size es"
proof (induction n es rule: rx_read.induct)
  case (2 n b cs es)
  then show ?case
    using rx_size_push_back [of "drop n (b # cs)" es] by (auto split: if_splits)
qed auto

lemma rx_read_bytes:
  "\<lbrakk>rx_read n es = (Read_Bytes bs, es'); bs \<noteq> []\<rbrakk> \<Longrightarrow>
     rx_data es = bs @ rx_data es' \<and> rx_after es' = rx_after es \<and> length bs \<le> n"
  by (induction n es rule: rx_read.induct)
     (auto split: if_splits simp flip: append_assoc simp del: take_append)

lemma rx_read_zero:
  "\<lbrakk>rx_read n es = (Read_Bytes [], es'); 0 < n\<rbrakk> \<Longrightarrow>
     rx_data es = [] \<and> (\<exists>fs. rx_after es = Rx_Closed # fs) \<and> es' = rx_after es"
  by (induction n es rule: rx_read.induct) (auto split: if_splits)

lemma rx_read_again:
  "\<lbrakk>rx_read n es = (Read_Again, es')\<rbrakk> \<Longrightarrow>
     rx_data es = [] \<and> (rx_after es = [] \<and> es' = [] \<or> rx_after es = Rx_Block # es')"
  by (induction n es rule: rx_read.induct) (auto split: if_splits)

lemma rx_read_fail:
  "\<lbrakk>rx_read n es = (Read_Fail, es')\<rbrakk> \<Longrightarrow> rx_data es = [] \<and> rx_after es = Rx_Error # es'"
  by (induction n es rule: rx_read.induct) (auto split: if_splits)

lemma sys_read_rx:
  "sys_read n s = (r, s') \<longleftrightarrow> (\<exists>es. rx_read n (rx s) = (r, es) \<and> s' = s\<lparr>rx := es\<rparr>)"
  by (auto simp: sys_read_def split: prod.splits)

lemma sys_read_decreases:
  "\<lbrakk>sys_read n s = (Read_Bytes bs, s'); bs \<noteq> []\<rbrakk> \<Longrightarrow> rx_size (rx s') < rx_size (rx s)"
  by (auto simp: sys_read_rx dest: rx_read_decreases)

lemma sys_write_decreases:
  "\<lbrakk>sys_write bs s = (Wrote n, s')\<rbrakk> \<Longrightarrow> length (tx s') < length (tx s)"
  by (auto simp: Let_def split: list.splits tx_event.splits)

lemma sys_write_wrote:
  "sys_write bs s = (Wrote n, s') \<Longrightarrow>
     n \<le> length bs \<and> sent s' = sent s @ take n bs \<and> rx s' = rx s"
  by (auto simp: Let_def split: list.splits tx_event.splits)

lemma sys_write_other:
  "\<lbrakk>sys_write bs s = (r, s'); \<And>n. r \<noteq> Wrote n\<rbrakk> \<Longrightarrow> sent s' = sent s \<and> rx s' = rx s"
  by (auto simp: Let_def split: list.splits tx_event.splits)

declare sys_write.simps [simp del]

section \<open>Event descriptors and mutexes\<close>

type_synonym eventfd = "64 word"

text \<open>
  A write that would push the counter past its maximum \<open>2 ^ 64 - 2\<close> fails with EAGAIN
  on a non-blocking descriptor; a read takes the whole count, and fails on zero.
\<close>

definition EVENTFD_MAX :: "64 word" where
  "EVENTFD_MAX = 0xFFFFFFFFFFFFFFFE"

definition eventfd_write :: "eventfd \<Rightarrow> 64 word \<Rightarrow> int \<times> eventfd" where
  "eventfd_write c v =
     (if v \<le> EVENTFD_MAX \<and> c \<le> EVENTFD_MAX - v then (0, c + v) else (-1, c))"

definition eventfd_read :: "eventfd \<Rightarrow> (64 word) option \<times> eventfd" where
  "eventfd_read c = (if c = 0 then (None, 0) else (Some c, 0))"

datatype mutex = Unlocked | Locked

text \<open>Locking a mutex that is held never returns in the calling thread alone.\<close>

fun pthread_mutex_lock :: "mutex \<Rightarrow> (int \<times> mutex) res" where
  "pthread_mutex_lock Unlocked = Inr (0, Locked)"
| "pthread_mutex_lock Locked = Inl Blocks_Forever"

definition pthread_mutex_unlock :: "mutex \<Rightarrow> int \<times> mutex" where
  "pthread_mutex_unlock m = (0, Unlocked)"

lemma eventfd_write_one:
  assumes "unat c < unat EVENTFD_MAX"
  shows "eventfd_write c 1 = (0, c + 1)" and "unat (c + 1) = Suc (unat c)"
proof -
  have "c < EVENTFD_MAX" using assms by (simp add: word_less_nat_alt)
  then have "c \<le> EVENTFD_MAX - 1" by (simp add: EVENTFD_MAX_def word_less_nat_alt word_le_nat_alt)
  then show "eventfd_write c 1 = (0, c + 1)" by (simp add: eventfd_write_def EVENTFD_MAX_def)
  show "unat (c + 1) = Suc (unat c)"
    using assms unat_add_of_nat [of c 1] by (simp add: EVENTFD_MAX_def)
qed

end
