(* ===== verification/Input_Buffer.thy ===== *)
theory Input_Buffer
  imports Posix
begin

text \<open>
  src/input_buffer.h and src/input_buffer.c: the growing buffer that collects what a
  client sends. The invariant \<open>ib_wf\<close> ties the region to the recorded length and
  offset; \<open>ib_contents\<close> is the abstraction, the bytes received so far.
\<close>

section \<open>Data and operations\<close>

datatype ReadState = READ_FINISH | READ_BUSY | READ_ERROR | CLIENT_DISCONNECT

record InputBuffer =
  ib_buffer :: "byte list"
  ib_length :: size_t
  ib_offset :: size_t
  ib_resize_count :: size_t

definition SIZEOF_InputBuffer :: size_t where
  "SIZEOF_InputBuffer = 32"

definition input_resize :: "allocator \<Rightarrow> InputBuffer \<Rightarrow> InputBuffer res" where
  "input_resize al b =
     (if ib_offset b = ib_length b then
        let len = push_bit 1 (ib_length b)
        in bind_res (CHECK_MEM (realloc al (ib_buffer b) len))
             (\<lambda>m. Inr (b\<lparr>ib_length := len, ib_buffer := m,
                         ib_resize_count := ib_resize_count b + 1\<rparr>))
      else Inr b)"

definition input_buffer_init :: "allocator \<Rightarrow> size_t \<Rightarrow> InputBuffer res" where
  "input_buffer_init al n =
     bind_res (CHECK_MEM (malloc al SIZEOF_InputBuffer)) (\<lambda>_.
     bind_res (CHECK_MEM (malloc al n)) (\<lambda>m.
       Inr \<lparr>ib_buffer = m, ib_length = n, ib_offset = 0, ib_resize_count = 0\<rparr>))"

definition input_buffer_reset :: "InputBuffer \<Rightarrow> InputBuffer" where
  "input_buffer_reset b = b\<lparr>ib_offset := 0\<rparr>"

function input_buffer_read_into ::
  "allocator \<Rightarrow> InputBuffer \<Rightarrow> socket \<Rightarrow> (ReadState \<times> InputBuffer \<times> socket) res" where
  "input_buffer_read_into al b s =
     bind_res (input_resize al b) (\<lambda>b.
       let num_to_read = ib_length b - ib_offset b
       in case sys_read (unat num_to_read) s of
            (Read_Again, s') \<Rightarrow> Inr (READ_BUSY, b, s')
          | (Read_Fail, s') \<Rightarrow> Inr (READ_ERROR, b, s')
          | (Read_Bytes [], s') \<Rightarrow> Inr (READ_ERROR, b, s')
          | (Read_Bytes (x # xs), s') \<Rightarrow>
              bind_res (mem_store (ib_buffer b) (unat (ib_offset b)) (x # xs)) (\<lambda>m.
                input_buffer_read_into al
                  (b\<lparr>ib_buffer := m, ib_offset := ib_offset b + of_nat (length (x # xs))\<rparr>) s'))"
  by pat_completeness auto
termination
  by (relation "measure (\<lambda>(al, b, s). rx_size (rx s))") (auto intro: sys_read_decreases [OF sym])

declare input_buffer_read_into.simps [simp del]

section \<open>Invariant and abstraction\<close>

definition ib_wf :: "InputBuffer \<Rightarrow> bool" where
  "ib_wf b \<longleftrightarrow> length (ib_buffer b) = unat (ib_length b) \<and> ib_offset b \<le> ib_length b \<and>
     0 < unat (ib_length b) \<and> unat (ib_length b) < 2 ^ 63"

definition ib_contents :: "InputBuffer \<Rightarrow> byte list" where
  "ib_contents b = take (unat (ib_offset b)) (ib_buffer b)"

declare ib_wf_def [wf_defs]

lemma length_ib_contents: "ib_wf b \<Longrightarrow> length (ib_contents b) = unat (ib_offset b)"
  by (simp add: ib_contents_def ib_wf_def word_le_nat_alt)

lemma input_resize_wf:
  assumes "ib_wf b" and "input_resize al b = Inr b'"
  shows "ib_wf b' \<and> ib_contents b' = ib_contents b \<and> ib_offset b' = ib_offset b \<and>
     ib_offset b' < ib_length b'"
proof (cases "ib_offset b = ib_length b")
  case True
  with assms obtain m where m: "realloc al (ib_buffer b) (push_bit 1 (ib_length b)) = Some m"
    and b': "b' = b\<lparr>ib_length := push_bit 1 (ib_length b), ib_buffer := m,
                   ib_resize_count := ib_resize_count b + 1\<rparr>"
    by (auto simp: input_resize_def Let_def res_simps CHECK_MEM_def split: option.splits)
  have len: "unat (push_bit 1 (ib_length b)) = 2 * unat (ib_length b)"
    using assms(1) by (intro unat_shift1) (simp add: ib_wf_def)
  have "length m = 2 * unat (ib_length b)"
    using length_realloc [OF m] len by simp
  moreover have "take (unat (ib_length b)) m = take (unat (ib_length b)) (ib_buffer b)"
    using assms(1) len by (intro take_realloc [OF m]) (simp_all add: ib_wf_def)
  moreover have "2 * unat (ib_length b) < 2 ^ 63"
    using m len by (simp add: realloc_eq_Some)
  ultimately show ?thesis
    using assms(1) True b' len
    by (auto simp: ib_wf_def ib_contents_def word_le_nat_alt word_less_nat_alt)
next
  case False
  with assms show ?thesis
    by (auto simp: input_resize_def ib_wf_def intro: le_neq_trans)
qed

lemma input_resize_fault: "input_resize al b = Inl e \<Longrightarrow> e = OOM"
  by (auto simp: input_resize_def Let_def res_simps split: if_splits)

text \<open>Growing doubles the region, and only when the received bytes fill it.\<close>

lemma input_resize_growth:
  assumes "ib_wf b" and "input_resize al b = Inr b'"
  shows "b' = b \<or>
     unat (ib_length b') = 2 * unat (ib_length b) \<and> ib_offset b = ib_length b \<and>
     ib_resize_count b' = ib_resize_count b + 1"
  using assms unat_shift1 [of "ib_length b"]
  by (auto simp: input_resize_def Let_def res_simps ib_wf_def split: if_splits)

lemma input_resize_returns:
  assumes "ib_wf b" and "\<And>n. al n \<noteq> None" and "unat (ib_offset b) < 2 ^ 62"
  shows "\<exists>b'. input_resize al b = Inr b'"
proof -
  obtain g where "al (push_bit 1 (ib_length b)) = Some g"
    using assms(2) by fastforce
  with assms(1,3) unat_shift1 [of "ib_length b"] show ?thesis
    by (auto simp: input_resize_def Let_def res_simps ib_wf_def realloc_eq_Some)
qed

text \<open>One successful \<^verbatim>\<open>read\<close> into a buffer with room keeps the invariant and appends.\<close>

lemma ib_store_step:
  assumes wf: "ib_wf b" and "ib_offset b < ib_length b"
    and "length bs \<le> unat (ib_length b - ib_offset b)"
  shows "mem_store (ib_buffer b) (unat (ib_offset b)) bs =
           Inr (overwrite (ib_buffer b) (unat (ib_offset b)) bs)" (is "?A")
    and "ib_wf (b\<lparr>ib_buffer := overwrite (ib_buffer b) (unat (ib_offset b)) bs,
                  ib_offset := ib_offset b + of_nat (length bs)\<rparr>)" (is "?B")
    and "ib_contents (b\<lparr>ib_buffer := overwrite (ib_buffer b) (unat (ib_offset b)) bs,
                  ib_offset := ib_offset b + of_nat (length bs)\<rparr>) = ib_contents b @ bs" (is "?C")
    and "unat (ib_offset b + of_nat (length bs)) = unat (ib_offset b) + length bs" (is "?D")
proof -
  have room: "unat (ib_offset b) + length bs \<le> unat (ib_length b)"
    using assms(2,3) unat_diff_no_wrap [of "ib_offset b" "ib_length b"]
    by (simp add: word_less_nat_alt word_le_nat_alt)
  then show off: ?D
    using le_less_trans [OF room unat_less_size] by (intro unat_add_of_nat) simp
  from room wf show ?A ?B ?C
    by (auto simp: mem_store_def ib_wf_def ib_contents_def off word_le_nat_alt)
qed

section \<open>What a call of the read loop does\<close>

text \<open>
  The state the loop returns and what it leaves on the socket, read off the script: data
  is skipped, the first other event decides.
\<close>

fun rx_outcome :: "rx_event list \<Rightarrow> ReadState \<times> rx_event list" where
  "rx_outcome [] = (READ_BUSY, [])"
| "rx_outcome (Rx_Data b bs # es) = rx_outcome es"
| "rx_outcome (Rx_Block # es) = (READ_BUSY, es)"
| "rx_outcome (Rx_Error # es) = (READ_ERROR, es)"
| "rx_outcome (Rx_Closed # es) = (READ_ERROR, Rx_Closed # es)"

lemma rx_outcome_after: "rx_outcome es = rx_outcome (rx_after es)"
  by (induction es rule: rx_outcome.induct) auto

lemma rx_outcome_same_after: "rx_after es = rx_after es' \<Longrightarrow> rx_outcome es = rx_outcome es'"
  by (metis rx_outcome_after)

text \<open>
  What holds between the arguments and the result of the loop: invariant, bytes, verdict,
  frame, and the growth of the region.
\<close>

definition read_into_post ::
  "InputBuffer \<Rightarrow> socket \<Rightarrow> ReadState \<Rightarrow> InputBuffer \<Rightarrow> socket \<Rightarrow> bool" where
  "read_into_post b s st b' s' \<longleftrightarrow>
     ib_wf b' \<and> ib_contents b' = ib_contents b @ rx_data (rx s) \<and>
     (st, rx s') = rx_outcome (rx s) \<and> tx s' = tx s \<and> sent s' = sent s \<and>
     (\<exists>k. unat (ib_length b') = 2 ^ k * unat (ib_length b) \<and>
          ib_resize_count b' = ib_resize_count b + of_nat k) \<and>
     unat (ib_length b') \<le> max (unat (ib_length b)) (2 * unat (ib_offset b'))"

lemma read_into_stop:
  assumes wf: "ib_wf b" and rs: "input_resize al b = Inr b1"
    and data: "rx_data (rx s) = []" and out: "(st, rx s') = rx_outcome (rx s)"
    and frame: "tx s' = tx s" "sent s' = sent s"
  shows "read_into_post b s st b1 s'"
proof -
  from input_resize_growth [OF wf rs]
  have "\<exists>k. unat (ib_length b1) = 2 ^ k * unat (ib_length b) \<and>
      ib_resize_count b1 = ib_resize_count b + of_nat k"
    by (elim disjE) (auto intro: exI [of _ 0] exI [of _ 1])
  with input_resize_wf [OF wf rs] input_resize_growth [OF wf rs] data out frame
  show ?thesis by (auto simp: read_into_post_def)
qed

lemma read_into_more:
  assumes wf: "ib_wf b" and rs: "input_resize al b = Inr b1"
    and off: "unat (ib_offset b2) = unat (ib_offset b1) + length bs"
    and b2: "ib_wf b2" "ib_contents b2 = ib_contents b1 @ bs" "ib_length b2 = ib_length b1"
      "ib_resize_count b2 = ib_resize_count b1"
    and rd: "rx_data (rx s) = bs @ rx_data (rx s1)" "rx_after (rx s1) = rx_after (rx s)"
    and frame: "tx s1 = tx s" "sent s1 = sent s"
    and post: "read_into_post b2 s1 st b' s'"
  shows "read_into_post b s st b' s'"
proof -
  note res = input_resize_wf [OF wf rs] input_resize_growth [OF wf rs]
  from post obtain k where k: "unat (ib_length b') = 2 ^ k * unat (ib_length b1)"
    and rc: "ib_resize_count b' = ib_resize_count b1 + of_nat k"
    by (auto simp: read_into_post_def b2)
  have "\<exists>k. unat (ib_length b') = 2 ^ k * unat (ib_length b) \<and>
      ib_resize_count b' = ib_resize_count b + of_nat k"
    using res(2) k rc by (elim disjE) (auto intro: exI [of _ k] exI [of _ "Suc k"])
  moreover have "unat (ib_offset b1) \<le> unat (ib_offset b')"
  proof -
    have "ib_wf b'" "ib_contents b' = ib_contents b1 @ bs @ rx_data (rx s1)"
      using post b2(2) by (simp_all add: read_into_post_def)
    then show ?thesis
      using length_ib_contents [of b'] length_ib_contents [of b1] res(1) by simp
  qed
  ultimately show ?thesis
    using post res rd frame rx_outcome_same_after [OF rd(2)]
    by (auto simp: read_into_post_def b2)
qed

lemma input_buffer_read_into_post:
  "\<lbrakk>ib_wf b; input_buffer_read_into al b s = Inr (st, b', s')\<rbrakk> \<Longrightarrow> read_into_post b s st b' s'"
proof (induction al b s rule: input_buffer_read_into.induct)
  case (1 al b s)
  obtain b1 where rs: "input_resize al b = Inr b1"
    using "1.prems"(2) by (auto simp: input_buffer_read_into.simps [of al b] res_simps)
  note b1 = input_resize_wf [OF "1.prems"(1) rs]
  let ?n = "unat (ib_length b1 - ib_offset b1)"
  have n: "0 < ?n" using b1 by (auto simp: unat_gt_0)
  obtain r es where rd: "rx_read ?n (rx s) = (r, es)" by fastforce
  let ?s = "s\<lparr>rx := es\<rparr>"
  have sr: "sys_read ?n s = (r, ?s)" using rd by (simp add: sys_read_rx)
  note eq = "1.prems"(2) [unfolded input_buffer_read_into.simps [of al b s]]
  consider (again) "r = Read_Again" | (fail) "r = Read_Fail" | (eof) "r = Read_Bytes []"
    | (more) x xs where "r = Read_Bytes (x # xs)"
    by (metis list.exhaust read_ret.exhaust)
  then show ?case
  proof cases
    case (more x xs)
    let ?b = "b1\<lparr>ib_buffer := overwrite (ib_buffer b1) (unat (ib_offset b1)) (x # xs),
                 ib_offset := ib_offset b1 + of_nat (length (x # xs))\<rparr>"
    have bytes: "rx_data (rx s) = (x # xs) @ rx_data es" "rx_after es = rx_after (rx s)"
      "length (x # xs) \<le> ?n"
      using rx_read_bytes [OF rd [unfolded more]] by auto
    have "ib_wf b1" "ib_offset b1 < ib_length b1" using b1 by auto
    note st = ib_store_step [OF this bytes(3)]
    have "input_buffer_read_into al ?b ?s = Inr (st, b', s')"
      using eq rs sr st(1) b1 more by (simp add: Let_def)
    then have "read_into_post ?b ?s st b' s'"
      using "1.IH" [OF rs refl sr [symmetric] more refl] st b1 by simp
    then show ?thesis
      by (rule read_into_more [OF "1.prems"(1) rs, rotated -1])
         (use st bytes in \<open>simp_all\<close>)
  qed (use "1.prems"(1) rs rd sr eq n b1 in
        \<open>auto intro!: read_into_stop dest!: rx_read_zero rx_read_again rx_read_fail
              simp: Let_def rx_outcome_after [of "rx s"] split: read_ret.splits\<close>)
qed


lemma input_buffer_read_into_fault:
  "\<lbrakk>ib_wf b; input_buffer_read_into al b s = Inl e\<rbrakk> \<Longrightarrow> e = OOM"
proof (induction al b s rule: input_buffer_read_into.induct)
  case (1 al b s)
  show ?case
  proof (cases "input_resize al b")
    case (Inl e')
    with "1.prems" show ?thesis
      by (auto simp: input_buffer_read_into.simps [of al b] dest: input_resize_fault)
  next
    case (Inr b1)
    note b1 = input_resize_wf [OF "1.prems"(1) Inr]
    let ?n = "unat (ib_length b1 - ib_offset b1)"
    obtain r s1 where sr: "sys_read ?n s = (r, s1)" by fastforce
    obtain x xs where r: "r = Read_Bytes (x # xs)"
      using "1.prems"(2) sr Inr
      by (cases r; cases "case r of Read_Bytes bs \<Rightarrow> bs | _ \<Rightarrow> []")
         (auto simp: input_buffer_read_into.simps [of al b] Let_def)
    have len: "length (x # xs) \<le> ?n"
      using sr r by (auto simp: sys_read_rx dest: rx_read_bytes)
    have "ib_wf b1" "ib_offset b1 < ib_length b1" using b1 by auto
    note st = ib_store_step [OF this len]
    show ?thesis
      using "1.IH" [OF Inr refl sr [symmetric] r refl] "1.prems"(2) Inr sr r st b1
      by (simp add: input_buffer_read_into.simps [of al b] Let_def)
  qed
qed

text \<open>With memory to be had and fewer than \<open>2 ^ 62\<close> bytes to come, the loop returns.\<close>

lemma input_buffer_read_into_returns_aux:
  "\<lbrakk>ib_wf b; \<And>n. al n \<noteq> None; unat (ib_offset b) + length (rx_data (rx s)) < 2 ^ 62\<rbrakk> \<Longrightarrow>
     \<exists>st b' s'. input_buffer_read_into al b s = Inr (st, b', s')"
proof (induction al b s rule: input_buffer_read_into.induct)
  case (1 al b s)
  obtain b1 where rs: "input_resize al b = Inr b1"
    using input_resize_returns "1.prems" by fastforce
  note b1 = input_resize_wf [OF "1.prems"(1) rs]
  let ?n = "unat (ib_length b1 - ib_offset b1)"
  obtain r es where rd: "rx_read ?n (rx s) = (r, es)" by fastforce
  have sr: "sys_read ?n s = (r, s\<lparr>rx := es\<rparr>)" using rd by (simp add: sys_read_rx)
  show ?case
  proof (cases "\<exists>x xs. r = Read_Bytes (x # xs)")
    case True
    then obtain x xs where r: "r = Read_Bytes (x # xs)" by blast
    note bytes = rx_read_bytes [OF rd [unfolded r]]
    have "ib_wf b1" "ib_offset b1 < ib_length b1" using b1 by auto
    note st = ib_store_step [OF this, of "x # xs"]
    show ?thesis
      using "1.IH" [OF rs refl sr [symmetric] r refl] "1.prems" rs sr r st b1 bytes
      by (simp add: input_buffer_read_into.simps [of al b] Let_def)
  next
    case False
    then show ?thesis
      using rs sr by (auto simp: input_buffer_read_into.simps [of al b] Let_def
                      split: read_ret.splits list.splits)
  qed
qed

lemma input_buffer_init_wf:
  "\<lbrakk>input_buffer_init al n = Inr b; n \<noteq> 0\<rbrakk> \<Longrightarrow> ib_wf b \<and> ib_contents b = []"
  by (auto simp: input_buffer_init_def res_simps ib_wf_def ib_contents_def unat_gt_0)

lemma input_buffer_reset_wf:
  "ib_wf b \<Longrightarrow> ib_wf (input_buffer_reset b) \<and> ib_contents (input_buffer_reset b) = []"
  by (auto simp: input_buffer_reset_def ib_wf_def ib_contents_def)


section \<open>Properties\<close>

definition ib_ex :: InputBuffer where
  "ib_ex = \<lparr>ib_buffer = [0, 0], ib_length = 2, ib_offset = 0, ib_resize_count = 0\<rparr>"

definition sock_ex :: socket where
  "sock_ex = \<lparr>rx = [Rx_Data 71 [69, 84], Rx_Data 32 [47], Rx_Block, Rx_Closed], tx = [], sent = []\<rparr>"

definition ib_ex' :: InputBuffer where
  "ib_ex' = \<lparr>ib_buffer = [71, 69, 84, 32, 47, 0, 0, 0], ib_length = 8, ib_offset = 5, ib_resize_count = 2\<rparr>"

lemma ib_ex_wf: "ib_wf ib_ex"
  by (simp add: ib_wf_def ib_ex_def)

lemma read_into_ex:
  "input_buffer_read_into (\<lambda>_. Some (\<lambda>_. 0)) ib_ex sock_ex =
     Inr (READ_BUSY, ib_ex', sock_ex\<lparr>rx := [Rx_Closed]\<rparr>)"
  unfolding ib_ex_def ib_ex'_def sock_ex_def by code_simp


text \<open>
  Property C11: a call of \<^verbatim>\<open>input_buffer_read_into\<close> that returns has appended to the buffer
  exactly the bytes the socket delivered before the first event that is not data, has kept
  the invariant (region, length and offset agree) across every doubling of the region, and
  returns READ_BUSY if the kernel then said "would block" and READ_ERROR if it reported an
  error or the end of the stream.
\<close>

theorem input_buffer_read_into_correct:
  assumes "ib_wf b" and "input_buffer_read_into al b s = Inr (st, b', s')"
  shows "ib_wf b' \<and> ib_contents b' = ib_contents b @ rx_data (rx s) \<and>
     (st, rx s') = rx_outcome (rx s) \<and> tx s' = tx s \<and> sent s' = sent s"
  using input_buffer_read_into_post [OF assms] by (simp add: read_into_post_def)

theorem input_buffer_read_into_correct_witness:
  "ib_wf ib_ex \<and>
   input_buffer_read_into (\<lambda>_. Some (\<lambda>_. 0)) ib_ex sock_ex =
     Inr (READ_BUSY, ib_ex', sock_ex\<lparr>rx := [Rx_Closed]\<rparr>) \<and>
   ib_wf ib_ex' \<and> ib_contents ib_ex' = [71, 69, 84, 32, 47]"
  using input_buffer_read_into_correct [OF ib_ex_wf read_into_ex] ib_ex_wf read_into_ex
  by (simp add: ib_contents_def ib_ex_def sock_ex_def)

text \<open>
  The read loop never touches memory outside the buffer and never stops for
  another reason than a refused allocation; with memory available and less than 2^62 bytes
  to come it does return. When it returns, the region is the old one doubled as often as
  \<^verbatim>\<open>resize_count\<close> was incremented, and it is at most twice the bytes received.
\<close>

lemma input_buffer_read_into_safe:
  assumes "ib_wf b"
  shows "(\<forall>e. input_buffer_read_into al b s = Inl e \<longrightarrow> e = OOM) \<and>
     ((\<forall>n. al n \<noteq> None) \<and> unat (ib_offset b) + length (rx_data (rx s)) < 2 ^ 62 \<longrightarrow>
       (\<exists>st b' s'. input_buffer_read_into al b s = Inr (st, b', s') \<and>
         (\<exists>k. unat (ib_length b') = 2 ^ k * unat (ib_length b) \<and>
              ib_resize_count b' = ib_resize_count b + of_nat k) \<and>
         unat (ib_length b') \<le> max (unat (ib_length b)) (2 * unat (ib_offset b'))))"
  using input_buffer_read_into_fault [OF assms] input_buffer_read_into_returns_aux [OF assms]
    input_buffer_read_into_post [OF assms]
  by (auto simp: read_into_post_def) metis

lemma input_buffer_read_into_safe_example:
  "ib_wf ib_ex \<and>
   (\<exists>st b' s'. input_buffer_read_into (\<lambda>_. Some (\<lambda>_. 0)) ib_ex sock_ex = Inr (st, b', s') \<and>
      (\<exists>k. unat (ib_length b') = 2 ^ k * 2 \<and> ib_resize_count b' = of_nat k))"
proof -
  have "unat (ib_offset ib_ex) + length (rx_data (rx sock_ex)) < 2 ^ 62"
    by (simp add: ib_ex_def sock_ex_def)
  then show ?thesis
    using input_buffer_read_into_safe [OF ib_ex_wf, of "\<lambda>_. Some (\<lambda>_. 0)" sock_ex] ib_ex_wf
    by (auto simp: ib_ex_def)
qed

end
