(* ===== verification/Output_Buffer.thy ===== *)
theory Output_Buffer
  imports Posix
begin

text \<open>
  src/output_buffer.h and src/output_buffer.c: the growing buffer a response is printed
  into and written out from. \<open>ob_contents\<close> is everything printed so far, \<open>ob_pending\<close>
  the part that \<^verbatim>\<open>write\<close> has not taken yet. The contract of a resumable write is the locale
  \<open>resumable_writer\<close>; the buffer is its first instance, the messages of
  src/message_passing.c are the second.
\<close>

section \<open>Data and operations\<close>

datatype WriteState = WRITE_FINISH | WRITE_BUSY | WRITE_ERROR

record OutputBuffer =
  ob_buffer :: "byte list"
  ob_length :: size_t
  write_from_offset :: size_t
  write_into_offset :: size_t
  ob_resize_count :: size_t

definition SIZEOF_OutputBuffer :: size_t where
  "SIZEOF_OutputBuffer = 40"

definition output_resize :: "allocator \<Rightarrow> OutputBuffer \<Rightarrow> size_t \<Rightarrow> OutputBuffer res" where
  "output_resize al b min_size =
     (let new_size =
        (if push_bit 1 (ob_length b) > min_size then push_bit 1 (ob_length b) else min_size)
      in bind_res (CHECK_MEM (realloc al (ob_buffer b) new_size))
           (\<lambda>m. Inr (b\<lparr>ob_length := new_size, ob_buffer := m,
                       ob_resize_count := ob_resize_count b + 1\<rparr>)))"

definition output_buffer_init :: "allocator \<Rightarrow> size_t \<Rightarrow> OutputBuffer res" where
  "output_buffer_init al n =
     bind_res (CHECK_MEM (malloc al SIZEOF_OutputBuffer)) (\<lambda>_.
     bind_res (CHECK_MEM (malloc al n)) (\<lambda>m.
       Inr \<lparr>ob_buffer = m, ob_length = n, write_from_offset = 0, write_into_offset = 0,
            ob_resize_count = 0\<rparr>))"

definition output_buffer_reset :: "OutputBuffer \<Rightarrow> OutputBuffer" where
  "output_buffer_reset b = b\<lparr>write_from_offset := 0, write_into_offset := 0\<rparr>"

function output_buffer_write_to ::
  "OutputBuffer \<Rightarrow> socket \<Rightarrow> (WriteState \<times> OutputBuffer \<times> socket) res" where
  "output_buffer_write_to b s =
     (if write_from_offset b < write_into_offset b then
        bind_res (mem_load (ob_buffer b) (unat (write_from_offset b))
                    (unat (write_into_offset b - write_from_offset b))) (\<lambda>bs.
          case sys_write bs s of
            (Write_Again, s') \<Rightarrow> Inr (WRITE_BUSY, b, s')
          | (Write_Fail, s') \<Rightarrow> Inr (WRITE_ERROR, b, s')
          | (Wrote 0, s') \<Rightarrow> Inr (WRITE_ERROR, b, s')
          | (Wrote (Suc n), s') \<Rightarrow>
              output_buffer_write_to
                (b\<lparr>write_from_offset := write_from_offset b + of_nat (Suc n)\<rparr>) s')
      else Inr (WRITE_FINISH, b, s))"
  by pat_completeness auto
termination
  by (relation "measure (\<lambda>(b, s). length (tx s))") (auto intro: sys_write_decreases [OF sym])

declare output_buffer_write_to.simps [simp del]

text \<open>
  \<^verbatim>\<open>vsnprintf(start, n, fmt, args)\<close>, where \<open>s\<close> is the text the format and its arguments
  denote: it stores at most \<open>n - 1\<close> bytes of \<open>s\<close> and a terminating NUL, and returns
  the length of the whole text, or a negative number when that is not an \<^verbatim>\<open>int\<close>.
\<close>

definition INT_MAX :: int where
  "INT_MAX = 2147483647"

definition vsnprintf :: "byte list \<Rightarrow> nat \<Rightarrow> size_t \<Rightarrow> byte list \<Rightarrow> (int \<times> byte list) res" where
  "vsnprintf m i n s =
     (if int (length s) > INT_MAX then Inr (-1, m)
      else if n = 0 then Inr (int (length s), m)
      else bind_res (mem_store m i (take (unat n - 1) s @ [0]))
             (\<lambda>m'. Inr (int (length s), m')))"

text \<open>
  The loop of \<^verbatim>\<open>output_buffer_append\<close> ends for every state, also one in which the 64-bit
  sums wrap: either the next length is the requested minimum, and then the text fits, or
  the length doubles, which can leave it non-zero at most 63 times.
\<close>

definition doublings :: "size_t \<Rightarrow> nat" where
  "doublings n = card {k. k < 64 \<and> push_bit k n \<noteq> 0}"

definition append_measure :: "OutputBuffer \<Rightarrow> byte list \<Rightarrow> nat" where
  "append_measure b s =
     (if (of_nat (length s) :: size_t) \<le> ob_length b - write_into_offset b then 0
      else Suc (doublings (ob_length b)))"

lemma doublings_shift: "push_bit 1 n \<noteq> 0 \<Longrightarrow> doublings (push_bit 1 n) < doublings n"
proof -
  assume n: "push_bit 1 n \<noteq> 0"
  let ?A = "\<lambda>n::size_t. {k. k < 64 \<and> push_bit k n \<noteq> 0}"
  have "Suc k < 64 \<and> push_bit (Suc k) n \<noteq> 0" if "k < 64" "push_bit k (push_bit 1 n) \<noteq> 0" for k
  proof -
    have "push_bit (Suc k) n \<noteq> 0"
      using that(2) by simp
    moreover from this have "Suc k \<noteq> 64"
      using push_bit_word_beyond [of "Suc k" n] by auto
    ultimately show ?thesis using that(1) by simp
  qed
  then have "Suc ` ?A (push_bit 1 n) \<subseteq> ?A n - {0}"
    by auto
  then have "card (Suc ` ?A (push_bit 1 n)) \<le> card (?A n - {0})"
    by (intro card_mono) auto
  also have "\<dots> < card (?A n)"
    using n by (intro card_Diff1_less) (auto intro: ccontr)
  finally show ?thesis
    by (simp add: doublings_def card_image)
qed


lemma append_measure_decreases:
  assumes "output_resize al b (write_into_offset b + of_nat (length s) + 1) = Inr b'"
    and "int (length s) \<le> INT_MAX" and "\<not> (of_nat (length s) :: size_t) \<le> ob_length b - write_into_offset b"
    and "append_measure b0 s = append_measure b s"
  shows "append_measure b' s < append_measure b0 s"
proof -
  let ?w = "of_nat (length s) :: size_t"
  have w: "?w \<le> ?w + 1"
    using assms(2) by (simp add: word_le_nat_alt INT_MAX_def unat_word_ariths unat_of_nat take_bit_eq_mod)
  from assms(1) consider
      "ob_length b' = write_into_offset b + ?w + 1" "write_into_offset b' = write_into_offset b"
    | "ob_length b' = push_bit 1 (ob_length b)" "push_bit 1 (ob_length b) > write_into_offset b + ?w + 1"
    by (auto simp: output_resize_def Let_def res_simps split: if_splits)
  then show ?thesis
  proof cases
    case 1
    with w assms(3,4) show ?thesis by (simp add: append_measure_def)
  next
    case 2
    then have "push_bit 1 (ob_length b) \<noteq> 0" by auto
    from doublings_shift [OF this] 2 assms(3,4) show ?thesis
      by (simp add: append_measure_def)
  qed
qed

function output_buffer_append ::
  "allocator \<Rightarrow> OutputBuffer \<Rightarrow> byte list \<Rightarrow> OutputBuffer res" where
  "output_buffer_append al b s =
     (let max_to_write = ob_length b - write_into_offset b
      in bind_res (vsnprintf (ob_buffer b) (unat (write_into_offset b)) max_to_write s)
           (\<lambda>(written, m).
              bind_res (CHECK (written < 0) ''Failed to construct output buffer'') (\<lambda>_.
                if (of_int written :: size_t) > max_to_write then
                  bind_res (output_resize al (b\<lparr>ob_buffer := m\<rparr>)
                              (write_into_offset b + of_int written + 1))
                    (\<lambda>b'. output_buffer_append al b' s)
                else Inr (b\<lparr>ob_buffer := m,
                            write_into_offset := write_into_offset b + of_int written\<rparr>))))"
  by pat_completeness auto
termination
proof (relation "measure (\<lambda>(al, b, s). append_measure b s)", goal_cases)
  case (2 al b s mx z w m u b')
  then have w: "w = int (length s)" "int (length s) \<le> INT_MAX"
    by (auto simp: vsnprintf_def CHECK_def res_simps split: if_splits)
  then show ?case
    using append_measure_decreases [of al "b\<lparr>ob_buffer := m\<rparr>" s b' b] 2
    by (simp add: append_measure_def)
qed simp

declare output_buffer_append.simps [simp del]


section \<open>Invariant and abstraction\<close>

definition ob_wf :: "OutputBuffer \<Rightarrow> bool" where
  "ob_wf b \<longleftrightarrow> length (ob_buffer b) = unat (ob_length b) \<and>
     write_from_offset b \<le> write_into_offset b \<and> write_into_offset b \<le> ob_length b \<and>
     unat (ob_length b) < 2 ^ 63"

definition ob_contents :: "OutputBuffer \<Rightarrow> byte list" where
  "ob_contents b = take (unat (write_into_offset b)) (ob_buffer b)"

definition ob_pending :: "OutputBuffer \<Rightarrow> byte list" where
  "ob_pending b = drop (unat (write_from_offset b)) (ob_contents b)"

definition ob_free :: "OutputBuffer \<Rightarrow> nat" where
  "ob_free b = unat (ob_length b) - unat (write_into_offset b)"

text \<open>
  What one call of \<^verbatim>\<open>output_buffer_append\<close> adds: the text, except that a text which
  exactly fills the free space loses its last byte to the terminating NUL.
\<close>

definition appended :: "OutputBuffer \<Rightarrow> byte list \<Rightarrow> byte list" where
  "appended b s = (if s \<noteq> [] \<and> length s = ob_free b then butlast s @ [0] else s)"

declare ob_wf_def [wf_defs]

lemma ob_wf_nat:
  "ob_wf b \<longleftrightarrow> length (ob_buffer b) = unat (ob_length b) \<and>
     unat (write_from_offset b) \<le> unat (write_into_offset b) \<and>
     unat (write_into_offset b) \<le> unat (ob_length b) \<and> unat (ob_length b) < 2 ^ 63"
  by (simp add: ob_wf_def word_le_nat_alt)

lemma unat_ob_free: "ob_wf b \<Longrightarrow> unat (ob_length b - write_into_offset b) = ob_free b"
  by (simp add: ob_wf_def ob_free_def unat_diff_no_wrap)

lemma length_ob_contents: "ob_wf b \<Longrightarrow> length (ob_contents b) = unat (write_into_offset b)"
  by (simp add: ob_contents_def ob_wf_nat)

lemma vsnprintf_fits:
  assumes wf: "ob_wf b" and s: "length s \<le> ob_free b" "int (length s) \<le> INT_MAX"
  shows "\<exists>m. vsnprintf (ob_buffer b) (unat (write_into_offset b))
               (ob_length b - write_into_offset b) s = Inr (int (length s), m) \<and>
     length m = length (ob_buffer b) \<and>
     take (unat (write_into_offset b) + length s) m = ob_contents b @ appended b s"
proof (cases "ob_free b = 0")
  case True
  with assms show ?thesis
    by (auto simp: vsnprintf_def unat_ob_free ob_contents_def appended_def
             simp flip: unat_eq_0)
next
  case False
  let ?i = "unat (write_into_offset b)"
  let ?t = "take (ob_free b - 1) s @ [0]"
  have room: "?i + ob_free b = unat (ob_length b)" "length (ob_buffer b) = unat (ob_length b)"
    using wf by (auto simp: ob_wf_nat ob_free_def)
  have len: "length ?t \<le> ob_free b" "length s \<le> length ?t"
    using False s(1) by auto
  have "take (length s) ?t = appended b s"
    using False s(1) by (cases "length s = ob_free b") (auto simp: appended_def butlast_conv_take)
  moreover have "?i \<le> length (ob_buffer b)" using room by simp
  ultimately have "take (?i + length s) (overwrite (ob_buffer b) ?i ?t) = ob_contents b @ appended b s"
    using len(2) by (subst take_overwrite_prefix) (simp_all only: ob_contents_def)
  moreover have "mem_store (ob_buffer b) ?i ?t = Inr (overwrite (ob_buffer b) ?i ?t)"
    "length (overwrite (ob_buffer b) ?i ?t) = length (ob_buffer b)"
    using room len(1) by (simp_all add: mem_store_def)
  moreover have "ob_length b - write_into_offset b \<noteq> 0"
    using False unat_ob_free [OF wf] by auto
  ultimately show ?thesis
    using s(2) by (simp add: vsnprintf_def unat_ob_free [OF wf])
qed

lemma append_fits:
  assumes wf: "ob_wf b" and s: "length s \<le> ob_free b" "int (length s) \<le> INT_MAX"
  shows "\<exists>b'. output_buffer_append al b s = Inr b' \<and> ob_wf b' \<and>
     ob_contents b' = ob_contents b @ appended b s \<and>
     write_from_offset b' = write_from_offset b \<and> ob_resize_count b' = ob_resize_count b \<and>
     ob_length b' = ob_length b"
proof -
  obtain m where m: "vsnprintf (ob_buffer b) (unat (write_into_offset b))
      (ob_length b - write_into_offset b) s = Inr (int (length s), m)"
    "length m = length (ob_buffer b)"
    "take (unat (write_into_offset b) + length s) m = ob_contents b @ appended b s"
    using vsnprintf_fits [OF assms] by blast
  have into: "unat (write_into_offset b) + length s \<le> unat (ob_length b)"
    using wf s(1) by (auto simp: ob_wf_nat ob_free_def)
  then have off: "unat (write_into_offset b + of_nat (length s)) = unat (write_into_offset b) + length s"
    using le_less_trans [OF into unat_less_size] by (intro unat_add_of_nat) simp
  have "\<not> of_nat (length s) > ob_length b - write_into_offset b"
    using s unat_ob_free [OF wf] by (simp add: word_less_nat_alt INT_MAX_def)
  with m show ?thesis
    using wf into off
    by (auto simp: output_buffer_append.simps [of al b] ob_wf_nat ob_contents_def)
qed


lemma vsnprintf_large:
  assumes wf: "ob_wf b" and s: "ob_free b < length s" "int (length s) \<le> INT_MAX"
  shows "\<exists>m. vsnprintf (ob_buffer b) (unat (write_into_offset b))
               (ob_length b - write_into_offset b) s = Inr (int (length s), m) \<and>
     length m = length (ob_buffer b) \<and>
     take (unat (write_into_offset b)) m = ob_contents b"
proof -
  have "unat (write_into_offset b) + ob_free b = length (ob_buffer b)"
    using wf by (auto simp: ob_wf_nat ob_free_def)
  then have "mem_store (ob_buffer b) (unat (write_into_offset b)) (take (ob_free b - 1) s @ [0]) =
      Inr (overwrite (ob_buffer b) (unat (write_into_offset b)) (take (ob_free b - 1) s @ [0]))
    \<and> length (overwrite (ob_buffer b) (unat (write_into_offset b)) (take (ob_free b - 1) s @ [0]))
      = length (ob_buffer b)" if "ob_free b \<noteq> 0"
    using that s(1) by (simp add: mem_store_def)
  moreover have "ob_length b - write_into_offset b = 0 \<longleftrightarrow> ob_free b = 0"
    by (simp add: unat_ob_free [OF wf, symmetric] unat_eq_0)
  ultimately show ?thesis
    using assms by (auto simp: vsnprintf_def unat_ob_free ob_contents_def ob_wf_nat)
qed

lemma output_resize_wf:
  assumes wf: "ob_wf b" and min: "unat (ob_length b) < unat min_size"
    and rs: "output_resize al b min_size = Inr b'"
  shows "ob_wf b' \<and> ob_contents b' = ob_contents b \<and> unat min_size \<le> unat (ob_length b') \<and>
     write_from_offset b' = write_from_offset b \<and> write_into_offset b' = write_into_offset b \<and>
     ob_resize_count b' = ob_resize_count b + 1"
proof -
  define n where "n = (if push_bit 1 (ob_length b) > min_size then push_bit 1 (ob_length b) else min_size)"
  from rs obtain m where m: "realloc al (ob_buffer b) n = Some m"
    and b': "b' = b\<lparr>ob_length := n, ob_buffer := m, ob_resize_count := ob_resize_count b + 1\<rparr>"
    by (auto simp: output_resize_def Let_def res_simps n_def)
  have n: "unat min_size \<le> unat n"
    by (auto simp: n_def word_less_nat_alt)
  have "take (unat (write_into_offset b)) m = take (unat (write_into_offset b)) (ob_buffer b)"
    using wf min n by (intro take_realloc [OF m]) (auto simp: ob_wf_nat)
  moreover have "unat n < 2 ^ 63" using m by (simp add: realloc_eq_Some)
  ultimately show ?thesis
    using wf min n b' length_realloc [OF m] by (auto simp: ob_wf_nat ob_contents_def)
qed

lemma append_grows:
  assumes wf: "ob_wf b" and s: "ob_free b < length s" "int (length s) \<le> INT_MAX"
  shows "\<exists>b1 rq. ob_wf b1 \<and> ob_length b1 = ob_length b \<and>
     unat rq = unat (write_into_offset b) + length s + 1 \<and>
     output_buffer_append al b s =
       bind_res (output_resize al b1 rq) (\<lambda>b'. output_buffer_append al b' s) \<and>
     (\<forall>b2. output_resize al b1 rq = Inr b2 \<longrightarrow>
        ob_wf b2 \<and> ob_contents b2 = ob_contents b \<and> length s < ob_free b2 \<and>
        write_from_offset b2 = write_from_offset b \<and> ob_resize_count b2 = ob_resize_count b + 1)"
proof -
  obtain m where m: "vsnprintf (ob_buffer b) (unat (write_into_offset b))
      (ob_length b - write_into_offset b) s = Inr (int (length s), m)"
    "length m = length (ob_buffer b)" "take (unat (write_into_offset b)) m = ob_contents b"
    using vsnprintf_large [OF assms] by blast
  let ?b = "b\<lparr>ob_buffer := m\<rparr>" and ?rq = "write_into_offset b + of_nat (length s) + 1"
  have b1: "ob_wf ?b" "ob_contents ?b = ob_contents b"
    using m wf by (simp_all add: ob_wf_nat ob_contents_def)
  have over: "of_nat (length s) > ob_length b - write_into_offset b"
    using s unat_ob_free [OF wf] by (simp add: word_less_nat_alt INT_MAX_def)
  have "unat (write_into_offset b) < 2 ^ 63" using wf by (simp add: ob_wf_nat)
  then have "unat (write_into_offset b + of_nat (Suc (length s))) = unat (write_into_offset b) + Suc (length s)"
    using s(2) by (intro unat_add_of_nat) (simp add: INT_MAX_def)
  then have rq: "unat ?rq = unat (write_into_offset b) + length s + 1"
    by (simp add: ac_simps)
  have len: "unat (ob_length ?b) < unat ?rq"
    using s(1) rq wf by (simp add: ob_free_def ob_wf_nat)
  have "length s < ob_free b2" if "output_resize al ?b ?rq = Inr b2" for b2
    using output_resize_wf [OF b1(1) len that] rq by (auto simp: ob_free_def)
  with output_resize_wf [OF b1(1) len] b1 rq m(1) over show ?thesis
    by (intro exI [of _ ?b] exI [of _ ?rq]) (simp add: output_buffer_append.simps [of al b])
qed

lemma output_buffer_append_result:
  assumes wf: "ob_wf b" and s: "int (length s) \<le> INT_MAX" and ap: "output_buffer_append al b s = Inr b'"
  shows "ob_wf b' \<and> ob_contents b' = ob_contents b @ appended b s \<and>
     write_from_offset b' = write_from_offset b \<and>
     ob_resize_count b' = ob_resize_count b + (if length s \<le> ob_free b then 0 else 1)"
proof (cases "length s \<le> ob_free b")
  case True
  with append_fits [OF wf True s, of al] ap show ?thesis by auto
next
  case False
  then have "ob_free b < length s" by simp
  from append_grows [OF wf this s, of al] ap obtain b2 where
    b2: "ob_wf b2" "ob_contents b2 = ob_contents b" "length s < ob_free b2"
      "write_from_offset b2 = write_from_offset b" "ob_resize_count b2 = ob_resize_count b + 1"
    and ap2: "output_buffer_append al b2 s = Inr b'"
    by (auto simp: res_simps)
  then show ?thesis
    using append_fits [of b2 s al] s False by (auto simp: appended_def)
qed

lemma output_resize_fault: "output_resize al b n = Inl e \<Longrightarrow> e = OOM"
  by (auto simp: output_resize_def Let_def res_simps)

lemma output_resize_returns:
  assumes "ob_wf b" and "\<And>n. al n \<noteq> None" and "0 < unat n" and "unat n < 2 ^ 63"
    and "unat (ob_length b) < 2 ^ 62"
  shows "\<exists>b'. output_resize al b n = Inr b'"
proof -
  define k where "k = (if push_bit 1 (ob_length b) > n then push_bit 1 (ob_length b) else n)"
  have "0 < unat k" "unat k < 2 ^ 63"
    using assms(3-5) unat_shift1 [of "ob_length b"] by (auto simp: k_def word_less_nat_alt)
  moreover obtain g where "al k = Some g" using assms(2) by fastforce
  ultimately show ?thesis
    by (auto simp: output_resize_def Let_def res_simps realloc_eq_Some k_def)
qed

lemma output_buffer_append_fault_aux:
  assumes wf: "ob_wf b" and ap: "output_buffer_append al b s = Inl e"
  shows "e = OOM \<or> int (length s) > INT_MAX \<and> e = Exit_Failure ''Failed to construct output buffer''"
proof (cases "int (length s) \<le> INT_MAX")
  case False
  with ap show ?thesis
    by (simp add: output_buffer_append.simps [of al b] vsnprintf_def)
next
  case s: True
  show ?thesis
  proof (cases "length s \<le> ob_free b")
    case True
    with append_fits [OF wf True s, of al] ap show ?thesis by auto
  next
    case False
    then have "ob_free b < length s" by simp
    from append_grows [OF wf this s, of al] ap obtain b1 rq where
      "output_resize al b1 rq = Inl e \<or>
       (\<exists>b2. ob_wf b2 \<and> length s < ob_free b2 \<and> output_buffer_append al b2 s = Inl e)"
      by (auto simp: res_simps)
    then show ?thesis
      using s by (auto dest: output_resize_fault append_fits [OF _ less_imp_le, where al = al])
  qed
qed

lemma output_buffer_append_returns_aux:
  assumes wf: "ob_wf b" and al: "\<And>n. al n \<noteq> None" and s: "int (length s) \<le> INT_MAX"
    and len: "unat (ob_length b) < 2 ^ 62"
  shows "\<exists>b'. output_buffer_append al b s = Inr b'"
proof (cases "length s \<le> ob_free b")
  case True
  with append_fits [OF wf True s, of al] show ?thesis by auto
next
  case False
  then have "ob_free b < length s" by simp
  from append_grows [OF wf this s, of al] obtain b1 rq where
    b1: "ob_wf b1" "ob_length b1 = ob_length b" "unat rq = unat (write_into_offset b) + length s + 1"
    and eq: "output_buffer_append al b s =
       bind_res (output_resize al b1 rq) (\<lambda>b'. output_buffer_append al b' s)"
    and b2: "\<And>b2. output_resize al b1 rq = Inr b2 \<Longrightarrow> ob_wf b2 \<and> length s < ob_free b2"
    by blast
  have "unat (write_into_offset b) \<le> unat (ob_length b)" using wf by (simp add: ob_wf_nat)
  then have "0 < unat rq" "unat rq < 2 ^ 63"
    using b1(3) len s by (simp_all add: INT_MAX_def)
  then obtain b' where "output_resize al b1 rq = Inr b'"
    using output_resize_returns [OF b1(1) al] len b1(2) by fastforce
  with append_fits [of b' s al] s eq b2 show ?thesis by auto
qed

lemma output_buffer_init_wf:
  "output_buffer_init al n = Inr b \<Longrightarrow> ob_wf b \<and> ob_contents b = [] \<and> ob_pending b = []"
  by (auto simp: output_buffer_init_def res_simps ob_wf_def ob_contents_def ob_pending_def)

lemma output_buffer_reset_wf:
  "ob_wf b \<Longrightarrow> ob_wf (output_buffer_reset b) \<and> ob_contents (output_buffer_reset b) = [] \<and>
     ob_pending (output_buffer_reset b) = []"
  by (auto simp: output_buffer_reset_def ob_wf_def ob_contents_def ob_pending_def)

section \<open>Resumable writes\<close>

text \<open>
  The contract of a non-blocking write that keeps its place: a call moves bytes from what
  is pending to what was sent and loses none, and it reports WRITE_FINISH exactly when
  nothing is left. \<open>write_calls\<close> is the event loop's view: one call per readiness event,
  each with the kernel's own answers, until a call does not report WRITE_BUSY.
\<close>

fun write_calls ::
  "('w \<Rightarrow> socket \<Rightarrow> (WriteState \<times> 'w \<times> socket) res) \<Rightarrow> 'w \<Rightarrow> socket \<Rightarrow> tx_event list list \<Rightarrow>
     (WriteState \<times> 'w \<times> socket) res" where
  "write_calls wr w s [] = Inr (WRITE_BUSY, w, s)"
| "write_calls wr w s (ts # tss) =
     bind_res (wr w (s\<lparr>tx := ts\<rparr>)) (\<lambda>(st, w', s').
       if st = WRITE_BUSY then write_calls wr w' s' tss else Inr (st, w', s'))"

locale resumable_writer =
  fixes wr :: "'w \<Rightarrow> socket \<Rightarrow> (WriteState \<times> 'w \<times> socket) res"
    and pend :: "'w \<Rightarrow> byte list"
    and inv :: "'w \<Rightarrow> bool"
  assumes total: "inv w \<Longrightarrow> \<exists>st w' s'. wr w s = Inr (st, w', s')"
    and keeps_inv: "\<lbrakk>inv w; wr w s = Inr (st, w', s')\<rbrakk> \<Longrightarrow> inv w'"
    and conserves: "\<lbrakk>inv w; wr w s = Inr (st, w', s')\<rbrakk> \<Longrightarrow> sent s' @ pend w' = sent s @ pend w"
    and finish: "\<lbrakk>inv w; pend w \<noteq> []; wr w s = Inr (st, w', s')\<rbrakk> \<Longrightarrow>
       st = WRITE_FINISH \<longleftrightarrow> pend w' = []"
begin

lemma calls_deliver:
  "\<lbrakk>inv w; pend w \<noteq> []; write_calls wr w s tss = Inr (st, w', s')\<rbrakk> \<Longrightarrow>
     inv w' \<and> sent s' @ pend w' = sent s @ pend w \<and> (st = WRITE_FINISH \<longleftrightarrow> pend w' = [])"
proof (induction tss arbitrary: w s)
  case Nil
  then show ?case by auto
next
  case (Cons ts tss)
  obtain st1 w1 s1 where wr: "wr w (s\<lparr>tx := ts\<rparr>) = Inr (st1, w1, s1)"
    using total [OF Cons.prems(1)] by blast
  note facts = keeps_inv [OF Cons.prems(1) wr] conserves [OF Cons.prems(1) wr]
    finish [OF Cons.prems(1,2) wr]
  show ?case
    using Cons.IH [of w1 s1] Cons.prems(3) wr facts by (auto split: if_splits)
qed

lemma calls_total: "inv w \<Longrightarrow> \<exists>st w' s'. write_calls wr w s tss = Inr (st, w', s')"
proof (induction tss arbitrary: w s)
  case (Cons ts tss)
  obtain st1 w1 s1 where wr: "wr w (s\<lparr>tx := ts\<rparr>) = Inr (st1, w1, s1)"
    using total [OF Cons.prems(1)] by blast
  then show ?case
    using Cons.IH [OF keeps_inv [OF Cons.prems wr]] by simp
qed simp

end


lemma ob_pending_eq:
  "ob_wf b \<Longrightarrow> ob_pending b =
     take (unat (write_into_offset b - write_from_offset b)) (drop (unat (write_from_offset b)) (ob_buffer b))"
  by (simp add: ob_pending_def ob_contents_def ob_wf_def unat_diff_no_wrap drop_take)

lemma length_ob_pending:
  "ob_wf b \<Longrightarrow> length (ob_pending b) = unat (write_into_offset b) - unat (write_from_offset b)"
  by (simp add: ob_pending_def length_ob_contents)

lemma ob_pending_Nil: "ob_wf b \<Longrightarrow> ob_pending b = [] \<longleftrightarrow> \<not> write_from_offset b < write_into_offset b"
  using length_ob_pending [of b] by (auto simp: word_less_nat_alt)

lemma ob_load_pending:
  "ob_wf b \<Longrightarrow> mem_load (ob_buffer b) (unat (write_from_offset b))
     (unat (write_into_offset b - write_from_offset b)) = Inr (ob_pending b)"
  by (subst ob_pending_eq) (auto simp: mem_load_def ob_wf_def unat_diff_no_wrap word_le_nat_alt)

lemma ob_advance:
  assumes wf: "ob_wf b" and n: "n \<le> length (ob_pending b)"
  defines "b' \<equiv> b\<lparr>write_from_offset := write_from_offset b + of_nat n\<rparr>"
  shows "ob_wf b'" and "ob_pending b' = drop n (ob_pending b)" and "ob_contents b' = ob_contents b"
proof -
  have "unat (write_from_offset b) + n \<le> unat (write_into_offset b)"
    using n wf by (auto simp: length_ob_pending [OF wf] ob_wf_nat)
  moreover from this have "unat (write_from_offset b + of_nat n) = unat (write_from_offset b) + n"
    using le_less_trans [OF _ unat_less_size] by (intro unat_add_of_nat) simp
  ultimately show "ob_wf b'" "ob_pending b' = drop n (ob_pending b)" "ob_contents b' = ob_contents b"
    using wf by (simp_all add: b'_def ob_wf_nat ob_pending_def ob_contents_def ac_simps)
qed

text \<open>The write loop: no fault, no byte lost or repeated, FINISH exactly at the end.\<close>

lemma output_buffer_write_to_result:
  "ob_wf b \<Longrightarrow> \<exists>st b' s'. output_buffer_write_to b s = Inr (st, b', s') \<and> ob_wf b' \<and>
     sent s' @ ob_pending b' = sent s @ ob_pending b \<and> ob_contents b' = ob_contents b \<and>
     rx s' = rx s \<and> (st = WRITE_FINISH \<longleftrightarrow> ob_pending b' = [])"
proof (induction b s rule: output_buffer_write_to.induct)
  case (1 b s)
  show ?case
  proof (cases "write_from_offset b < write_into_offset b")
    case False
    with "1.prems" show ?thesis
      by (simp add: output_buffer_write_to.simps [of b] ob_pending_Nil)
  next
    case True
    note load = ob_load_pending [OF "1.prems"]
    have ne: "ob_pending b \<noteq> []" using True "1.prems" by (simp add: ob_pending_Nil)
    obtain r s1 where wr: "sys_write (ob_pending b) s = (r, s1)" by fastforce
    show ?thesis
    proof (cases "\<exists>n. r = Wrote (Suc n)")
      case False
      then have "sent s1 = sent s \<and> rx s1 = rx s"
        using sys_write_other [OF wr] sys_write_wrote [of "ob_pending b" s 0 s1] wr
        by (metis append_Nil2 nat.exhaust take0 write_ret.exhaust)
      with False "1.prems" True load ne wr show ?thesis
        by (auto simp: output_buffer_write_to.simps [of b] split: write_ret.splits nat.splits)
    next
      case True
      then obtain n where r: "r = Wrote (Suc n)" by blast
      note w = sys_write_wrote [OF wr [unfolded r]]
      have n: "Suc n \<le> length (ob_pending b)" using w by simp
      note adv = ob_advance [OF "1.prems" n]
      show ?thesis
        using "1.IH" [OF \<open>write_from_offset b < write_into_offset b\<close> load wr [symmetric] r refl adv(1)]
          adv w wr r load \<open>write_from_offset b < write_into_offset b\<close>
        by (simp add: output_buffer_write_to.simps [of b])
    qed
  qed
qed

lemma output_buffer_write_toD:
  assumes "ob_wf b" and "output_buffer_write_to b s = Inr (st, b', s')"
  shows "ob_wf b'" and "sent s' @ ob_pending b' = sent s @ ob_pending b"
    and "ob_contents b' = ob_contents b" and "rx s' = rx s"
    and "st = WRITE_FINISH \<longleftrightarrow> ob_pending b' = []"
  using output_buffer_write_to_result [OF assms(1), of s] assms(2) by auto

interpretation out: resumable_writer output_buffer_write_to ob_pending ob_wf
proof unfold_locales
  show "ob_wf w \<Longrightarrow> \<exists>st w' s'. output_buffer_write_to w s = Inr (st, w', s')" for w s
    using output_buffer_write_to_result [of w s] by blast
qed (rule output_buffer_write_toD; assumption)+

section \<open>Properties\<close>

definition ob_ex :: OutputBuffer where
  "ob_ex = \<lparr>ob_buffer = [1, 2, 0, 0], ob_length = 4, write_from_offset = 0, write_into_offset = 2,
     ob_resize_count = 0\<rparr>"

lemma ob_ex_wf: "ob_wf ob_ex"
  by (simp add: ob_wf_def ob_ex_def)

lemma append_ex:
  "output_buffer_append (\<lambda>_. Some (\<lambda>_. 0)) ob_ex [3, 4, 5] =
     Inr \<lparr>ob_buffer = [1, 2, 3, 4, 5, 0, 0, 0], ob_length = 8, write_from_offset = 0,
          write_into_offset = 5, ob_resize_count = 1\<rparr>"
  unfolding ob_ex_def by code_simp



text \<open>
  Property C17: when the text exactly fills the free space, \<^verbatim>\<open>vsnprintf\<close> has overwritten its
  last byte with the terminating NUL, and the test \<^verbatim>\<open>written > max_to_write\<close> (not
  \<^verbatim>\<open>>=\<close>) takes that for success: the buffer then holds the text with its last byte lost.
\<close>

theorem output_buffer_append_exact_fit:
  assumes "ob_wf b" and "s \<noteq> []" and "length s = ob_free b" and "int (length s) \<le> INT_MAX"
  shows "\<exists>b'. output_buffer_append al b s = Inr b' \<and>
     ob_contents b' = ob_contents b @ butlast s @ [0] \<and> ob_resize_count b' = ob_resize_count b"
  using append_fits [of b s al] assms by (auto simp: appended_def)

theorem output_buffer_append_exact_fit_witness:
  "ob_wf ob_ex \<and>
   (\<exists>b'. output_buffer_append (\<lambda>_. None) ob_ex [3, 4] = Inr b' \<and> ob_contents b' = [1, 2, 3, 0])"
  using output_buffer_append_exact_fit [OF ob_ex_wf, of "[3, 4]" "\<lambda>_. None"] ob_ex_wf
  by (auto simp: ob_ex_def ob_free_def INT_MAX_def ob_contents_def)



text \<open>
  Property C10: however the kernel cuts the writes up over any number of readiness events,
  the bytes on the wire followed by the bytes still pending are always the bytes sent
  before followed by those that were pending, and the last call reports WRITE_FINISH
  exactly when all of them are out.
\<close>

theorem output_buffer_delivery:
  assumes "ob_wf b" and "ob_pending b \<noteq> []"
    and "write_calls output_buffer_write_to b s tss = Inr (st, b', s')"
  shows "ob_wf b' \<and> sent s' @ ob_pending b' = sent s @ ob_pending b \<and>
     (st = WRITE_FINISH \<longleftrightarrow> sent s' = sent s @ ob_pending b)"
  using out.calls_deliver [OF assms] by auto

theorem output_buffer_delivery_witness:
  "ob_wf ob_ex \<and> ob_pending ob_ex = [1, 2] \<and>
   (\<exists>b' s'. write_calls output_buffer_write_to ob_ex \<lparr>rx = [], tx = [], sent = []\<rparr>
      [[Tx_Accept 0, Tx_Block], [Tx_Accept 5]] = Inr (WRITE_FINISH, b', s') \<and> sent s' = [1, 2])"
proof -
  let ?s = "\<lparr>rx = [], tx = [], sent = []\<rparr>"
  have run: "write_calls output_buffer_write_to ob_ex ?s [[Tx_Accept 0, Tx_Block], [Tx_Accept 5]] =
      Inr (WRITE_FINISH, ob_ex\<lparr>write_from_offset := 2\<rparr>, ?s\<lparr>sent := [1, 2]\<rparr>)"
    unfolding ob_ex_def by code_simp
  have pend: "ob_pending ob_ex = [1, 2]"
    by (simp add: ob_pending_def ob_contents_def ob_ex_def)
  show ?thesis
    using output_buffer_delivery [OF ob_ex_wf _ run] run pend ob_ex_wf by simp
qed

end
