(* ===== verification/Message_Passing.thy ===== *)
theory Message_Passing
  imports Input_Buffer Output_Buffer
begin

text \<open>
  src/message_passing.h and src/message_passing.c: a pointer sent through a socket as its
  eight bytes, with blocking and resumable non-blocking transfers. A message is the second
  instance of \<open>resumable_writer\<close>.
\<close>

section \<open>Data and operations\<close>

abbreviation SIZEOF_SIZE_T :: size_t where
  "SIZEOF_SIZE_T \<equiv> 8"

record Message =
  msg_buffer :: "byte list"
  msg_offset :: size_t

definition message_init :: "pointer \<Rightarrow> Message" where
  "message_init ptr = \<lparr>msg_buffer = le_bytes 8 ptr, msg_offset = 0\<rparr>"

definition message_reset :: "Message \<Rightarrow> Message" where
  "message_reset m = m\<lparr>msg_offset := 0\<rparr>"

definition message_get_payload :: "Message \<Rightarrow> pointer res" where
  "message_get_payload m =
     (if msg_offset m = SIZEOF_SIZE_T then Inr (le_value (take 8 (msg_buffer m)))
      else Inl Assert_Failed)"

text \<open>
  On a blocking descriptor an exhausted script means that the call never returns. A peer
  that has shut down makes \<^verbatim>\<open>read\<close> return 0 from then on, and the loop of
  \<^verbatim>\<open>message_read_sync\<close> spins on it.
\<close>

function message_write_sync :: "Message \<Rightarrow> socket \<Rightarrow> (Message \<times> socket) res" where
  "message_write_sync m s =
     bind_res (mem_load (msg_buffer m) (unat (msg_offset m)) (unat (SIZEOF_SIZE_T - msg_offset m)))
       (\<lambda>bs.
          if tx s = [] then Inl Blocks_Forever
          else case sys_write bs s of
            (Wrote n, s') \<Rightarrow>
              (let m' = m\<lparr>msg_offset := msg_offset m + of_nat n\<rparr>
               in if msg_offset m' < SIZEOF_SIZE_T then message_write_sync m' s' else Inr (m', s'))
          | (r, s') \<Rightarrow>
              (if msg_offset m < SIZEOF_SIZE_T then message_write_sync m s' else Inr (m, s')))"
  by pat_completeness auto
termination
  by (relation "measure (\<lambda>(m, s). length (tx s))")
     (auto simp: sys_write.simps Let_def split: list.splits tx_event.splits)

declare message_write_sync.simps [simp del]

function message_read_sync :: "Message \<Rightarrow> socket \<Rightarrow> (Message \<times> socket) res" where
  "message_read_sync m s =
     (if rx s = [] then Inl Blocks_Forever
      else case sys_read (unat (SIZEOF_SIZE_T - msg_offset m)) s of
        (Read_Bytes [], s') \<Rightarrow>
          (if msg_offset m < SIZEOF_SIZE_T then Inl Blocks_Forever else Inr (m, s'))
      | (Read_Bytes (x # xs), s') \<Rightarrow>
          bind_res (mem_store (msg_buffer m) (unat (msg_offset m)) (x # xs)) (\<lambda>buf.
            let m' = m\<lparr>msg_buffer := buf, msg_offset := msg_offset m + of_nat (length (x # xs))\<rparr>
            in if msg_offset m' < SIZEOF_SIZE_T then message_read_sync m' s' else Inr (m', s'))
      | (r, s') \<Rightarrow>
          (if msg_offset m < SIZEOF_SIZE_T then message_read_sync m s' else Inr (m, s')))"
  by pat_completeness auto
termination
proof (relation "measure (\<lambda>(m, s). rx_size (rx s))", goal_cases)
  case 2
  then show ?case by (auto intro: sys_read_decreases [OF sym])
qed (auto simp: sys_read_def split: prod.splits if_splits elim!: rx_read.elims)

declare message_read_sync.simps [simp del]

function write_async ::
  "byte list \<Rightarrow> size_t \<Rightarrow> size_t \<Rightarrow> socket \<Rightarrow> (WriteState \<times> size_t \<times> socket) res" where
  "write_async buffer buffer_len offset s =
     bind_res (mem_load buffer (unat offset) (unat (buffer_len - offset))) (\<lambda>bs.
       case sys_write bs s of
         (Write_Again, s') \<Rightarrow> Inr (WRITE_BUSY, offset, s')
       | (Write_Fail, s') \<Rightarrow> Inr (WRITE_ERROR, offset, s')
       | (Wrote 0, s') \<Rightarrow> Inr (WRITE_ERROR, offset, s')
       | (Wrote (Suc n), s') \<Rightarrow>
           (let offset' = offset + of_nat (Suc n)
            in if offset' < buffer_len then write_async buffer buffer_len offset' s'
               else Inr (WRITE_FINISH, offset', s')))"
  by pat_completeness auto
termination
  by (relation "measure (\<lambda>(b, l, n, s). length (tx s))") (auto intro: sys_write_decreases [OF sym])

declare write_async.simps [simp del]

text \<open>The loop condition of \<^verbatim>\<open>read_async\<close> is \<^verbatim>\<open>sizeof(size_t)\<close>, not \<open>buffer_len\<close>.\<close>

function read_async ::
  "byte list \<Rightarrow> size_t \<Rightarrow> size_t \<Rightarrow> socket \<Rightarrow> (ReadState \<times> byte list \<times> size_t \<times> socket) res" where
  "read_async buffer buffer_len offset s =
     (case sys_read (unat (buffer_len - offset)) s of
        (Read_Again, s') \<Rightarrow> Inr (READ_BUSY, buffer, offset, s')
      | (Read_Fail, s') \<Rightarrow> Inr (READ_ERROR, buffer, offset, s')
      | (Read_Bytes [], s') \<Rightarrow> Inr (READ_ERROR, buffer, offset, s')
      | (Read_Bytes (x # xs), s') \<Rightarrow>
          bind_res (mem_store buffer (unat offset) (x # xs)) (\<lambda>buffer'.
            let offset' = offset + of_nat (length (x # xs))
            in if offset' < SIZEOF_SIZE_T then read_async buffer' buffer_len offset' s'
               else Inr (READ_FINISH, buffer', offset', s')))"
  by pat_completeness auto
termination
  by (relation "measure (\<lambda>(b, l, n, s). rx_size (rx s))") (auto intro: sys_read_decreases [OF sym])

declare read_async.simps [simp del]

definition message_write_async :: "Message \<Rightarrow> socket \<Rightarrow> (WriteState \<times> Message \<times> socket) res" where
  "message_write_async m s =
     bind_res (write_async (msg_buffer m) SIZEOF_SIZE_T (msg_offset m) s)
       (\<lambda>(st, offset, s'). Inr (st, m\<lparr>msg_offset := offset\<rparr>, s'))"

definition message_read_async :: "Message \<Rightarrow> socket \<Rightarrow> (ReadState \<times> Message \<times> socket) res" where
  "message_read_async m s =
     bind_res (read_async (msg_buffer m) SIZEOF_SIZE_T (msg_offset m) s)
       (\<lambda>(st, buffer, offset, s'). Inr (st, m\<lparr>msg_buffer := buffer, msg_offset := offset\<rparr>, s'))"


section \<open>Non-blocking transfers\<close>

definition msg_wf :: "Message \<Rightarrow> bool" where
  "msg_wf m \<longleftrightarrow> length (msg_buffer m) = 8 \<and> msg_offset m \<le> SIZEOF_SIZE_T"

definition msg_pending :: "Message \<Rightarrow> byte list" where
  "msg_pending m = drop (unat (msg_offset m)) (msg_buffer m)"

definition msg_received :: "Message \<Rightarrow> byte list" where
  "msg_received m = take (unat (msg_offset m)) (msg_buffer m)"

declare msg_wf_def [wf_defs]

lemma msg_wf_nat: "msg_wf m \<longleftrightarrow> length (msg_buffer m) = 8 \<and> unat (msg_offset m) \<le> 8"
  by (simp add: msg_wf_def word_le_nat_alt)

lemma message_init_wf: "msg_wf (message_init p) \<and> msg_pending (message_init p) = le_bytes 8 p"
  by (simp add: message_init_def msg_wf_def msg_pending_def)

lemma write_async_result:
  "\<lbrakk>length buf = unat len; off \<le> len\<rbrakk> \<Longrightarrow>
     \<exists>st off' s'. write_async buf len off s = Inr (st, off', s') \<and> off' \<le> len \<and>
       sent s' @ drop (unat off') buf = sent s @ drop (unat off) buf \<and> rx s' = rx s \<and>
       (off < len \<longrightarrow> (st = WRITE_FINISH \<longleftrightarrow> off' = len))"
proof (induction buf len off s rule: write_async.induct)
  case (1 buf len off s)
  let ?bs = "drop (unat off) buf"
  have load: "mem_load buf (unat off) (unat (len - off)) = Inr ?bs" "length ?bs = unat (len - off)"
    using "1.prems" by (auto simp: mem_load_def unat_diff_no_wrap word_le_nat_alt)
  obtain r s1 where wr: "sys_write ?bs s = (r, s1)" by fastforce
  show ?case
  proof (cases "\<exists>n. r = Wrote (Suc n)")
    case False
    then have "sent s1 = sent s \<and> rx s1 = rx s"
      using sys_write_other [OF wr] sys_write_wrote [of ?bs s 0 s1] wr
      by (metis append_Nil2 nat.exhaust take0 write_ret.exhaust)
    with False "1.prems" load wr show ?thesis
      by (auto simp: write_async.simps [of buf] split: write_ret.splits nat.splits)
  next
    case True
    then obtain n where r: "r = Wrote (Suc n)" by blast
    note w = sys_write_wrote [OF wr [unfolded r]]
    let ?off = "off + of_nat (Suc n)"
    have le: "unat off + Suc n \<le> unat len"
      using w load(2) "1.prems"(2) by (auto simp: unat_diff_no_wrap word_le_nat_alt)
    then have off: "unat ?off = unat off + Suc n"
      using le_less_trans [OF le unat_less_size] by (intro unat_add_of_nat) simp
    have split: "take (Suc n) ?bs @ drop (unat ?off) buf = ?bs"
      unfolding off by (metis append_take_drop_id drop_drop add.commute)
    show ?thesis
    proof (cases "?off < len")
      case True
      then show ?thesis
        using "1.IH" [OF load(1) wr [symmetric] r refl refl True "1.prems"(1) less_imp_le [OF True]]
          w wr r load(1) split
        by (auto simp: write_async.simps [of buf len off] Let_def)
    next
      case False
      then have "?off = len"
        using le off by (simp add: word_unat_eq_iff word_less_nat_alt)
      then show ?thesis
        using w wr r load(1) split False by (simp add: write_async.simps [of buf len off] Let_def)
    qed
  qed
qed

interpretation msg: resumable_writer message_write_async msg_pending msg_wf
proof unfold_locales
  fix m s
  assume wf: "msg_wf m"
  then have "length (msg_buffer m) = unat SIZEOF_SIZE_T" "msg_offset m \<le> SIZEOF_SIZE_T"
    by (auto simp: msg_wf_def)
  from write_async_result [OF this, of s] obtain st off s' where
    w: "write_async (msg_buffer m) SIZEOF_SIZE_T (msg_offset m) s = Inr (st, off, s')"
      "off \<le> SIZEOF_SIZE_T" "sent s' @ drop (unat off) (msg_buffer m) = sent s @ msg_pending m"
      "msg_offset m < SIZEOF_SIZE_T \<longrightarrow> (st = WRITE_FINISH \<longleftrightarrow> off = SIZEOF_SIZE_T)"
    by (auto simp: msg_pending_def)
  then show "\<exists>st m' s'. message_write_async m s = Inr (st, m', s')"
    by (simp add: message_write_async_def)
  fix st' m' s''
  assume eq: "message_write_async m s = Inr (st', m', s'')"
  then have m': "m' = m\<lparr>msg_offset := off\<rparr>" "st' = st" "s'' = s'"
    using w by (auto simp: message_write_async_def)
  show "msg_wf m'" "sent s'' @ msg_pending m' = sent s @ msg_pending m"
    using wf w m' by (auto simp: msg_wf_def msg_pending_def)
  assume "msg_pending m \<noteq> []"
  then have "msg_offset m < SIZEOF_SIZE_T"
    using wf by (auto simp: msg_pending_def msg_wf_nat word_less_nat_alt)
  then show "st' = WRITE_FINISH \<longleftrightarrow> msg_pending m' = []"
    using wf w m' by (auto simp: msg_pending_def msg_wf_def word_le_nat_alt word_unat_eq_iff)
qed

lemma read_async_result:
  "\<lbrakk>length buf = 8; off < SIZEOF_SIZE_T\<rbrakk> \<Longrightarrow>
     \<exists>st buf' off' s'. read_async buf SIZEOF_SIZE_T off s = Inr (st, buf', off', s') \<and>
       length buf' = 8 \<and> off' \<le> SIZEOF_SIZE_T \<and>
       take (unat off') buf' = take (unat off) buf @ take (8 - unat off) (rx_data (rx s)) \<and>
       (st = READ_FINISH \<longrightarrow> rx_data (rx s') = drop (8 - unat off) (rx_data (rx s))) \<and>
       (st = READ_FINISH \<longleftrightarrow> off' = SIZEOF_SIZE_T) \<and>
       (off' \<noteq> SIZEOF_SIZE_T \<longrightarrow> st = fst (rx_outcome (rx s)))"
proof (induction buf SIZEOF_SIZE_T off s rule: read_async.induct)
  case (1 buf off s)
  let ?n = "unat (SIZEOF_SIZE_T - off)"
  have n: "?n = 8 - unat off" "0 < ?n"
    using "1.prems"(2) by (simp_all add: unat_diff_no_wrap less_imp_le word_less_nat_alt)
  obtain r es where rd: "rx_read ?n (rx s) = (r, es)" by fastforce
  have sr: "sys_read ?n s = (r, s\<lparr>rx := es\<rparr>)" using rd by (simp add: sys_read_rx)
  consider (again) "r = Read_Again" | (fail) "r = Read_Fail" | (eof) "r = Read_Bytes []"
    | (more) x xs where "r = Read_Bytes (x # xs)"
    by (metis list.exhaust read_ret.exhaust)
  then show ?case
  proof cases
    case (more x xs)
    note bytes = rx_read_bytes [OF rd [unfolded more]]
    let ?off = "off + of_nat (length (x # xs))" and ?buf = "overwrite buf (unat off) (x # xs)"
    have le: "unat off + length (x # xs) \<le> 8" using bytes n by auto
    then have off: "unat ?off = unat off + length (x # xs)"
      by (intro unat_add_of_nat) simp
    have st: "mem_store buf (unat off) (x # xs) = Inr ?buf" "length ?buf = 8"
        "take (unat ?off) ?buf = take (unat off) buf @ x # xs"
      using le "1.prems"(1) unfolding off by (simp_all add: mem_store_def del: list.size)
    have data: "rx_data (rx s) = (x # xs) @ rx_data es" "length (x # xs) \<le> 8 - unat off"
      using bytes n by auto
    then have td: "take (8 - unat off) (rx_data (rx s)) = (x # xs) @ take (8 - unat ?off) (rx_data es)"
        "drop (8 - unat off) (rx_data (rx s)) = drop (8 - unat ?off) (rx_data es)"
      unfolding off by (simp_all only: take_append drop_append) simp_all
    show ?thesis
    proof (cases "?off < SIZEOF_SIZE_T")
      case True
      from "1.hyps" [OF sr [symmetric] more refl st(1) refl True st(2) True]
      show ?thesis
        unfolding td using sr more st True rx_outcome_same_after [of es "rx s"] bytes
        by (simp add: read_async.simps [of buf _ off] Let_def)
    next
      case False
      then have "?off = SIZEOF_SIZE_T" "unat ?off = 8" "unat off < 8"
        using le off "1.prems"(2) by (simp_all add: word_unat_eq_iff word_less_nat_alt)
      then show ?thesis
        unfolding td using sr more st False by (simp add: read_async.simps [of buf _ off] Let_def)
    qed
  qed (use "1.prems" rd sr n in \<open>auto simp: read_async.simps [of buf] rx_outcome_after [of "rx s"]
        dest!: rx_read_zero rx_read_again rx_read_fail\<close>)
qed


text \<open>The receiver's view of the event loop: one call per readiness event.\<close>

fun read_calls :: "Message \<Rightarrow> socket \<Rightarrow> rx_event list list \<Rightarrow> (ReadState \<times> Message \<times> socket) res" where
  "read_calls m s [] = Inr (READ_BUSY, m, s)"
| "read_calls m s (es # ess) =
     bind_res (message_read_async m (s\<lparr>rx := es\<rparr>)) (\<lambda>(st, m', s').
       if st = READ_BUSY then read_calls m' s' ess else Inr (st, m', s'))"

lemma message_read_async_result:
  assumes "msg_wf m" and "msg_offset m < SIZEOF_SIZE_T"
  shows "\<exists>st m' s'. message_read_async m s = Inr (st, m', s') \<and> msg_wf m' \<and>
     msg_received m' = msg_received m @ take (8 - unat (msg_offset m)) (rx_data (rx s)) \<and>
     (st = READ_FINISH \<longleftrightarrow> msg_offset m' = SIZEOF_SIZE_T) \<and>
     (msg_offset m' \<noteq> SIZEOF_SIZE_T \<longrightarrow> st = fst (rx_outcome (rx s)))"
proof -
  from read_async_result [of "msg_buffer m" "msg_offset m" s] assms
  obtain st buf off s' where
    "read_async (msg_buffer m) SIZEOF_SIZE_T (msg_offset m) s = Inr (st, buf, off, s')"
    "length buf = 8" "off \<le> SIZEOF_SIZE_T"
    "take (unat off) buf = msg_received m @ take (8 - unat (msg_offset m)) (rx_data (rx s))"
    "st = READ_FINISH \<longleftrightarrow> off = SIZEOF_SIZE_T"
    "off \<noteq> SIZEOF_SIZE_T \<longrightarrow> st = fst (rx_outcome (rx s))"
    unfolding msg_wf_def msg_received_def by blast
  then show ?thesis
    by (intro exI [of _ st] exI [of _ "m\<lparr>msg_buffer := buf, msg_offset := off\<rparr>"] exI [of _ s'])
       (simp add: message_read_async_def msg_wf_def msg_received_def [of "m\<lparr>msg_buffer := buf, msg_offset := off\<rparr>"])
qed

lemma length_msg_received: "msg_wf m \<Longrightarrow> length (msg_received m) = unat (msg_offset m)"
  by (simp add: msg_received_def msg_wf_nat)

lemma read_calls_finish:
  "\<lbrakk>msg_wf m; msg_offset m < SIZEOF_SIZE_T; list_all (\<lambda>es. rx_after es = []) ess;
    unat (msg_offset m) + length (concat (map rx_data ess)) = 8\<rbrakk> \<Longrightarrow>
   \<exists>m' s'. read_calls m s ess = Inr (READ_FINISH, m', s') \<and> msg_offset m' = SIZEOF_SIZE_T \<and>
     msg_buffer m' = msg_received m @ concat (map rx_data ess)"
proof (induction ess arbitrary: m s)
  case Nil
  then show ?case by (auto simp: word_less_nat_alt)
next
  case (Cons es ess)
  from message_read_async_result [OF Cons.prems(1,2), of "s\<lparr>rx := es\<rparr>"] obtain st m1 s1 where
    rd: "message_read_async m (s\<lparr>rx := es\<rparr>) = Inr (st, m1, s1)" and wf: "msg_wf m1"
    and rc: "msg_received m1 = msg_received m @ rx_data es"
    and st: "st = READ_FINISH \<longleftrightarrow> msg_offset m1 = SIZEOF_SIZE_T"
      "msg_offset m1 \<noteq> SIZEOF_SIZE_T \<longrightarrow> st = fst (rx_outcome es)"
    using Cons.prems(4) by auto
  have off: "unat (msg_offset m1) = unat (msg_offset m) + length (rx_data es)"
    using length_msg_received [OF wf] length_msg_received [OF Cons.prems(1)] rc by simp
  show ?case
  proof (cases "msg_offset m1 = SIZEOF_SIZE_T")
    case True
    then have "unat (msg_offset m1) = 8" by simp
    moreover have "unat (msg_offset m) + length (rx_data es) + length (concat (map rx_data ess)) = 8"
      using Cons.prems(4) by simp
    ultimately have "length (concat (map rx_data ess)) = 0" using off by linarith
    then have "concat (map rx_data ess) = []" by (simp only: length_0_conv)
    moreover have "msg_buffer m1 = msg_received m1"
      using wf True by (simp add: msg_received_def msg_wf_def)
    ultimately show ?thesis using rd st True rc by simp
  next
    case False
    have "st = READ_BUSY"
      using False st Cons.prems(3) rx_outcome_after [of es] by simp
    moreover have "msg_offset m1 < SIZEOF_SIZE_T"
      using False wf by (auto simp: msg_wf_def intro: le_neq_trans)
    ultimately show ?thesis
      using Cons.IH [OF wf, of s1] Cons.prems(3,4) off rd rc by simp
  qed
qed

section \<open>Blocking transfers\<close>

lemma msg_advance:
  assumes "msg_wf m" and "n \<le> length (msg_pending m)"
  shows "msg_wf (m\<lparr>msg_offset := msg_offset m + of_nat n\<rparr>)"
    and "unat (msg_offset m + of_nat n) = unat (msg_offset m) + n"
    and "msg_pending (m\<lparr>msg_offset := msg_offset m + of_nat n\<rparr>) = drop n (msg_pending m)"
proof -
  have le: "unat (msg_offset m) + n \<le> 8"
    using assms by (auto simp: msg_wf_nat msg_pending_def)
  then show "unat (msg_offset m + of_nat n) = unat (msg_offset m) + n"
    by (intro unat_add_of_nat) simp
  with le assms show "msg_wf (m\<lparr>msg_offset := msg_offset m + of_nat n\<rparr>)"
    "msg_pending (m\<lparr>msg_offset := msg_offset m + of_nat n\<rparr>) = drop n (msg_pending m)"
    by (simp_all add: msg_wf_nat msg_pending_def add.commute)
qed

lemma msg_done: "msg_wf m \<Longrightarrow> \<not> msg_offset m < SIZEOF_SIZE_T \<Longrightarrow> msg_offset m = SIZEOF_SIZE_T \<and> msg_pending m = []"
  by (auto simp: msg_wf_nat msg_pending_def word_less_nat_alt word_unat_eq_iff)

lemma message_write_sync_result:
  "\<lbrakk>msg_wf m; message_write_sync m s = Inr (m', s')\<rbrakk> \<Longrightarrow>
     sent s' = sent s @ msg_pending m \<and> msg_offset m' = SIZEOF_SIZE_T \<and> msg_buffer m' = msg_buffer m"
proof (induction m s rule: message_write_sync.induct)
  case (1 m s)
  let ?bs = "msg_pending m"
  have load: "mem_load (msg_buffer m) (unat (msg_offset m)) (unat (SIZEOF_SIZE_T - msg_offset m)) = Inr ?bs"
    using "1.prems"(1) by (auto simp: mem_load_def msg_wf_def msg_pending_def unat_diff_no_wrap word_le_nat_alt)
  have tx: "tx s \<noteq> []"
    using "1.prems"(2) load by (auto simp: message_write_sync.simps [of m])
  obtain r s1 where wr: "sys_write ?bs s = (r, s1)" by fastforce
  show ?case
  proof (cases r)
    case (Wrote n)
    note w = sys_write_wrote [OF wr [unfolded Wrote]]
    note adv = msg_advance [OF "1.prems"(1), of n]
    show ?thesis
    proof (cases "msg_offset m + of_nat n < SIZEOF_SIZE_T")
      case True
      then show ?thesis
        using "1.IH"(1) [OF load tx wr [symmetric] Wrote refl] "1.prems"(2) load tx wr Wrote w adv
        by (simp add: message_write_sync.simps [of m])
    next
      case False
      then show ?thesis
        using "1.prems"(2) load tx wr Wrote w adv msg_done [OF adv(1)]
        by (auto simp: message_write_sync.simps [of m])
    qed
  next
    case Write_Again
    then show ?thesis
      using "1.IH"(2) [OF load tx wr [symmetric] Write_Again] "1.prems" load tx wr
        sys_write_other [OF wr] msg_done
      by (auto simp: message_write_sync.simps [of m] split: if_splits)
  next
    case Write_Fail
    then show ?thesis
      using "1.IH"(3) [OF load tx wr [symmetric] Write_Fail] "1.prems" load tx wr
        sys_write_other [OF wr] msg_done
      by (auto simp: message_write_sync.simps [of m] split: if_splits)
  qed
qed

text \<open>With a buffer shorter than a pointer the resumable read cannot finish.\<close>

lemma read_async_short:
  "\<lbrakk>length buf = unat len; unat len < 8; off \<le> len\<rbrakk> \<Longrightarrow>
     \<exists>st buf' off' s'. read_async buf len off s = Inr (st, buf', off', s') \<and> st \<noteq> READ_FINISH"
proof (induction buf len off s rule: read_async.induct)
  case (1 buf len off s)
  let ?n = "unat (len - off)"
  obtain r es where rd: "rx_read ?n (rx s) = (r, es)" by fastforce
  have sr: "sys_read ?n s = (r, s\<lparr>rx := es\<rparr>)" using rd by (simp add: sys_read_rx)
  show ?case
  proof (cases "\<exists>x xs. r = Read_Bytes (x # xs)")
    case True
    then obtain x xs where r: "r = Read_Bytes (x # xs)" by blast
    have le: "unat off + length (x # xs) \<le> unat len"
      using rx_read_bytes [OF rd [unfolded r]] "1.prems"(3) by (auto simp: unat_diff_no_wrap word_le_nat_alt)
    let ?off = "off + of_nat (length (x # xs))"
    have off: "unat ?off = unat off + length (x # xs)"
      using le "1.prems"(2) by (intro unat_add_of_nat) simp
    have st: "mem_store buf (unat off) (x # xs) = Inr (overwrite buf (unat off) (x # xs))"
      "length (overwrite buf (unat off) (x # xs)) = unat len"
      using le "1.prems"(1) by (simp_all add: mem_store_def del: list.size)
    have lt: "?off < SIZEOF_SIZE_T" "?off \<le> len"
      using off le "1.prems"(2) by (simp_all add: word_less_nat_alt word_le_nat_alt)
    from "1.IH" [OF sr [symmetric] r refl st(1) refl lt(1) st(2) "1.prems"(2) lt(2)] show ?thesis
      using sr r st lt by (simp add: read_async.simps [of buf len off] Let_def)
  next
    case False
    then show ?thesis
      using sr by (auto simp: read_async.simps [of buf len off] split: read_ret.splits list.splits)
  qed
qed

section \<open>Properties\<close>


definition msg_rcv_ex :: Message where
  "msg_rcv_ex = \<lparr>msg_buffer = replicate 8 0, msg_offset = 0\<rparr>"



text \<open>
  \<^verbatim>\<open>message_write_sync\<close>, when it returns, has put all the bytes of the message
  that were still to be sent on the wire, once and in order, whatever errors and partial
  writes came between.
\<close>

lemma message_write_sync_correct:
  assumes "message_write_sync (message_init p) s = Inr (m', s')"
  shows "sent s' = sent s @ le_bytes 8 p \<and> message_get_payload m' = Inr p"
  using message_write_sync_result [OF _ assms] message_init_wf [of p]
  by (simp add: message_get_payload_def) (simp add: message_init_def)

lemma message_write_sync_correct_example:
  "\<exists>m' s'. message_write_sync (message_init 258) \<lparr>rx = [], tx = [Tx_Accept 2, Tx_Error, Tx_Accept 9], sent = []\<rparr> =
     Inr (m', s') \<and> sent s' = [2, 1, 0, 0, 0, 0, 0, 0] \<and> message_get_payload m' = Inr 258"
proof -
  let ?s = "\<lparr>rx = [], tx = [Tx_Accept 2, Tx_Error, Tx_Accept 9], sent = []\<rparr>"
  have run: "message_write_sync (message_init 258) ?s =
      Inr ((message_init 258)\<lparr>msg_offset := 8\<rparr>, \<lparr>rx = [], tx = [], sent = [2, 1, 0, 0, 0, 0, 0, 0]\<rparr>)"
    by code_simp
  show ?thesis
    using message_write_sync_correct [OF run] run by simp
qed

end
