(* ===== verification/Http_Parser.thy ===== *)
theory Http_Parser
  imports Prelude
begin

text \<open>
  src/picohttpparser.c: the incremental parser of requests, responses and headers, as the
  build compiles it (no SSE 4.2). A cursor is the position of \<^verbatim>\<open>buf\<close> in the buffer together
  with the bytes from there to \<^verbatim>\<open>buf_end\<close>; pointers into the buffer are positions. A parsing
  step ends with \<open>Ok\<close>, with a return code \<open>Ret\<close> (-1 malformed, -2 incomplete), or with
  \<open>Overread\<close>, a read at \<^verbatim>\<open>buf_end\<close> or beyond or a store past the header array, which the
  C code does not test for and which the properties exclude.
\<close>

section \<open>Cursors and outcomes\<close>

datatype 'a parse = Ok 'a | Ret int | Overread

type_synonym cursor = "nat \<times> byte list"

fun bind_parse :: "'a parse \<Rightarrow> ('a \<Rightarrow> 'b parse) \<Rightarrow> 'b parse" where
  "bind_parse (Ok x) f = f x"
| "bind_parse (Ret e) f = Ret e"
| "bind_parse Overread f = Overread"

definition IS_PRINTABLE_ASCII :: "byte \<Rightarrow> bool" where
  "IS_PRINTABLE_ASCII c \<longleftrightarrow> (ucast c :: 32 word) - 32 < 95"

fun deref :: "cursor \<Rightarrow> byte parse" where
  "deref (p, c # r) = Ok c"
| "deref (p, []) = Overread"

fun next_char :: "cursor \<Rightarrow> cursor" where
  "next_char (p, r) = (Suc p, tl r)"

definition CHECK_EOF :: "cursor \<Rightarrow> unit parse" where
  "CHECK_EOF cur = (if snd cur = [] then Ret (- 2) else Ok ())"

definition EXPECT_CHAR_NO_CHECK :: "byte \<Rightarrow> cursor \<Rightarrow> cursor parse" where
  "EXPECT_CHAR_NO_CHECK ch cur =
     bind_parse (deref cur) (\<lambda>c. if c \<noteq> ch then Ret (- 1) else Ok (next_char cur))"

definition EXPECT_CHAR :: "byte \<Rightarrow> cursor \<Rightarrow> cursor parse" where
  "EXPECT_CHAR ch cur = bind_parse (CHECK_EOF cur) (\<lambda>_. EXPECT_CHAR_NO_CHECK ch cur)"

section \<open>Tokens\<close>

text \<open>The \<^verbatim>\<open>while (1)\<close> of \<^verbatim>\<open>ADVANCE_TOKEN\<close>: up to the next space, no control characters.\<close>

fun advance_loop :: "cursor \<Rightarrow> cursor parse" where
  "advance_loop (p, []) = Overread"
| "advance_loop (p, c # r) =
     (if c = 32 then Ok (p, c # r)
      else if \<not> IS_PRINTABLE_ASCII c \<and> (c < 32 \<or> c = 127) then Ret (- 1)
      else if r = [] then Ret (- 2)
      else advance_loop (Suc p, r))"

definition ADVANCE_TOKEN :: "cursor \<Rightarrow> ((nat \<times> nat) \<times> cursor) parse" where
  "ADVANCE_TOKEN cur =
     bind_parse (CHECK_EOF cur) (\<lambda>_.
       bind_parse (advance_loop cur) (\<lambda>cur'. Ok ((fst cur, fst cur' - fst cur), cur')))"

definition token_char_map :: "byte list" where
  "token_char_map =
    [0, 0, 0, 0, 0, 0, 0, 0, 0, 0, 0, 0, 0, 0, 0, 0, 0, 0, 0, 0, 0, 0, 0, 0, 0, 0, 0, 0, 0, 0, 0, 0,
     0, 1, 0, 1, 1, 1, 1, 1, 0, 0, 1, 1, 0, 1, 1, 0, 1, 1, 1, 1, 1, 1, 1, 1, 1, 1, 0, 0, 0, 0, 0, 0,
     0, 1, 1, 1, 1, 1, 1, 1, 1, 1, 1, 1, 1, 1, 1, 1, 1, 1, 1, 1, 1, 1, 1, 1, 1, 1, 1, 0, 0, 0, 1, 1,
     1, 1, 1, 1, 1, 1, 1, 1, 1, 1, 1, 1, 1, 1, 1, 1, 1, 1, 1, 1, 1, 1, 1, 1, 1, 1, 1, 0, 1, 0, 1, 0,
     0, 0, 0, 0, 0, 0, 0, 0, 0, 0, 0, 0, 0, 0, 0, 0, 0, 0, 0, 0, 0, 0, 0, 0, 0, 0, 0, 0, 0, 0, 0, 0,
     0, 0, 0, 0, 0, 0, 0, 0, 0, 0, 0, 0, 0, 0, 0, 0, 0, 0, 0, 0, 0, 0, 0, 0, 0, 0, 0, 0, 0, 0, 0, 0,
     0, 0, 0, 0, 0, 0, 0, 0, 0, 0, 0, 0, 0, 0, 0, 0, 0, 0, 0, 0, 0, 0, 0, 0, 0, 0, 0, 0, 0, 0, 0, 0,
     0, 0, 0, 0, 0, 0, 0, 0, 0, 0, 0, 0, 0, 0, 0, 0, 0, 0, 0, 0, 0, 0, 0, 0, 0, 0, 0, 0, 0, 0, 0, 0]"

definition is_token_char :: "byte \<Rightarrow> bool" where
  "is_token_char c \<longleftrightarrow> token_char_map ! unat c \<noteq> 0"

text \<open>The test behind the labels \<^verbatim>\<open>NonPrintable\<close> and \<^verbatim>\<open>FOUND_CTL\<close>.\<close>

definition is_ctl :: "byte \<Rightarrow> bool" where
  "is_ctl c \<longleftrightarrow> (c < 32 \<and> c \<noteq> 9) \<or> c = 127"

text \<open>
  \<^verbatim>\<open>get_token_to_eol\<close>: \<open>DOIT n\<close> is the macro \<open>n\<close> times in a row (\<open>True\<close> when it jumps to
  \<^verbatim>\<open>NonPrintable\<close>), \<open>eol_fast\<close> the loop over eight bytes at a time (\<open>True\<close> when it jumps to
  \<^verbatim>\<open>FOUND_CTL\<close>), \<open>eol_slow\<close> the loop over the rest.
\<close>

fun DOIT :: "nat \<Rightarrow> cursor \<Rightarrow> (bool \<times> cursor) parse" where
  "DOIT 0 cur = Ok (False, cur)"
| "DOIT (Suc n) (p, []) = Overread"
| "DOIT (Suc n) (p, c # r) =
     (if \<not> IS_PRINTABLE_ASCII c then Ok (True, (p, c # r)) else DOIT n (Suc p, r))"

function eol_fast :: "cursor \<Rightarrow> (bool \<times> cursor) parse" where
  "eol_fast cur =
     (if length (snd cur) \<ge> 8 then
        (case DOIT 8 cur of
           Ok (False, cur') \<Rightarrow> eol_fast cur'
         | Ok (True, cur') \<Rightarrow>
             (case deref cur' of
                Ok c \<Rightarrow> if is_ctl c then Ok (True, cur') else eol_fast (next_char cur')
              | Ret e \<Rightarrow> Ret e
              | Overread \<Rightarrow> Overread)
         | Ret e \<Rightarrow> Ret e
         | Overread \<Rightarrow> Overread)
      else Ok (False, cur))"
  by pat_completeness auto

fun eol_slow :: "cursor \<Rightarrow> cursor parse" where
  "eol_slow (p, []) = Ret (- 2)"
| "eol_slow (p, c # r) =
     (if \<not> IS_PRINTABLE_ASCII c \<and> is_ctl c then Ok (p, c # r) else eol_slow (Suc p, r))"

definition FOUND_CTL :: "nat \<Rightarrow> cursor \<Rightarrow> ((nat \<times> nat) \<times> cursor) parse" where
  "FOUND_CTL start cur =
     bind_parse (deref cur) (\<lambda>c.
       if c = 13 then
         bind_parse (EXPECT_CHAR 10 (next_char cur)) (\<lambda>cur'. Ok ((start, fst cur' - 2 - start), cur'))
       else if c = 10 then Ok ((start, fst cur - start), next_char cur)
       else Ret (- 1))"

lemma DOIT_length:
  "DOIT n cur = Ok (b, cur') \<Longrightarrow> length (snd cur') \<le> length (snd cur) \<and>
     (\<not> b \<longrightarrow> length (snd cur') + n = length (snd cur)) \<and> (b \<longrightarrow> snd cur' \<noteq> [])"
  by (induction n cur rule: DOIT.induct) (fastforce split: if_splits)+

termination eol_fast
proof (relation "measure (\<lambda>cur. length (snd cur))", goal_cases)
  case (2 cur b cur')
  then show ?case by (cases b) (auto dest: DOIT_length)
next
  case (3 cur b cur' c)
  then show ?case by (cases b; cases cur') (auto dest: DOIT_length)
qed auto

declare eol_fast.simps [simp del]

definition get_token_to_eol :: "cursor \<Rightarrow> ((nat \<times> nat) \<times> cursor) parse" where
  "get_token_to_eol cur =
     bind_parse (eol_fast cur) (\<lambda>(found, cur').
       bind_parse (if found then Ok cur' else eol_slow cur') (FOUND_CTL (fst cur)))"

section \<open>The completeness check\<close>

fun is_complete_loop :: "nat \<Rightarrow> cursor \<Rightarrow> cursor parse" where
  "is_complete_loop cnt (p, []) = Ret (- 2)"
| "is_complete_loop cnt (p, c # r) =
     (if c = 13 then
        (case r of
           [] \<Rightarrow> Ret (- 2)
         | d # r' \<Rightarrow>
             if d \<noteq> 10 then Ret (- 1)
             else if Suc cnt = 2 then Ok (p + 2, r')
             else is_complete_loop (Suc cnt) (p + 2, r'))
      else if c = 10 then
        (if Suc cnt = 2 then Ok (Suc p, r) else is_complete_loop (Suc cnt) (Suc p, r))
      else is_complete_loop 0 (Suc p, r))"

definition is_complete :: "byte list \<Rightarrow> nat \<Rightarrow> cursor parse" where
  "is_complete buf last_len =
     (if last_len < 3 then is_complete_loop 0 (0, buf)
      else if last_len - 3 \<le> length buf then is_complete_loop 0 (last_len - 3, drop (last_len - 3) buf)
      else Overread)"

section \<open>Numbers and the version\<close>

definition PARSE_INT :: "int \<Rightarrow> cursor \<Rightarrow> (int \<times> cursor) parse" where
  "PARSE_INT mul cur =
     bind_parse (deref cur) (\<lambda>c.
       if c < 48 \<or> 57 < c then Ret (- 1) else Ok (mul * (uint c - 48), next_char cur))"

text \<open>\<^verbatim>\<open>PARSE_INT_3\<close>: the status is assigned digit by digit, so a failure leaves part of it.\<close>

definition PARSE_INT_3 :: "int \<Rightarrow> cursor \<Rightarrow> cursor parse \<times> int" where
  "PARSE_INT_3 v cur =
     (case PARSE_INT 100 cur of
        Ok (a, cur1) \<Rightarrow>
          (case PARSE_INT 10 cur1 of
             Ok (b, cur2) \<Rightarrow>
               (case PARSE_INT 1 cur2 of
                  Ok (c, cur3) \<Rightarrow> (Ok cur3, a + b + c)
                | Ret e \<Rightarrow> (Ret e, a + b)
                | Overread \<Rightarrow> (Overread, a + b))
           | Ret e \<Rightarrow> (Ret e, a)
           | Overread \<Rightarrow> (Overread, a))
      | Ret e \<Rightarrow> (Ret e, v)
      | Overread \<Rightarrow> (Overread, v))"

fun EXPECT_CHARS :: "byte list \<Rightarrow> cursor \<Rightarrow> cursor parse" where
  "EXPECT_CHARS [] cur = Ok cur"
| "EXPECT_CHARS (ch # chs) cur = bind_parse (EXPECT_CHAR_NO_CHECK ch cur) (EXPECT_CHARS chs)"

text \<open>The seven expected bytes are \<^verbatim>\<open>HTTP/1.\<close>\<close>

definition parse_http_version :: "cursor \<Rightarrow> (int \<times> cursor) parse" where
  "parse_http_version cur =
     (if length (snd cur) < 9 then Ret (- 2)
      else bind_parse (EXPECT_CHARS [72, 84, 84, 80, 47, 49, 46] cur) (PARSE_INT 1))"

section \<open>Headers\<close>

record phr_header =
  hdr_name :: "nat option"
  hdr_name_len :: nat
  hdr_value :: "nat option"
  hdr_value_len :: nat

fun name_loop :: "cursor \<Rightarrow> cursor parse" where
  "name_loop (p, []) = Overread"
| "name_loop (p, c # r) =
     (if c = 58 then Ok (p, c # r)
      else if \<not> is_token_char c then Ret (- 1)
      else if r = [] then Ret (- 2)
      else name_loop (Suc p, r))"

fun skip_blanks :: "cursor \<Rightarrow> cursor parse" where
  "skip_blanks (p, []) = Ret (- 2)"
| "skip_blanks (p, c # r) = (if \<not> (c = 32 \<or> c = 9) then Ok (p, c # r) else skip_blanks (Suc p, r))"

text \<open>The name of a header up to its value; the entry of the array it is stored in is returned.\<close>

definition parse_header_name :: "phr_header \<Rightarrow> cursor \<Rightarrow> cursor parse \<times> phr_header" where
  "parse_header_name h cur =
     (let h = h\<lparr>hdr_name := Some (fst cur)\<rparr>
      in case bind_parse (CHECK_EOF cur) (\<lambda>_. name_loop cur) of
           Ok cur' \<Rightarrow>
             let h = h\<lparr>hdr_name_len := fst cur' - fst cur\<rparr>
             in if hdr_name_len h = 0 then (Ret (- 1), h)
                else (skip_blanks (next_char cur'), h)
         | Ret e \<Rightarrow> (Ret e, h)
         | Overread \<Rightarrow> (Overread, h))"

definition parse_header_line :: "nat \<Rightarrow> phr_header \<Rightarrow> cursor \<Rightarrow> cursor parse \<times> phr_header" where
  "parse_header_line n h cur =
     (case bind_parse (deref cur) (\<lambda>c. Ok (\<not> (n \<noteq> 0 \<and> (c = 32 \<or> c = 9)))) of
        Ok named \<Rightarrow>
          (case (if named then parse_header_name h cur
                 else (Ok cur, h\<lparr>hdr_name := None, hdr_name_len := 0\<rparr>)) of
             (Ok cur', h) \<Rightarrow>
               (case get_token_to_eol cur' of
                  Ok ((v, vl), cur'') \<Rightarrow> (Ok cur'', h\<lparr>hdr_value := Some v, hdr_value_len := vl\<rparr>)
                | Ret e \<Rightarrow> (Ret e, h)
                | Overread \<Rightarrow> (Overread, h))
           | (Ret e, h) \<Rightarrow> (Ret e, h)
           | (Overread, h) \<Rightarrow> (Overread, h))
      | Ret e \<Rightarrow> (Ret e, h)
      | Overread \<Rightarrow> (Overread, h))"

text \<open>
  \<open>reaches c c'\<close>: the parser moves from \<open>c\<close> forward to \<open>c'\<close> inside the buffer. Every
  successful step does, and one that ends a line does so strictly.
\<close>

definition reaches :: "cursor \<Rightarrow> cursor \<Rightarrow> bool" where
  "reaches c c' \<longleftrightarrow> (\<exists>bs. snd c = bs @ snd c' \<and> fst c' = fst c + length bs)"

named_theorems moves \<open>successful steps move the cursor forward\<close>

lemma reaches_refl [simp, intro]: "reaches c c"
  by (simp add: reaches_def)

lemma reaches_trans [trans]: "reaches a b \<Longrightarrow> reaches b c \<Longrightarrow> reaches a c"
  by (force simp: reaches_def)

lemma reaches_next: "snd c \<noteq> [] \<Longrightarrow> reaches c (next_char c)"
  by (cases c; cases "snd c") (auto simp: reaches_def intro: exI [of _ "[_]"])

lemma reaches_Cons [intro]: "reaches (Suc p, r) c \<Longrightarrow> reaches (p, b # r) c"
  using reaches_trans [of "(p, b # r)" "(Suc p, r)" c] reaches_next [of "(p, b # r)"] by simp

lemma reaches_length: "reaches c c' \<Longrightarrow> fst c' + length (snd c') = fst c + length (snd c) \<and> fst c \<le> fst c'"
  by (auto simp: reaches_def)

lemma bind_parse_eq_Ok: "bind_parse m f = Ok y \<longleftrightarrow> (\<exists>x. m = Ok x \<and> f x = Ok y)"
  by (cases m) auto

lemma bind_parse_eq_Ret: "bind_parse m f = Ret e \<longleftrightarrow> m = Ret e \<or> (\<exists>x. m = Ok x \<and> f x = Ret e)"
  by (cases m) auto

lemma bind_parse_eq_Overread: "bind_parse m f = Overread \<longleftrightarrow> m = Overread \<or> (\<exists>x. m = Ok x \<and> f x = Overread)"
  by (cases m) auto

lemmas parse_simps = bind_parse_eq_Ok bind_parse_eq_Ret bind_parse_eq_Overread

lemma deref_eq_Ok [simp]: "deref c = Ok b \<longleftrightarrow> (\<exists>r. snd c = b # r)"
  by (cases c rule: deref.cases) auto

lemma deref_eq_Ret [simp]: "deref c \<noteq> Ret e"
  by (cases c rule: deref.cases) auto

lemma deref_eq_Overread [simp]: "deref c = Overread \<longleftrightarrow> snd c = []"
  by (cases c rule: deref.cases) auto

lemma CHECK_EOF_simps [simp]:
  "CHECK_EOF c = Ok u \<longleftrightarrow> snd c \<noteq> []" "CHECK_EOF c = Ret e \<longleftrightarrow> snd c = [] \<and> e = - 2" "CHECK_EOF c \<noteq> Overread"
  by (auto simp: CHECK_EOF_def)

lemma next_char_eq: "next_char c = (Suc (fst c), tl (snd c))"
  by (cases c) simp

lemma EXPECT_CHAR_moves [moves]:
  "EXPECT_CHAR_NO_CHECK ch c = Ok c' \<Longrightarrow> reaches c c'"
  "EXPECT_CHAR ch c = Ok c' \<Longrightarrow> reaches c c'"
  by (auto simp: EXPECT_CHAR_def EXPECT_CHAR_NO_CHECK_def parse_simps split: if_splits intro: reaches_next)

lemma EXPECT_CHARS_moves [moves]: "EXPECT_CHARS chs c = Ok c' \<Longrightarrow> reaches c c'"
  by (induction chs c rule: EXPECT_CHARS.induct)
    (auto simp: parse_simps dest: moves intro: reaches_trans)

lemma advance_loop_moves [moves]: "advance_loop c = Ok c' \<Longrightarrow> reaches c c' \<and> (\<exists>r. snd c' = 32 # r)"
  by (induction c rule: advance_loop.induct) (auto split: if_splits)

lemma name_loop_moves [moves]: "name_loop c = Ok c' \<Longrightarrow> reaches c c' \<and> (\<exists>r. snd c' = 58 # r)"
  by (induction c rule: name_loop.induct) (auto split: if_splits)

lemma skip_blanks_moves [moves]: "skip_blanks c = Ok c' \<Longrightarrow> reaches c c' \<and> snd c' \<noteq> []"
  by (induction c rule: skip_blanks.induct) (auto split: if_splits)

lemma DOIT_moves [moves]: "DOIT n c = Ok (b, c') \<Longrightarrow> reaches c c'"
  by (induction n c rule: DOIT.induct) (auto split: if_splits)

lemma eol_slow_moves [moves]: "eol_slow c = Ok c' \<Longrightarrow> reaches c c' \<and> snd c' \<noteq> []"
  by (induction c rule: eol_slow.induct) (auto split: if_splits)

text \<open>The loop over eight bytes at a time changes nothing: from its end \<open>eol_slow\<close> finds the same place.\<close>

lemma DOIT_eol_slow: "DOIT n c = Ok (b, c') \<Longrightarrow> eol_slow c = eol_slow c' \<and> (b \<longrightarrow> (\<exists>x r. snd c' = x # r \<and> \<not> IS_PRINTABLE_ASCII x))"
  by (induction n c rule: DOIT.induct) (auto split: if_splits)

lemma DOIT_Ok: "n \<le> length (snd c) \<Longrightarrow> \<exists>b c'. DOIT n c = Ok (b, c')"
  by (induction n c rule: DOIT.induct) auto

lemma eol_fast_slow:
  "bind_parse (eol_fast c) (\<lambda>(f, c'). if f then Ok c' else eol_slow c') = eol_slow c"
proof (induction c rule: eol_fast.induct)
  case (1 c)
  show ?case
  proof (cases "length (snd c) \<ge> 8")
    case True
    then obtain b c1 where d: "DOIT 8 c = Ok (b, c1)" using DOIT_Ok by blast
    note slow = DOIT_eol_slow [OF d]
    show ?thesis
    proof (cases b)
      case False
      with 1(2) [OF True d refl] d True slow show ?thesis by (simp add: eol_fast.simps [of c])
    next
      case b: True
      then obtain x r where x: "snd c1 = x # r" "\<not> IS_PRINTABLE_ASCII x" using slow by blast
      then have c1: "c1 = (fst c1, x # r)" by (cases c1) simp
      have dx: "deref c1 = Ok x" using x by simp
      show ?thesis
      proof (cases "is_ctl x")
        case True
        then have "eol_slow c1 = Ok c1" using x by (subst (1 2) c1) simp
        with True d b dx slow \<open>8 \<le> length (snd c)\<close> show ?thesis
          by (simp add: eol_fast.simps [of c] del: deref_eq_Ok)
      next
        case False
        then have "eol_slow c1 = eol_slow (next_char c1)" by (subst c1) (simp add: next_char_eq x)
        with False d b dx slow True 1(1) [OF True d refl _ dx] show ?thesis
          by (simp add: eol_fast.simps [of c] del: deref_eq_Ok)
      qed
    qed
  next
    case False
    then show ?thesis by (simp add: eol_fast.simps [of c])
  qed
qed

lemma get_token_to_eol_slow: "get_token_to_eol c = bind_parse (eol_slow c) (FOUND_CTL (fst c))"
proof -
  have "get_token_to_eol c =
      bind_parse (bind_parse (eol_fast c) (\<lambda>(f, c'). if f then Ok c' else eol_slow c')) (FOUND_CTL (fst c))"
    by (cases "eol_fast c") (auto simp: get_token_to_eol_def)
  then show ?thesis by (simp add: eol_fast_slow)
qed

lemma FOUND_CTL_moves [moves]: "FOUND_CTL st c = Ok (t, c') \<Longrightarrow> reaches c c' \<and> fst c < fst c'"
  by (fastforce simp: FOUND_CTL_def parse_simps next_char_eq split: if_splits
      dest: EXPECT_CHAR_moves(2) reaches_length intro: reaches_trans [OF reaches_next] reaches_next)

lemma get_token_to_eol_moves [moves]:
  assumes "get_token_to_eol c = Ok (t, c')"
  shows "reaches c c' \<and> fst c < fst c'"
proof -
  obtain c1 where 1: "eol_slow c = Ok c1" "FOUND_CTL (fst c) c1 = Ok (t, c')"
    using assms by (auto simp: get_token_to_eol_slow parse_simps)
  from eol_slow_moves [OF 1(1)] FOUND_CTL_moves [OF 1(2)] reaches_length [of c c1] reaches_trans [of c c1 c']
  show ?thesis by simp
qed

lemma parse_header_name_moves [moves]:
  "parse_header_name h c = (Ok c', h') \<Longrightarrow> reaches c c' \<and> snd c' \<noteq> []"
  by (auto simp: parse_header_name_def Let_def parse_simps split: parse.splits if_splits
      dest!: name_loop_moves skip_blanks_moves intro: reaches_trans [OF _ reaches_trans [OF reaches_next]])

lemma parse_header_line_cases:
  assumes "parse_header_line n h c = (Ok c', h')"
  obtains c1 h1 v vl where "get_token_to_eol c1 = Ok ((v, vl), c')" "h' = h1\<lparr>hdr_value := Some v, hdr_value_len := vl\<rparr>"
    "parse_header_name h c = (Ok c1, h1) \<or> c1 = c \<and> h1 = h\<lparr>hdr_name := None, hdr_name_len := 0\<rparr>"
  using assms by (cases c) (auto simp: parse_header_line_def split: parse.splits if_splits prod.splits)

lemma parse_header_line_moves [moves]:
  assumes "parse_header_line n h c = (Ok c', h')"
  shows "reaches c c' \<and> fst c < fst c'"
  using assms
proof (rule parse_header_line_cases)
  fix c1 h1 v vl
  assume t: "get_token_to_eol c1 = Ok ((v, vl), c')"
    and "parse_header_name h c = (Ok c1, h1) \<or> c1 = c \<and> h1 = h\<lparr>hdr_name := None, hdr_name_len := 0\<rparr>"
  then have "reaches c c1" using parse_header_name_moves by blast
  with get_token_to_eol_moves [OF t] reaches_length [of c c1] show ?thesis by (auto intro: reaches_trans)
qed

text \<open>The line of a header, with the name or its absence as the first step.\<close>

definition header_start :: "nat \<Rightarrow> phr_header \<Rightarrow> cursor \<Rightarrow> cursor parse \<times> phr_header" where
  "header_start n h c =
     (if n \<noteq> 0 \<and> (hd (snd c) = 32 \<or> hd (snd c) = 9) then (Ok c, h\<lparr>hdr_name := None, hdr_name_len := 0\<rparr>)
      else parse_header_name h c)"

lemma parse_header_line_eq:
  assumes "snd c \<noteq> []"
  shows "parse_header_line n h c =
     (case header_start n h c of
        (Ok c1, h1) \<Rightarrow>
          (case get_token_to_eol c1 of
             Ok ((v, vl), c2) \<Rightarrow> (Ok c2, h1\<lparr>hdr_value := Some v, hdr_value_len := vl\<rparr>)
           | Ret e \<Rightarrow> (Ret e, h1)
           | Overread \<Rightarrow> (Overread, h1))
      | (Ret e, h1) \<Rightarrow> (Ret e, h1)
      | (Overread, h1) \<Rightarrow> (Overread, h1))"
  using assms by (cases c; cases "snd c") (auto simp: parse_header_line_def header_start_def)

function parse_headers ::
  "nat \<Rightarrow> cursor \<Rightarrow> phr_header list \<Rightarrow> nat \<Rightarrow> cursor parse \<times> phr_header list \<times> nat" where
  "parse_headers max_headers cur headers num_headers =
     (case bind_parse (CHECK_EOF cur) (\<lambda>_. deref cur) of
        Ok c \<Rightarrow>
          if c = 13 then (EXPECT_CHAR 10 (next_char cur), headers, num_headers)
          else if c = 10 then (Ok (next_char cur), headers, num_headers)
          else if num_headers = max_headers then (Ret (- 1), headers, num_headers)
          else if \<not> num_headers < length headers then (Overread, headers, num_headers)
          else (case parse_header_line num_headers (headers ! num_headers) cur of
                  (Ok cur', h) \<Rightarrow> parse_headers max_headers cur' (headers[num_headers := h]) (Suc num_headers)
                | (Ret e, h) \<Rightarrow> (Ret e, headers[num_headers := h], num_headers)
                | (Overread, h) \<Rightarrow> (Overread, headers[num_headers := h], num_headers))
      | Ret e \<Rightarrow> (Ret e, headers, num_headers)
      | Overread \<Rightarrow> (Overread, headers, num_headers))"
  by pat_completeness auto

termination parse_headers
  by (relation "measure (\<lambda>(_, cur, _). length (snd cur))")
    (auto dest!: parse_header_line_moves reaches_length dest: sym)

declare parse_headers.simps [simp del]

lemma parse_headers_Nil: "parse_headers m (p, []) hs n = (Ret (- 2), hs, n)"
  by (simp add: parse_headers.simps [of m "(p, [])"] CHECK_EOF_def)

lemma parse_headers_Cons:
  "parse_headers m (p, x # r) hs n =
     (if x = 13 then (EXPECT_CHAR 10 (Suc p, r), hs, n)
      else if x = 10 then (Ok (Suc p, r), hs, n)
      else if n = m then (Ret (- 1), hs, n)
      else if \<not> n < length hs then (Overread, hs, n)
      else (case parse_header_line n (hs ! n) (p, x # r) of
              (Ok c', h) \<Rightarrow> parse_headers m c' (hs[n := h]) (Suc n)
            | (Ret e, h) \<Rightarrow> (Ret e, hs[n := h], n)
            | (Overread, h) \<Rightarrow> (Overread, hs[n := h], n)))"
  by (simp add: parse_headers.simps [of m "(p, x # r)"] CHECK_EOF_def)

lemma parse_headers_induct [case_names Nil Cons]:
  assumes Nil: "\<And>m p hs n. P m (p, []) hs n"
    and Cons: "\<And>m p x r hs n.
      (\<And>c' h. \<lbrakk>x \<noteq> 13; x \<noteq> 10; n \<noteq> m; n < length hs; parse_header_line n (hs ! n) (p, x # r) = (Ok c', h)\<rbrakk> \<Longrightarrow>
         P m c' (hs[n := h]) (Suc n)) \<Longrightarrow> P m (p, x # r) hs n"
  shows "P m c hs n"
proof (induction "length (snd c)" arbitrary: c hs n rule: less_induct)
  case (less c hs n)
  show ?case
  proof (cases c)
    case (Pair p r)
    show ?thesis
    proof (cases r)
      case (Cons x r')
      have "P m c' (hs[n := h]) (Suc n)" if "parse_header_line n (hs ! n) (p, x # r') = (Ok c', h)" for c' h
        using parse_header_line_moves [OF that] reaches_length [of "(p, x # r')" c'] Pair Cons
        by (intro less) auto
      then show ?thesis using assms(2) [of x n m hs p r'] Pair Cons by blast
    qed (use Pair assms(1) in simp)
  qed
qed

section \<open>Requests\<close>

text \<open>
  The out parameters of \<^verbatim>\<open>phr_parse_request\<close> are the fields of the structure
  \<^verbatim>\<open>HttpRequest\<close>, which its caller passes one by one.
\<close>

record HttpRequest =
  req_method :: "nat option"
  req_method_len :: nat
  req_path :: "nat option"
  req_path_len :: nat
  req_minor_version :: int
  req_headers :: "phr_header list"
  req_num_headers :: nat

text \<open>An empty line, or the end of a line, as both parsers test for it: \<open>opt\<close> when it may be absent.\<close>

definition parse_crlf :: "bool \<Rightarrow> cursor \<Rightarrow> cursor parse" where
  "parse_crlf opt cur =
     bind_parse (deref cur) (\<lambda>c.
       if c = 13 then EXPECT_CHAR 10 (next_char cur)
       else if c = 10 then Ok (next_char cur)
       else if opt then Ok cur else Ret (- 1))"

definition parse_request :: "nat \<Rightarrow> cursor \<Rightarrow> HttpRequest \<Rightarrow> cursor parse \<times> HttpRequest" where
  "parse_request max_headers cur rq =
     (case bind_parse (CHECK_EOF cur) (\<lambda>_. bind_parse (parse_crlf True cur) ADVANCE_TOKEN) of
        Ok ((m, ml), cur1) \<Rightarrow>
          let rq = rq\<lparr>req_method := Some m, req_method_len := ml\<rparr>
          in (case ADVANCE_TOKEN (next_char cur1) of
                Ok ((pa, pl), cur2) \<Rightarrow>
                  let rq = rq\<lparr>req_path := Some pa, req_path_len := pl\<rparr>
                  in (case parse_http_version (next_char cur2) of
                        Ok (v, cur3) \<Rightarrow>
                          let rq = rq\<lparr>req_minor_version := v\<rparr>
                          in (case parse_crlf False cur3 of
                                Ok cur4 \<Rightarrow>
                                  let (res, hs, n) = parse_headers max_headers cur4 (req_headers rq) (req_num_headers rq)
                                  in (res, rq\<lparr>req_headers := hs, req_num_headers := n\<rparr>)
                              | Ret e \<Rightarrow> (Ret e, rq)
                              | Overread \<Rightarrow> (Overread, rq))
                      | Ret e \<Rightarrow> (Ret e, rq)
                      | Overread \<Rightarrow> (Overread, rq))
              | Ret e \<Rightarrow> (Ret e, rq)
              | Overread \<Rightarrow> (Overread, rq))
      | Ret e \<Rightarrow> (Ret e, rq)
      | Overread \<Rightarrow> (Overread, rq))"

text \<open>\<^verbatim>\<open>(int)(buf - buf_start)\<close> truncates to 32 bits.\<close>

definition to_int32 :: "nat \<Rightarrow> int" where
  "to_int32 n = sint (word_of_nat n :: 32 word)"

definition parse_result :: "cursor parse \<Rightarrow> int res" where
  "parse_result r = (case r of Ok cur \<Rightarrow> Inr (to_int32 (fst cur)) | Ret e \<Rightarrow> Inr e | Overread \<Rightarrow> Inl Out_Of_Bounds)"

definition check_last_len :: "byte list \<Rightarrow> nat \<Rightarrow> unit parse" where
  "check_last_len buf last_len =
     (if last_len \<noteq> 0 then bind_parse (is_complete buf last_len) (\<lambda>_. Ok ()) else Ok ())"

definition phr_parse_request :: "byte list \<Rightarrow> nat \<Rightarrow> HttpRequest \<Rightarrow> int res \<times> HttpRequest" where
  "phr_parse_request buf last_len rq =
     (let max_headers = req_num_headers rq;
          rq = rq\<lparr>req_method := None, req_method_len := 0, req_path := None, req_path_len := 0,
                  req_minor_version := - 1, req_num_headers := 0\<rparr>
      in case check_last_len buf last_len of
           Ok _ \<Rightarrow> (let (r, rq) = parse_request max_headers (0, buf) rq in (parse_result r, rq))
         | Ret e \<Rightarrow> (Inr e, rq)
         | Overread \<Rightarrow> (Inl Out_Of_Bounds, rq))"

section \<open>Responses and header blocks\<close>

record phr_response =
  rsp_minor_version :: int
  rsp_status :: int
  rsp_msg :: "nat option"
  rsp_msg_len :: nat
  rsp_headers :: "phr_header list"
  rsp_num_headers :: nat

definition parse_response :: "nat \<Rightarrow> cursor \<Rightarrow> phr_response \<Rightarrow> cursor parse \<times> phr_response" where
  "parse_response max_headers cur rs =
     (case parse_http_version cur of
        Ok (v, cur1) \<Rightarrow>
          let rs = rs\<lparr>rsp_minor_version := v\<rparr>
          in (case bind_parse (EXPECT_CHAR_NO_CHECK 32 cur1)
                     (\<lambda>cur2. if length (snd cur2) < 4 then Ret (- 2) else Ok cur2) of
                Ok cur2 \<Rightarrow>
                  let (r, st) = PARSE_INT_3 (rsp_status rs) cur2; rs = rs\<lparr>rsp_status := st\<rparr>
                  in (case bind_parse r (\<lambda>cur3. bind_parse (EXPECT_CHAR_NO_CHECK 32 cur3) get_token_to_eol) of
                        Ok ((m, ml), cur4) \<Rightarrow>
                          let rs = rs\<lparr>rsp_msg := Some m, rsp_msg_len := ml\<rparr>;
                              (res, hs, n) = parse_headers max_headers cur4 (rsp_headers rs) (rsp_num_headers rs)
                          in (res, rs\<lparr>rsp_headers := hs, rsp_num_headers := n\<rparr>)
                      | Ret e \<Rightarrow> (Ret e, rs)
                      | Overread \<Rightarrow> (Overread, rs))
              | Ret e \<Rightarrow> (Ret e, rs)
              | Overread \<Rightarrow> (Overread, rs))
      | Ret e \<Rightarrow> (Ret e, rs)
      | Overread \<Rightarrow> (Overread, rs))"

definition phr_parse_response :: "byte list \<Rightarrow> nat \<Rightarrow> phr_response \<Rightarrow> int res \<times> phr_response" where
  "phr_parse_response buf last_len rs =
     (let max_headers = rsp_num_headers rs;
          rs = rs\<lparr>rsp_minor_version := - 1, rsp_status := 0, rsp_msg := None, rsp_msg_len := 0, rsp_num_headers := 0\<rparr>
      in case check_last_len buf last_len of
           Ok _ \<Rightarrow> (let (r, rs) = parse_response max_headers (0, buf) rs in (parse_result r, rs))
         | Ret e \<Rightarrow> (Inr e, rs)
         | Overread \<Rightarrow> (Inl Out_Of_Bounds, rs))"

definition phr_parse_headers ::
  "byte list \<Rightarrow> nat \<Rightarrow> phr_header list \<Rightarrow> nat \<Rightarrow> int res \<times> phr_header list \<times> nat" where
  "phr_parse_headers buf last_len headers num_headers =
     (let max_headers = num_headers
      in case check_last_len buf last_len of
           Ok _ \<Rightarrow> (let (r, hs, n) = parse_headers max_headers (0, buf) headers 0 in (parse_result r, hs, n))
         | Ret e \<Rightarrow> (Inr e, headers, 0)
         | Overread \<Rightarrow> (Inl Out_Of_Bounds, headers, 0))"

end
