(* ===== verification/Chunked.thy ===== *)
theory Chunked
  imports Http_Parser
begin

text \<open>
  The decoder of chunked bodies at the end of src/picohttpparser.c. It removes the framing in
  place: \<open>dst\<close> runs behind \<open>src\<close> in the same buffer, and the state of the decoder survives
  between calls. The model keeps the buffer, the two offsets and every \<^verbatim>\<open>memmove\<close>; a case that
  falls through to the next one is a turn of the loop, which enters the next case by the new
  state. A read or a move outside the buffer is the fault \<open>Out_Of_Bounds\<close>. The reference is
  an automaton that takes one byte at a time.
\<close>

section \<open>Data and operations\<close>

datatype chunked_state =
    CHUNKED_IN_CHUNK_SIZE
  | CHUNKED_IN_CHUNK_EXT
  | CHUNKED_IN_CHUNK_DATA
  | CHUNKED_IN_CHUNK_CRLF
  | CHUNKED_IN_TRAILERS_LINE_HEAD
  | CHUNKED_IN_TRAILERS_LINE_MIDDLE

record phr_chunked_decoder =
  bytes_left_in_chunk :: size_t
  consume_trailer :: bool
  hex_count :: byte
  chunk_state :: chunked_state

definition decode_hex :: "byte \<Rightarrow> int" where
  "decode_hex ch =
     (if 48 \<le> ch \<and> ch \<le> 57 then uint ch - 48
      else if 65 \<le> ch \<and> ch \<le> 70 then uint ch - 65 + 10
      else if 97 \<le> ch \<and> ch \<le> 102 then uint ch - 97 + 10
      else - 1)"

text \<open>How a case of the switch ends: at a label, or in the next turn of the loop.\<close>

datatype chunk_jump = Goto_Exit int | Goto_Complete | Next_Turn

record chunk_vars =
  cv_decoder :: phr_chunked_decoder
  cv_buf :: "byte list"
  cv_dst :: nat
  cv_src :: nat

definition load_byte :: "byte list \<Rightarrow> nat \<Rightarrow> byte res" where
  "load_byte buf i = (if i < length buf then Inr (buf ! i) else Inl Out_Of_Bounds)"

text \<open>\<^verbatim>\<open>memmove(buf + dst, buf + src, n)\<close>, left out when the two are the same.\<close>

definition move_down :: "byte list \<Rightarrow> nat \<Rightarrow> nat \<Rightarrow> nat \<Rightarrow> byte list res" where
  "move_down buf dst src n =
     (if dst \<noteq> src then bind_res (mem_load buf src n) (mem_store buf dst) else Inr buf)"

text \<open>The loops that only look for a byte: the position of the first one that does not satisfy \<open>P\<close>.\<close>

function skip_while :: "(byte \<Rightarrow> bool) \<Rightarrow> byte list \<Rightarrow> nat \<Rightarrow> nat \<Rightarrow> nat option res" where
  "skip_while P buf bufsz src =
     (if \<not> src < bufsz then Inr None
      else bind_res (load_byte buf src) (\<lambda>b. if P b then skip_while P buf bufsz (Suc src) else Inr (Some src)))"
  by pat_completeness auto
termination
  by (relation "measure (\<lambda>(P, buf, bufsz, src). bufsz - src)") auto

declare skip_while.simps [simp del]

function chunk_size :: "nat \<Rightarrow> chunk_vars \<Rightarrow> (chunk_jump \<times> chunk_vars) res" where
  "chunk_size bufsz v =
     (let d = cv_decoder v
      in if \<not> cv_src v < bufsz then Inr (Goto_Exit (- 2), v)
         else bind_res (load_byte (cv_buf v) (cv_src v)) (\<lambda>b.
           let x = decode_hex b
           in if x = - 1 then
                (if hex_count d = 0 then Inr (Goto_Exit (- 1), v)
                 else Inr (Next_Turn, v\<lparr>cv_decoder := d\<lparr>hex_count := 0, chunk_state := CHUNKED_IN_CHUNK_EXT\<rparr>\<rparr>))
              else if hex_count d = 16 then Inr (Goto_Exit (- 1), v)
              else chunk_size bufsz
                (v\<lparr>cv_decoder := d\<lparr>bytes_left_in_chunk := bytes_left_in_chunk d * 16 + word_of_int x,
                                   hex_count := hex_count d + 1\<rparr>,
                   cv_src := Suc (cv_src v)\<rparr>)))"
  by pat_completeness auto
termination
  by (relation "measure (\<lambda>(bufsz, v). bufsz - cv_src v)") auto

declare chunk_size.simps [simp del]

definition chunk_ext :: "nat \<Rightarrow> chunk_vars \<Rightarrow> (chunk_jump \<times> chunk_vars) res" where
  "chunk_ext bufsz v =
     bind_res (skip_while (\<lambda>b. b \<noteq> 10) (cv_buf v) bufsz (cv_src v)) (\<lambda>r.
       case r of
         None \<Rightarrow> Inr (Goto_Exit (- 2), v\<lparr>cv_src := bufsz\<rparr>)
       | Some src \<Rightarrow>
           let v = v\<lparr>cv_src := Suc src\<rparr>; d = cv_decoder v
           in if bytes_left_in_chunk d = 0 then
                (if consume_trailer d then Inr (Next_Turn, v\<lparr>cv_decoder := d\<lparr>chunk_state := CHUNKED_IN_TRAILERS_LINE_HEAD\<rparr>\<rparr>)
                 else Inr (Goto_Complete, v))
              else Inr (Next_Turn, v\<lparr>cv_decoder := d\<lparr>chunk_state := CHUNKED_IN_CHUNK_DATA\<rparr>\<rparr>))"

definition chunk_data :: "nat \<Rightarrow> chunk_vars \<Rightarrow> (chunk_jump \<times> chunk_vars) res" where
  "chunk_data bufsz v =
     (let d = cv_decoder v; avail = bufsz - cv_src v; n = unat (bytes_left_in_chunk d)
      in if avail < n then
           bind_res (move_down (cv_buf v) (cv_dst v) (cv_src v) avail) (\<lambda>buf.
             Inr (Goto_Exit (- 2),
               v\<lparr>cv_buf := buf, cv_src := cv_src v + avail, cv_dst := cv_dst v + avail,
                 cv_decoder := d\<lparr>bytes_left_in_chunk := bytes_left_in_chunk d - of_nat avail\<rparr>\<rparr>))
         else
           bind_res (move_down (cv_buf v) (cv_dst v) (cv_src v) n) (\<lambda>buf.
             Inr (Next_Turn,
               v\<lparr>cv_buf := buf, cv_src := cv_src v + n, cv_dst := cv_dst v + n,
                 cv_decoder := d\<lparr>bytes_left_in_chunk := 0, chunk_state := CHUNKED_IN_CHUNK_CRLF\<rparr>\<rparr>)))"

definition chunk_crlf :: "nat \<Rightarrow> chunk_vars \<Rightarrow> (chunk_jump \<times> chunk_vars) res" where
  "chunk_crlf bufsz v =
     bind_res (skip_while (\<lambda>b. b = 13) (cv_buf v) bufsz (cv_src v)) (\<lambda>r.
       case r of
         None \<Rightarrow> Inr (Goto_Exit (- 2), v\<lparr>cv_src := bufsz\<rparr>)
       | Some src \<Rightarrow>
           bind_res (load_byte (cv_buf v) src) (\<lambda>b.
             if b \<noteq> 10 then Inr (Goto_Exit (- 1), v\<lparr>cv_src := src\<rparr>)
             else Inr (Next_Turn, v\<lparr>cv_src := Suc src, cv_decoder := (cv_decoder v)\<lparr>chunk_state := CHUNKED_IN_CHUNK_SIZE\<rparr>\<rparr>)))"

definition trailers_line_head :: "nat \<Rightarrow> chunk_vars \<Rightarrow> (chunk_jump \<times> chunk_vars) res" where
  "trailers_line_head bufsz v =
     bind_res (skip_while (\<lambda>b. b = 13) (cv_buf v) bufsz (cv_src v)) (\<lambda>r.
       case r of
         None \<Rightarrow> Inr (Goto_Exit (- 2), v\<lparr>cv_src := bufsz\<rparr>)
       | Some src \<Rightarrow>
           bind_res (load_byte (cv_buf v) src) (\<lambda>b.
             let v = v\<lparr>cv_src := Suc src\<rparr>
             in if b = 10 then Inr (Goto_Complete, v)
                else Inr (Next_Turn, v\<lparr>cv_decoder := (cv_decoder v)\<lparr>chunk_state := CHUNKED_IN_TRAILERS_LINE_MIDDLE\<rparr>\<rparr>)))"

definition trailers_line_middle :: "nat \<Rightarrow> chunk_vars \<Rightarrow> (chunk_jump \<times> chunk_vars) res" where
  "trailers_line_middle bufsz v =
     bind_res (skip_while (\<lambda>b. b \<noteq> 10) (cv_buf v) bufsz (cv_src v)) (\<lambda>r.
       case r of
         None \<Rightarrow> Inr (Goto_Exit (- 2), v\<lparr>cv_src := bufsz\<rparr>)
       | Some src \<Rightarrow> Inr (Next_Turn,
           v\<lparr>cv_src := Suc src, cv_decoder := (cv_decoder v)\<lparr>chunk_state := CHUNKED_IN_TRAILERS_LINE_HEAD\<rparr>\<rparr>))"

definition chunk_case :: "nat \<Rightarrow> chunk_vars \<Rightarrow> (chunk_jump \<times> chunk_vars) res" where
  "chunk_case bufsz v =
     (case chunk_state (cv_decoder v) of
        CHUNKED_IN_CHUNK_SIZE \<Rightarrow> chunk_size bufsz v
      | CHUNKED_IN_CHUNK_EXT \<Rightarrow> chunk_ext bufsz v
      | CHUNKED_IN_CHUNK_DATA \<Rightarrow> chunk_data bufsz v
      | CHUNKED_IN_CHUNK_CRLF \<Rightarrow> chunk_crlf bufsz v
      | CHUNKED_IN_TRAILERS_LINE_HEAD \<Rightarrow> trailers_line_head bufsz v
      | CHUNKED_IN_TRAILERS_LINE_MIDDLE \<Rightarrow> trailers_line_middle bufsz v)"

text \<open>
  The loop ends: a turn that goes on has consumed a byte or moved from the size to the
  extension or from the data to the line end behind it.
\<close>

fun state_rank :: "chunked_state \<Rightarrow> nat" where
  "state_rank CHUNKED_IN_CHUNK_SIZE = 1"
| "state_rank CHUNKED_IN_CHUNK_DATA = 1"
| "state_rank _ = 0"

lemma skip_while_bounds: "skip_while P buf bufsz src = Inr (Some i) \<Longrightarrow> src \<le> i \<and> i < bufsz \<and> i < length buf \<and> \<not> P (buf ! i)"
proof (induction P buf bufsz src rule: skip_while.induct)
  case (1 P buf bufsz src)
  then show ?case
    by (fastforce simp: skip_while.simps [of P buf bufsz src] load_byte_def split: if_splits)
qed

lemma chunk_size_next:
  "chunk_size bufsz v = Inr (Next_Turn, v') \<Longrightarrow> cv_src v \<le> cv_src v' \<and> cv_src v' < bufsz \<and>
     chunk_state (cv_decoder v') = CHUNKED_IN_CHUNK_EXT"
proof (induction bufsz v rule: chunk_size.induct)
  case (1 bufsz v)
  show ?case
    using "1.prems" "1.IH"
    by (subst (asm) chunk_size.simps) (fastforce simp: Let_def res_simps load_byte_def dest: Suc_leD split: if_splits)
qed

lemma chunk_case_decreases:
  assumes "chunk_case bufsz v = Inr (Next_Turn, v')"
  shows "2 * (bufsz - cv_src v') + state_rank (chunk_state (cv_decoder v')) <
     2 * (bufsz - cv_src v) + state_rank (chunk_state (cv_decoder v))"
proof (cases "chunk_state (cv_decoder v)")
  case CHUNKED_IN_CHUNK_SIZE
  then show ?thesis using assms chunk_size_next [of bufsz v v'] by (auto simp: chunk_case_def)
next
  case CHUNKED_IN_CHUNK_DATA
  then show ?thesis
    using assms by (auto simp: chunk_case_def chunk_data_def Let_def res_simps split: if_splits)
qed (use assms in \<open>auto simp: chunk_case_def chunk_ext_def chunk_crlf_def trailers_line_head_def trailers_line_middle_def
      Let_def res_simps dest!: skip_while_bounds split: option.splits if_splits\<close>)

function chunk_loop :: "nat \<Rightarrow> chunk_vars \<Rightarrow> (int \<times> chunk_vars) res" where
  "chunk_loop bufsz v =
     (case chunk_case bufsz v of
        Inl e \<Rightarrow> Inl e
      | Inr (Goto_Exit r, v) \<Rightarrow> Inr (r, v)
      | Inr (Goto_Complete, v) \<Rightarrow> Inr (int (bufsz - cv_src v), v)
      | Inr (Next_Turn, v) \<Rightarrow> chunk_loop bufsz v)"
  by pat_completeness auto
termination
  by (relation "measure (\<lambda>(bufsz, v). 2 * (bufsz - cv_src v) + state_rank (chunk_state (cv_decoder v)))")
    (auto dest!: chunk_case_decreases)

declare chunk_loop.simps [simp del]

definition phr_decode_chunked ::
  "phr_chunked_decoder \<Rightarrow> byte list \<Rightarrow> size_t \<Rightarrow> (int \<times> phr_chunked_decoder \<times> byte list \<times> size_t) res" where
  "phr_decode_chunked decoder buf bufsz =
     bind_res (chunk_loop (unat bufsz) \<lparr>cv_decoder = decoder, cv_buf = buf, cv_dst = 0, cv_src = 0\<rparr>) (\<lambda>(ret, v).
     bind_res (move_down (cv_buf v) (cv_dst v) (cv_src v) (unat bufsz - cv_src v)) (\<lambda>buf.
       Inr (ret, cv_decoder v, buf, of_nat (cv_dst v))))"

definition phr_decode_chunked_is_in_data :: "phr_chunked_decoder \<Rightarrow> bool" where
  "phr_decode_chunked_is_in_data decoder \<longleftrightarrow> chunk_state decoder = CHUNKED_IN_CHUNK_DATA"

section \<open>The reference: one byte at a time\<close>

datatype byte_outcome = Byte_Error | Byte_Complete phr_chunked_decoder | Byte_Next phr_chunked_decoder "byte list"

definition ext_byte :: "phr_chunked_decoder \<Rightarrow> byte \<Rightarrow> byte_outcome" where
  "ext_byte d b =
     (if b \<noteq> 10 then Byte_Next d []
      else if bytes_left_in_chunk d \<noteq> 0 then Byte_Next (d\<lparr>chunk_state := CHUNKED_IN_CHUNK_DATA\<rparr>) []
      else if consume_trailer d then Byte_Next (d\<lparr>chunk_state := CHUNKED_IN_TRAILERS_LINE_HEAD\<rparr>) []
      else Byte_Complete d)"

definition chunk_byte :: "phr_chunked_decoder \<Rightarrow> byte \<Rightarrow> byte_outcome" where
  "chunk_byte d b =
     (case chunk_state d of
        CHUNKED_IN_CHUNK_SIZE \<Rightarrow>
          if decode_hex b = - 1 then
            (if hex_count d = 0 then Byte_Error else ext_byte (d\<lparr>hex_count := 0, chunk_state := CHUNKED_IN_CHUNK_EXT\<rparr>) b)
          else if hex_count d = 16 then Byte_Error
          else Byte_Next (d\<lparr>bytes_left_in_chunk := bytes_left_in_chunk d * 16 + word_of_int (decode_hex b),
                            hex_count := hex_count d + 1\<rparr>) []
      | CHUNKED_IN_CHUNK_EXT \<Rightarrow> ext_byte d b
      | CHUNKED_IN_CHUNK_DATA \<Rightarrow>
          Byte_Next (d\<lparr>bytes_left_in_chunk := bytes_left_in_chunk d - 1,
                       chunk_state := if bytes_left_in_chunk d = 1 then CHUNKED_IN_CHUNK_CRLF else CHUNKED_IN_CHUNK_DATA\<rparr>) [b]
      | CHUNKED_IN_CHUNK_CRLF \<Rightarrow>
          if b = 13 then Byte_Next d []
          else if b = 10 then Byte_Next (d\<lparr>chunk_state := CHUNKED_IN_CHUNK_SIZE\<rparr>) [] else Byte_Error
      | CHUNKED_IN_TRAILERS_LINE_HEAD \<Rightarrow>
          if b = 13 then Byte_Next d []
          else if b = 10 then Byte_Complete d else Byte_Next (d\<lparr>chunk_state := CHUNKED_IN_TRAILERS_LINE_MIDDLE\<rparr>) []
      | CHUNKED_IN_TRAILERS_LINE_MIDDLE \<Rightarrow>
          if b = 10 then Byte_Next (d\<lparr>chunk_state := CHUNKED_IN_TRAILERS_LINE_HEAD\<rparr>) [] else Byte_Next d [])"

text \<open>The result, the decoder, the decoded bytes and the bytes not consumed.\<close>

type_synonym chunk_run = "int \<times> phr_chunked_decoder \<times> byte list \<times> byte list"

definition add_out :: "byte list \<Rightarrow> chunk_run \<Rightarrow> chunk_run" where
  "add_out xs r = (case r of (ret, d, ys, rest) \<Rightarrow> (ret, d, xs @ ys, rest))"

fun chunk_run :: "phr_chunked_decoder \<Rightarrow> byte list \<Rightarrow> chunk_run" where
  "chunk_run d [] = (- 2, d, [], [])"
| "chunk_run d (b # bs) =
     (case chunk_byte d b of
        Byte_Error \<Rightarrow> (- 1, d, [], b # bs)
      | Byte_Complete d' \<Rightarrow> (int (length bs), d', [], bs)
      | Byte_Next d' xs \<Rightarrow> add_out xs (chunk_run d' bs))"

lemma add_out_simps [simp]:
  "add_out xs (ret, d, ys, rest) = (ret, d, xs @ ys, rest)" "add_out [] r = r" "add_out xs (add_out ys r) = add_out (xs @ ys) r"
  by (simp_all add: add_out_def case_prod_beta)

definition decoder_ok :: "phr_chunked_decoder \<Rightarrow> bool" where
  "decoder_ok d \<longleftrightarrow> (chunk_state d = CHUNKED_IN_CHUNK_DATA \<longrightarrow> bytes_left_in_chunk d \<noteq> 0)"

lemma chunk_run_skip: "\<forall>b\<in>set xs. chunk_byte d b = Byte_Next d [] \<Longrightarrow> chunk_run d (xs @ ys) = chunk_run d ys"
  by (induction xs) auto

lemma chunk_run_data:
  "\<lbrakk>chunk_state d = CHUNKED_IN_CHUNK_DATA; bytes_left_in_chunk d \<noteq> 0; k \<le> length bs; k \<le> unat (bytes_left_in_chunk d)\<rbrakk> \<Longrightarrow>
     chunk_run d bs = add_out (take k bs) (chunk_run
       (d\<lparr>bytes_left_in_chunk := bytes_left_in_chunk d - of_nat k,
          chunk_state := if k = unat (bytes_left_in_chunk d) then CHUNKED_IN_CHUNK_CRLF else CHUNKED_IN_CHUNK_DATA\<rparr>) (drop k bs))"
proof (induction k arbitrary: d bs)
  case 0
  have "0 \<noteq> unat (bytes_left_in_chunk d)" using "0.prems"(2) by (metis unat_eq_0)
  moreover have "d\<lparr>chunk_state := CHUNKED_IN_CHUNK_DATA\<rparr> = d" using "0.prems"(1) by simp
  ultimately show ?case by simp
next
  case (Suc k)
  let ?l = "bytes_left_in_chunk d"
  obtain b bs' where bs: "bs = b # bs'" using Suc.prems(3) by (cases bs) auto
  have l: "unat (?l - 1) = unat ?l - 1" using Suc.prems(2) by (simp add: unat_minus_one)
  have one: "?l = 1 \<longleftrightarrow> unat ?l = 1" by (metis unat_1 word_unat_eq_iff)
  show ?case
  proof (cases "?l = 1")
    case True
    then show ?thesis using Suc.prems bs by (simp add: chunk_byte_def)
  next
    case False
    let ?d = "d\<lparr>bytes_left_in_chunk := ?l - 1, chunk_state := CHUNKED_IN_CHUNK_DATA\<rparr>"
    have "?l - 1 \<noteq> 0" using False by simp
    moreover have "k \<le> unat (?l - 1)" "k = unat (?l - 1) \<longleftrightarrow> Suc k = unat ?l" using Suc.prems(2,4) l by (auto simp: unat_gt_0)
    ultimately show ?thesis
      using Suc.IH [of ?d bs'] Suc.prems(1,3) False bs by (simp add: chunk_byte_def algebra_simps)
  qed
qed

section \<open>The loop follows the automaton\<close>

definition chunk_ok :: "nat \<Rightarrow> chunk_vars \<Rightarrow> bool" where
  "chunk_ok bufsz v \<longleftrightarrow> cv_dst v \<le> cv_src v \<and> cv_src v \<le> bufsz \<and> bufsz \<le> length (cv_buf v) \<and> decoder_ok (cv_decoder v)"

definition unread :: "nat \<Rightarrow> chunk_vars \<Rightarrow> byte list" where
  "unread bufsz v = drop (cv_src v) (take bufsz (cv_buf v))"

definition decoded :: "chunk_vars \<Rightarrow> byte list" where
  "decoded v = take (cv_dst v) (cv_buf v)"

definition case_ok :: "nat \<Rightarrow> chunk_vars \<Rightarrow> (chunk_jump \<times> chunk_vars) res \<Rightarrow> bool" where
  "case_ok bufsz v r \<longleftrightarrow> (\<exists>j v' out. r = Inr (j, v') \<and> chunk_ok bufsz v' \<and> length (cv_buf v') = length (cv_buf v) \<and>
     decoded v' = decoded v @ out \<and>
     chunk_run (cv_decoder v) (unread bufsz v) =
       (case j of
          Goto_Exit n \<Rightarrow> (n, cv_decoder v', out, unread bufsz v')
        | Goto_Complete \<Rightarrow> (int (bufsz - cv_src v'), cv_decoder v', out, unread bufsz v')
        | Next_Turn \<Rightarrow> add_out out (chunk_run (cv_decoder v') (unread bufsz v'))))"

lemma load_byte_eq: "i < length buf \<Longrightarrow> load_byte buf i = Inr (buf ! i)"
  by (simp add: load_byte_def)

lemma unread_at:
  "\<lbrakk>i < bufsz; i < length (cv_buf v)\<rbrakk> \<Longrightarrow> drop i (take bufsz (cv_buf v)) = cv_buf v ! i # unread bufsz (v\<lparr>cv_src := Suc i\<rparr>)"
  by (simp add: unread_def Cons_nth_drop_Suc [symmetric])

lemma unread_Cons:
  "\<lbrakk>chunk_ok bufsz v; cv_src v < bufsz\<rbrakk> \<Longrightarrow> unread bufsz v = cv_buf v ! cv_src v # unread bufsz (v\<lparr>cv_src := Suc (cv_src v)\<rparr>)"
  using unread_at [of "cv_src v" bufsz v] by (simp add: unread_def chunk_ok_def)

lemma skip_while_result:
  assumes "src \<le> bufsz" and "bufsz \<le> length buf" and "r = drop src (take bufsz buf)"
  shows "skip_while P buf bufsz src = Inr (if dropWhile P r = [] then None else Some (src + length (takeWhile P r)))"
  using assms
proof (induction P buf bufsz src arbitrary: r rule: skip_while.induct)
  case (1 P buf bufsz src)
  show ?case
  proof (cases "src < bufsz")
    case True
    let ?r' = "drop (Suc src) (take bufsz buf)"
    have r: "r = buf ! src # ?r'" using "1.prems" True by (simp add: Cons_nth_drop_Suc [symmetric])
    have len: "src < length buf" using True "1.prems"(2) by simp
    have IH: "skip_while P buf bufsz (Suc src) =
        Inr (if dropWhile P ?r' = [] then None else Some (Suc src + length (takeWhile P ?r')))" if "P (buf ! src)"
      using "1.IH" [of "buf ! src" ?r'] that True "1.prems"(2) len by (simp add: load_byte_eq del: dropWhile_eq_Nil_conv)
    show ?thesis
      unfolding r using True len IH
      by (subst skip_while.simps) (simp add: load_byte_eq del: dropWhile_eq_Nil_conv)
  next
    case False
    then show ?thesis using "1.prems" by (subst skip_while.simps) simp
  qed
qed

text \<open>What the searching cases share: nothing is found, or the automaton stands before the byte found.\<close>

lemma skip_cases:
  assumes ok: "chunk_ok bufsz v" and stay: "\<forall>b. P b \<longrightarrow> chunk_byte (cv_decoder v) b = Byte_Next (cv_decoder v) []"
  obtains (none) "skip_while P (cv_buf v) bufsz (cv_src v) = Inr None"
      "chunk_run (cv_decoder v) (unread bufsz v) = (- 2, cv_decoder v, [], [])"
    | (found) i where "skip_while P (cv_buf v) bufsz (cv_src v) = Inr (Some i)" "cv_src v \<le> i" "i < bufsz" "\<not> P (cv_buf v ! i)"
      "chunk_run (cv_decoder v) (unread bufsz v) = chunk_run (cv_decoder v) (cv_buf v ! i # unread bufsz (v\<lparr>cv_src := Suc i\<rparr>))"
proof -
  let ?r = "unread bufsz v" and ?n = "length (takeWhile P (unread bufsz v))"
  have run: "chunk_run (cv_decoder v) ?r = chunk_run (cv_decoder v) (dropWhile P ?r)"
    using chunk_run_skip [of "takeWhile P ?r" "cv_decoder v" "dropWhile P ?r"] stay set_takeWhileD by fastforce
  have b: "cv_src v \<le> bufsz" "bufsz \<le> length (cv_buf v)" using ok by (simp_all add: chunk_ok_def)
  have sk: "skip_while P (cv_buf v) bufsz (cv_src v) = Inr (if dropWhile P ?r = [] then None else Some (cv_src v + ?n))"
    by (rule skip_while_result [OF b unread_def])
  show thesis
  proof (cases "dropWhile P ?r = []")
    case True
    then show thesis using none run [unfolded True] sk [unfolded True] by simp
  next
    case False
    let ?i = "cv_src v + ?n"
    from sk False have s: "skip_while P (cv_buf v) bufsz (cv_src v) = Inr (Some ?i)" by simp
    note i = skip_while_bounds [OF s]
    have "dropWhile P ?r = drop ?n ?r" by (rule dropWhile_eq_drop)
    also have "\<dots> = drop ?i (take bufsz (cv_buf v))" by (simp add: unread_def add.commute)
    also have "\<dots> = cv_buf v ! ?i # unread bufsz (v\<lparr>cv_src := Suc ?i\<rparr>)"
      using unread_at [of ?i bufsz v] i by blast
    finally show thesis using found [OF s] i run by simp
  qed
qed

lemma skipped_ok:
  assumes "chunk_ok bufsz v" and "cv_src v \<le> i" and "i \<le> bufsz" and "decoder_ok d"
  shows "chunk_ok bufsz (v\<lparr>cv_src := i, cv_decoder := d\<rparr>)" "chunk_ok bufsz (v\<lparr>cv_src := i\<rparr>)"
  using assms by (simp_all add: chunk_ok_def)

lemma unread_end: "chunk_ok bufsz v \<Longrightarrow> unread bufsz (v\<lparr>cv_src := bufsz\<rparr>) = []"
  by (simp add: unread_def)

lemmas case_defs = chunk_case_def chunk_ext_def chunk_crlf_def trailers_line_head_def trailers_line_middle_def Let_def

lemma searching_case:
  assumes ok: "chunk_ok bufsz v"
    and st: "chunk_state (cv_decoder v) \<in> {CHUNKED_IN_CHUNK_EXT, CHUNKED_IN_CHUNK_CRLF, CHUNKED_IN_TRAILERS_LINE_HEAD,
       CHUNKED_IN_TRAILERS_LINE_MIDDLE}"
  shows "case_ok bufsz v (chunk_case bufsz v)"
proof -
  let ?d = "cv_decoder v"
  define P where "P = (if chunk_state ?d \<in> {CHUNKED_IN_CHUNK_EXT, CHUNKED_IN_TRAILERS_LINE_MIDDLE} then (\<lambda>b :: byte. b \<noteq> 10) else (\<lambda>b. b = 13))"
  have d: "decoder_ok ?d" using ok by (simp add: chunk_ok_def)
  have stay: "\<forall>b. P b \<longrightarrow> chunk_byte ?d b = Byte_Next ?d []"
    using st by (auto simp: P_def chunk_byte_def ext_byte_def)
  from ok stay show ?thesis
  proof (cases rule: skip_cases [of bufsz v P])
    case none
    then have "chunk_case bufsz v = Inr (Goto_Exit (- 2), v\<lparr>cv_src := bufsz\<rparr>)" using st by (auto simp: case_defs P_def)
    then show ?thesis
      using none(2) skipped_ok(2) [OF ok _ order_refl d] ok unread_end [OF ok] by (simp add: case_ok_def chunk_ok_def decoded_def)
  next
    case (found i)
    have i: "i < length (cv_buf v)" "Suc i \<le> bufsz" "cv_src v \<le> Suc i" using found(2,3) ok by (simp_all add: chunk_ok_def)
    have min: "min (length (cv_buf v)) bufsz = bufsz" using ok by (simp add: chunk_ok_def)
    note sk = skipped_ok [OF ok]
    show ?thesis
    proof (cases "chunk_state ?d = CHUNKED_IN_CHUNK_CRLF \<and> cv_buf v ! i \<noteq> 10")
      case True
      then have "chunk_case bufsz v = Inr (Goto_Exit (- 1), v\<lparr>cv_src := i\<rparr>)" "cv_buf v ! i \<noteq> 13"
        using found(1,4) i by (simp_all add: case_defs P_def load_byte_eq)
      moreover have "unread bufsz (v\<lparr>cv_src := i\<rparr>) = cv_buf v ! i # unread bufsz (v\<lparr>cv_src := Suc i\<rparr>)"
        using unread_at [of i bufsz v] found(3) i(1) by (simp add: unread_def)
      ultimately show ?thesis
        using found(5) True sk(2) [OF found(2) _ d] found(3) by (simp add: case_ok_def chunk_byte_def decoded_def)
    next
      case False
      then show ?thesis
        using found(1,4,5) st i sk(1) [OF i(3,2)] sk(2) [OF i(3,2) d] min
        by (elim insertE emptyE)
          (auto simp: case_defs P_def load_byte_eq case_ok_def chunk_byte_def ext_byte_def decoded_def decoder_ok_def unread_def
            split: if_splits)
    qed
  qed
qed

lemma size_case:
  "\<lbrakk>chunk_ok bufsz v; chunk_state (cv_decoder v) = CHUNKED_IN_CHUNK_SIZE\<rbrakk> \<Longrightarrow> case_ok bufsz v (chunk_size bufsz v)"
proof (induction bufsz v rule: chunk_size.induct)
  case (1 bufsz v)
  let ?d = "cv_decoder v" and ?b = "cv_buf v ! cv_src v"
  show ?case
  proof (cases "cv_src v < bufsz")
    case False
    then have "chunk_size bufsz v = Inr (Goto_Exit (- 2), v)" "unread bufsz v = []"
      by (simp_all add: chunk_size.simps [of bufsz v] unread_def)
    then show ?thesis using "1.prems"(1) by (simp add: case_ok_def)
  next
    case True
    have len: "cv_src v < length (cv_buf v)" using True "1.prems"(1) by (simp add: chunk_ok_def)
    note u = unread_Cons [OF "1.prems"(1) True]
    show ?thesis
    proof (cases "decode_hex ?b = - 1")
      case nohex: True
      show ?thesis
      proof (cases "hex_count ?d = 0")
        case True
        then have "chunk_size bufsz v = Inr (Goto_Exit (- 1), v)"
          using nohex \<open>cv_src v < bufsz\<close> len by (simp add: chunk_size.simps [of bufsz v] load_byte_eq)
        then show ?thesis using "1.prems" nohex True u by (simp add: case_ok_def chunk_byte_def)
      next
        case False
        let ?d' = "?d\<lparr>hex_count := 0, chunk_state := CHUNKED_IN_CHUNK_EXT\<rparr>"
        have "chunk_size bufsz v = Inr (Next_Turn, v\<lparr>cv_decoder := ?d'\<rparr>)"
          using nohex False \<open>cv_src v < bufsz\<close> len by (simp add: chunk_size.simps [of bufsz v] load_byte_eq)
        moreover have "chunk_ok bufsz (v\<lparr>cv_decoder := ?d'\<rparr>)" using "1.prems"(1) by (simp add: chunk_ok_def decoder_ok_def)
        moreover have "chunk_byte ?d ?b = chunk_byte ?d' ?b" using "1.prems"(2) nohex False by (simp add: chunk_byte_def)
        moreover have "unread bufsz (v\<lparr>cv_decoder := ?d'\<rparr>) = unread bufsz v" by (simp add: unread_def)
        ultimately show ?thesis
          using "1.prems"(2) nohex False u by (simp add: case_ok_def decoded_def chunk_byte_def ext_byte_def split: byte_outcome.splits)
      qed
    next
      case hex: False
      show ?thesis
      proof (cases "hex_count ?d = 16")
        case True
        then have "chunk_size bufsz v = Inr (Goto_Exit (- 1), v)"
          using hex \<open>cv_src v < bufsz\<close> len by (simp add: chunk_size.simps [of bufsz v] load_byte_eq)
        then show ?thesis using "1.prems" hex True u by (simp add: case_ok_def chunk_byte_def)
      next
        case False
        let ?d' = "?d\<lparr>bytes_left_in_chunk := bytes_left_in_chunk ?d * 16 + word_of_int (decode_hex ?b), hex_count := hex_count ?d + 1\<rparr>"
        let ?v = "v\<lparr>cv_decoder := ?d', cv_src := Suc (cv_src v)\<rparr>"
        have "chunk_size bufsz v = chunk_size bufsz ?v"
          using hex False \<open>cv_src v < bufsz\<close> len by (simp add: chunk_size.simps [of bufsz v] load_byte_eq Let_def)
        moreover have "chunk_ok bufsz ?v" using "1.prems" True by (simp add: chunk_ok_def decoder_ok_def)
        then have "case_ok bufsz ?v (chunk_size bufsz ?v)"
          using "1.IH" [OF refl _ _ refl hex False] \<open>cv_src v < bufsz\<close> len "1.prems"(2) by (simp add: load_byte_eq)
        moreover have "chunk_run ?d (unread bufsz v) = chunk_run ?d' (unread bufsz ?v)"
          using "1.prems"(2) hex False u by (simp add: chunk_byte_def unread_def)
        ultimately show ?thesis by (simp add: case_ok_def decoded_def)
      qed
    qed
  qed
qed

lemma move_down_result:
  assumes "dst \<le> src" and "src + n \<le> length buf"
  obtains buf' where "move_down buf dst src n = Inr buf'" "length buf' = length buf"
    "take (dst + n) buf' = take dst buf @ take n (drop src buf)" "drop (src + n) buf' = drop (src + n) buf"
proof (cases "dst = src")
  case True
  then show thesis using that [of buf] by (simp add: move_down_def take_add)
next
  case False
  let ?bs = "take n (drop src buf)"
  have len: "length ?bs = n" using assms(2) by simp
  have "move_down buf dst src n = Inr (overwrite buf dst ?bs)"
    using False assms by (simp add: move_down_def mem_load_def mem_store_def)
  moreover have "length (overwrite buf dst ?bs) = length buf" using assms by (intro length_overwrite) simp
  moreover have "take (dst + n) (overwrite buf dst ?bs) = take dst buf @ ?bs"
    using take_overwrite_add [of dst buf ?bs] assms len by simp
  moreover have "drop (src + n) (overwrite buf dst ?bs) = drop (src + n) buf"
    using assms len by (simp add: overwrite_def)
  ultimately show thesis using that by blast
qed

lemma data_case:
  assumes ok: "chunk_ok bufsz v" and st: "chunk_state (cv_decoder v) = CHUNKED_IN_CHUNK_DATA" and sz: "bufsz < 2 ^ 64"
  shows "case_ok bufsz v (chunk_data bufsz v)"
proof -
  let ?d = "cv_decoder v" and ?avail = "bufsz - cv_src v" and ?n = "unat (bytes_left_in_chunk (cv_decoder v))"
  define k where "k = min ?avail ?n"
  have b: "cv_dst v \<le> cv_src v" "cv_src v + k \<le> bufsz" "bufsz \<le> length (cv_buf v)" "bytes_left_in_chunk ?d \<noteq> 0"
    using ok st by (auto simp: chunk_ok_def decoder_ok_def k_def)
  have le: "cv_src v + k \<le> length (cv_buf v)" using b(2,3) by simp
  obtain buf where m: "move_down (cv_buf v) (cv_dst v) (cv_src v) k = Inr buf" "length buf = length (cv_buf v)"
      "take (cv_dst v + k) buf = take (cv_dst v) (cv_buf v) @ take k (drop (cv_src v) (cv_buf v))"
      "drop (cv_src v + k) buf = drop (cv_src v + k) (cv_buf v)"
    using move_down_result [OF b(1) le] by blast
  let ?d' = "?d\<lparr>bytes_left_in_chunk := bytes_left_in_chunk ?d - of_nat k,
      chunk_state := if k = ?n then CHUNKED_IN_CHUNK_CRLF else CHUNKED_IN_CHUNK_DATA\<rparr>"
  let ?v = "v\<lparr>cv_buf := buf, cv_src := cv_src v + k, cv_dst := cv_dst v + k, cv_decoder := ?d'\<rparr>"
  have k: "k \<le> ?n" "k \<le> length (unread bufsz v)" using b by (auto simp: k_def unread_def)
  have run: "chunk_run ?d (unread bufsz v) = add_out (take k (unread bufsz v)) (chunk_run ?d' (drop k (unread bufsz v)))"
    using chunk_run_data [OF st b(4) k(2,1)] .
  have u: "unread bufsz ?v = drop k (unread bufsz v)"
    using m(4) by (simp add: unread_def drop_take add.commute)
  have dec: "decoded ?v = decoded v @ take k (unread bufsz v)"
    using m(3) b(2) by (simp add: decoded_def unread_def take_drop min_def)
  have left: "k \<noteq> ?n \<Longrightarrow> bytes_left_in_chunk ?d - of_nat k \<noteq> 0" using k(1) sz b(2) by auto
  have ok': "chunk_ok bufsz ?v" using b m(2) left by (simp add: chunk_ok_def decoder_ok_def)
  show ?thesis
  proof (cases "?avail < ?n")
    case True
    then have kk: "k = ?avail" "k \<noteq> ?n" by (simp_all add: k_def)
    have "drop k (unread bufsz v) = []" using kk b by (simp add: unread_def)
    moreover have "?d\<lparr>bytes_left_in_chunk := x, chunk_state := CHUNKED_IN_CHUNK_DATA\<rparr> = ?d\<lparr>bytes_left_in_chunk := x\<rparr>" for x
      using st by (cases ?d) simp
    then have "chunk_data bufsz v = Inr (Goto_Exit (- 2), ?v)"
      using True m(1) kk by (simp add: chunk_data_def Let_def)
    ultimately show ?thesis using ok' m(2) dec run u kk by (auto simp: case_ok_def)
  next
    case False
    then have kk: "k = ?n" by (simp add: k_def)
    have "chunk_data bufsz v = Inr (Next_Turn, ?v)" using False m(1) kk by (simp add: chunk_data_def Let_def)
    then show ?thesis using ok' m(2) dec run u by (auto simp: case_ok_def)
  qed
qed

lemma chunk_case_ok: "\<lbrakk>chunk_ok bufsz v; bufsz < 2 ^ 64\<rbrakk> \<Longrightarrow> case_ok bufsz v (chunk_case bufsz v)"
  using searching_case [of bufsz v] size_case [of bufsz v] data_case [of bufsz v]
  by (cases "chunk_state (cv_decoder v)") (simp_all add: chunk_case_def)

lemma chunk_loop_result:
  "\<lbrakk>chunk_ok bufsz v; bufsz < 2 ^ 64\<rbrakk> \<Longrightarrow> \<exists>ret v' out. chunk_loop bufsz v = Inr (ret, v') \<and> chunk_ok bufsz v' \<and>
     length (cv_buf v') = length (cv_buf v) \<and> decoded v' = decoded v @ out \<and>
     chunk_run (cv_decoder v) (unread bufsz v) = (ret, cv_decoder v', out, unread bufsz v')"
proof (induction bufsz v rule: chunk_loop.induct)
  case (1 bufsz v)
  obtain j v1 out where c: "chunk_case bufsz v = Inr (j, v1)" "chunk_ok bufsz v1" "length (cv_buf v1) = length (cv_buf v)"
      "decoded v1 = decoded v @ out"
      "chunk_run (cv_decoder v) (unread bufsz v) =
       (case j of
          Goto_Exit n \<Rightarrow> (n, cv_decoder v1, out, unread bufsz v1)
        | Goto_Complete \<Rightarrow> (int (bufsz - cv_src v1), cv_decoder v1, out, unread bufsz v1)
        | Next_Turn \<Rightarrow> add_out out (chunk_run (cv_decoder v1) (unread bufsz v1)))"
    using chunk_case_ok [OF "1.prems"] unfolding case_ok_def by blast
  show ?case
  proof (cases j)
    case Next_Turn
    then obtain ret v' out' where "chunk_loop bufsz v1 = Inr (ret, v')" "chunk_ok bufsz v'"
        "length (cv_buf v') = length (cv_buf v1)" "decoded v' = decoded v1 @ out'"
        "chunk_run (cv_decoder v1) (unread bufsz v1) = (ret, cv_decoder v', out', unread bufsz v')"
      using "1.IH" [OF c(1) refl Next_Turn c(2) "1.prems"(2)] by blast
    then show ?thesis using c Next_Turn by (simp add: chunk_loop.simps [of bufsz v])
  qed (use c in \<open>simp_all add: chunk_loop.simps [of bufsz v]\<close>)
qed

lemma phr_decode_chunked_result:
  assumes "decoder_ok d" and "unat bufsz \<le> length buf" and run: "chunk_run d (take (unat bufsz) buf) = (ret, d', out, rest)"
  shows "\<exists>buf'. phr_decode_chunked d buf bufsz = Inr (ret, d', buf', of_nat (length out)) \<and> length buf' = length buf \<and>
     take (length out + length rest) buf' = out @ rest"
proof -
  let ?v = "\<lparr>cv_decoder = d, cv_buf = buf, cv_dst = 0, cv_src = 0\<rparr>" and ?n = "unat bufsz"
  have ok: "chunk_ok ?n ?v" "unread ?n ?v = take ?n buf" "decoded ?v = []" "?n < 2 ^ 64"
    using assms(1,2) by (simp_all add: chunk_ok_def unread_def decoded_def)
  obtain v where v: "chunk_loop ?n ?v = Inr (ret, v)" "chunk_ok ?n v" "length (cv_buf v) = length buf" "decoded v = out"
      "cv_decoder v = d'" "unread ?n v = rest"
    using chunk_loop_result [OF ok(1,4)] ok(2,3) run by auto
  have b: "cv_dst v \<le> cv_src v" "cv_src v + (?n - cv_src v) = ?n" "?n \<le> length (cv_buf v)" using v(2) by (simp_all add: chunk_ok_def)
  then have dst: "cv_dst v = length out" using v(4) by (auto simp: decoded_def)
  have r: "rest = take (?n - cv_src v) (drop (cv_src v) (cv_buf v))" using v(6) by (simp add: unread_def drop_take)
  have le: "cv_src v + (?n - cv_src v) \<le> length (cv_buf v)" using b(2,3) by simp
  obtain buf' where m: "move_down (cv_buf v) (cv_dst v) (cv_src v) (?n - cv_src v) = Inr buf'" "length buf' = length (cv_buf v)"
      "take (cv_dst v + (?n - cv_src v)) buf' = take (cv_dst v) (cv_buf v) @ rest"
    using move_down_result [OF b(1) le] r by blast
  have "length rest = ?n - cv_src v" using r b(2,3) by simp
  then have "take (length out + length rest) buf' = out @ rest" using m(3) v(4) dst by (simp add: decoded_def)
  then show ?thesis using v(1,3,5) m(1,2) dst by (simp add: phr_decode_chunked_def)
qed

section \<open>Input in pieces\<close>

lemma chunk_run_append:
  "chunk_run d (xs @ ys) = (case chunk_run d xs of (ret, d', out, rest) \<Rightarrow>
     if ret = - 2 then add_out out (chunk_run d' ys)
     else (if ret = - 1 then - 1 else int (length (rest @ ys)), d', out, rest @ ys))"
proof (induction xs arbitrary: d)
  case (Cons x xs)
  show ?case
  proof (cases "chunk_byte d x")
    case (Byte_Next d' o1)
    then show ?thesis using Cons.IH [of d'] by (cases "chunk_run d' xs") simp
  qed simp_all
qed simp

lemma chunk_run_ok: "\<lbrakk>chunk_run d xs = (ret, d', out, rest); decoder_ok d\<rbrakk> \<Longrightarrow> decoder_ok d' \<and> - 2 \<le> ret \<and> (ret = - 2 \<longrightarrow> rest = [])"
proof (induction xs arbitrary: d out)
  case (Cons x xs)
  show ?case
  proof (cases "chunk_byte d x")
    case (Byte_Next d1 o1)
    have "decoder_ok d1"
      using Byte_Next Cons.prems(2)
      by (auto simp: chunk_byte_def ext_byte_def decoder_ok_def split: chunked_state.splits if_splits)
    then show ?thesis using Cons.IH [of d1] Cons.prems(1) Byte_Next by (cases "chunk_run d1 xs") auto
  next
    case (Byte_Complete d1)
    then have "decoder_ok d1"
      using Cons.prems(2) by (auto simp: chunk_byte_def ext_byte_def decoder_ok_def split: chunked_state.splits if_splits)
    then show ?thesis using Byte_Complete Cons.prems(1) by auto
  qed (use Cons.prems in auto)
qed auto

section \<open>Writing chunks\<close>

definition hex_digit :: "nat \<Rightarrow> byte" where
  "hex_digit n = (if n < 10 then 48 + of_nat n else 87 + of_nat n)"

fun hex_text :: "nat \<Rightarrow> byte list" where
  "hex_text n = (if n < 16 then [hex_digit n] else hex_text (n div 16) @ [hex_digit (n mod 16)])"

declare hex_text.simps [simp del]

definition print_chunk :: "byte list \<Rightarrow> byte list" where
  "print_chunk c = hex_text (length c) @ [13, 10] @ c @ [13, 10]"

definition print_chunked :: "byte list list \<Rightarrow> byte list" where
  "print_chunked cs = concat (map print_chunk cs) @ [48, 13, 10, 13, 10]"

definition zero_decoder :: phr_chunked_decoder where
  "zero_decoder = \<lparr>bytes_left_in_chunk = 0, consume_trailer = True, hex_count = 0, chunk_state = CHUNKED_IN_CHUNK_SIZE\<rparr>"

lemma decode_hex_digit:
  assumes "n < 16"
  shows "decode_hex (hex_digit n) = int n"
proof -
  have "n \<in> {0, 1, 2, 3, 4, 5, 6, 7, 8, 9, 10, 11, 12, 13, 14, 15}" using assms by (simp, presburger)
  then show ?thesis by (elim insertE emptyE) (simp_all add: hex_digit_def decode_hex_def)
qed

lemma length_hex_text: "n < 16 ^ Suc k \<Longrightarrow> 0 < length (hex_text n) \<and> length (hex_text n) \<le> Suc k"
proof (induction k arbitrary: n)
  case (Suc k)
  then have "n div 16 < 16 ^ Suc k" by (simp add: less_mult_imp_div_less)
  with Suc.IH show ?case by (cases "n < 16") (simp_all add: hex_text.simps [of n])
qed (simp add: hex_text.simps)

lemma chunk_run_digit:
  assumes "chunk_state d = CHUNKED_IN_CHUNK_SIZE" and "n < 16" and "hex_count d \<noteq> 16"
  shows "chunk_run d (hex_digit n # ys) =
     chunk_run (d\<lparr>bytes_left_in_chunk := bytes_left_in_chunk d * 16 + of_nat n, hex_count := hex_count d + 1\<rparr>) ys"
  using assms by (simp add: chunk_byte_def decode_hex_digit)

lemma chunk_run_hex:
  "\<lbrakk>chunk_state d = CHUNKED_IN_CHUNK_SIZE; hex_count d = 0; bytes_left_in_chunk d = 0; length (hex_text n) \<le> 16\<rbrakk> \<Longrightarrow>
     chunk_run d (hex_text n @ ys) =
       chunk_run (d\<lparr>bytes_left_in_chunk := of_nat n, hex_count := of_nat (length (hex_text n))\<rparr>) ys"
proof (induction n arbitrary: ys rule: hex_text.induct)
  case (1 n)
  show ?case
  proof (cases "n < 16")
    case True
    then show ?thesis using "1.prems" chunk_run_digit [of d n] by (simp add: hex_text.simps [of n])
  next
    case False
    let ?l = "length (hex_text (n div 16))"
    have len: "length (hex_text n) = Suc ?l" using False by (simp add: hex_text.simps [of n])
    let ?d = "d\<lparr>bytes_left_in_chunk := of_nat (n div 16), hex_count := of_nat ?l\<rparr>"
    have l: "of_nat ?l \<noteq> (16 :: byte)"
    proof -
      have "unat (of_nat ?l :: byte) = ?l" using len "1.prems"(4) by (simp add: unat_of_nat take_bit_nat_eq_self)
      then show ?thesis using len "1.prems"(4) by auto
    qed
    have "of_nat (n div 16) * 16 + of_nat (n mod 16) = (of_nat (n div 16 * 16 + n mod 16) :: size_t)"
      by (simp only: of_nat_add of_nat_mult of_nat_numeral)
    also have "n div 16 * 16 + n mod 16 = n" by simp
    finally have v: "of_nat (n div 16) * 16 + of_nat (n mod 16) = (of_nat n :: size_t)" .
    have "chunk_run d (hex_text n @ ys) = chunk_run ?d (hex_digit (n mod 16) # ys)"
      using "1.IH" [OF False] "1.prems" len False by (simp add: hex_text.simps [of n])
    also have "\<dots> = chunk_run (d\<lparr>bytes_left_in_chunk := of_nat n, hex_count := of_nat (length (hex_text n))\<rparr>) ys"
      using chunk_run_digit [of ?d "n mod 16" ys] "1.prems"(1) l v len by (simp add: add.commute)
    finally show ?thesis .
  qed
qed

lemma chunk_run_chunk:
  assumes "c \<noteq> []" and "length c < 2 ^ 63"
  shows "chunk_run zero_decoder (print_chunk c @ ys) = add_out c (chunk_run zero_decoder ys)"
proof -
  let ?l = "length (hex_text (length c))"
  have l: "0 < ?l" "?l \<le> 16" using length_hex_text [of "length c" 15] assms(2) by simp_all
  have n: "unat (of_nat (length c) :: size_t) = length c" using assms(2) by simp
  then have c0: "of_nat (length c) \<noteq> (0 :: size_t)" using assms(1) by (metis length_0_conv unat_0)
  have h: "of_nat ?l \<noteq> (0 :: byte)"
  proof -
    have "unat (of_nat ?l :: byte) = ?l" using l by (simp add: unat_of_nat take_bit_nat_eq_self)
    then show ?thesis using l(1) by (metis less_irrefl unat_0)
  qed
  let ?d = "zero_decoder\<lparr>bytes_left_in_chunk := of_nat (length c), chunk_state := CHUNKED_IN_CHUNK_DATA\<rparr>"
  have hex: "decode_hex 13 = - 1" by (simp add: decode_hex_def)
  have "chunk_run zero_decoder (print_chunk c @ ys) = chunk_run ?d (c @ [13, 10] @ ys)"
    using chunk_run_hex [of zero_decoder "length c" "[13, 10] @ c @ [13, 10] @ ys"] l(2) h c0 hex
    by (simp add: print_chunk_def zero_decoder_def chunk_byte_def ext_byte_def)
  also have "\<dots> = add_out c (chunk_run (zero_decoder\<lparr>chunk_state := CHUNKED_IN_CHUNK_CRLF\<rparr>) ([13, 10] @ ys))"
    using chunk_run_data [of ?d "length c" "c @ [13, 10] @ ys"] c0 n by (simp add: zero_decoder_def)
  also have "\<dots> = add_out c (chunk_run zero_decoder ys)" by (simp add: zero_decoder_def chunk_byte_def)
  finally show ?thesis .
qed

lemma chunk_run_chunks:
  "\<forall>c\<in>set cs. c \<noteq> [] \<and> length c < 2 ^ 63 \<Longrightarrow>
     chunk_run zero_decoder (print_chunked cs @ rest) =
       (int (length rest), zero_decoder\<lparr>chunk_state := CHUNKED_IN_TRAILERS_LINE_HEAD\<rparr>, concat cs, rest)"
proof (induction cs)
  case Nil
  have "decode_hex 48 = 0" "decode_hex 13 = - 1" by (simp_all add: decode_hex_def)
  then show ?case by (simp add: print_chunked_def zero_decoder_def chunk_byte_def ext_byte_def)
next
  case (Cons c cs)
  then show ?case using chunk_run_chunk [of c "print_chunked cs @ rest"] by (simp add: print_chunked_def)
qed

lemma take_prefix: "take (length xs + length ys) zs = xs @ ys \<Longrightarrow> take (length xs) zs = xs \<and> length xs \<le> length zs"
proof -
  assume e: "take (length xs + length ys) zs = xs @ ys"
  have "min (length zs) (length xs + length ys) = length xs + length ys" using arg_cong [OF e, of length] by simp
  then have "length xs \<le> length zs" by linarith
  moreover have "take (length xs) zs = take (length xs) (take (length xs + length ys) zs)" by simp
  ultimately show ?thesis using e by simp
qed

section \<open>Properties\<close>

text \<open>
  Property C26: the decoder that rewrites the buffer in place computes the automaton that takes
  one byte at a time. On every buffer it returns, never reads or moves outside the
  \<^verbatim>\<open>bufsz\<close> bytes it was given, answers as the automaton does and leaves in the buffer the
  decoded bytes followed by the bytes it has not consumed.
\<close>

theorem phr_decode_chunked_in_place:
  assumes "decoder_ok decoder" and "unat bufsz \<le> length buf"
  shows "\<exists>ret decoder' out rest buf'. chunk_run decoder (take (unat bufsz) buf) = (ret, decoder', out, rest) \<and>
     phr_decode_chunked decoder buf bufsz = Inr (ret, decoder', buf', of_nat (length out)) \<and>
     length buf' = length buf \<and> take (length out + length rest) buf' = out @ rest"
proof -
  obtain ret d' out rest where r: "chunk_run decoder (take (unat bufsz) buf) = (ret, d', out, rest)" by (metis prod_cases4)
  from phr_decode_chunked_result [OF assms r] r show ?thesis by blast
qed

theorem phr_decode_chunked_in_place_witness:
  "\<exists>buf'. phr_decode_chunked zero_decoder [50, 13, 10, 104, 105, 13, 10, 48, 13] 9 =
     Inr (- 2, zero_decoder\<lparr>chunk_state := CHUNKED_IN_CHUNK_EXT\<rparr>, buf', 2) \<and> take 2 buf' = [104, 105]"
proof -
  have run: "chunk_run zero_decoder [50, 13, 10, 104, 105, 13, 10, 48, 13] =
      (- 2, zero_decoder\<lparr>chunk_state := CHUNKED_IN_CHUNK_EXT\<rparr>, [104, 105], [])" by code_simp
  have "decoder_ok zero_decoder" by (simp add: decoder_ok_def zero_decoder_def)
  from phr_decode_chunked_in_place [OF this, of 9 "[50, 13, 10, 104, 105, 13, 10, 48, 13]"] run obtain buf' where
    "phr_decode_chunked zero_decoder [50, 13, 10, 104, 105, 13, 10, 48, 13] 9 =
      Inr (- 2, zero_decoder\<lparr>chunk_state := CHUNKED_IN_CHUNK_EXT\<rparr>, buf', 2)" "take (Suc (Suc 0)) buf' = [104, 105]"
    by (auto simp del: chunk_run.simps)
  then show ?thesis unfolding numeral_2_eq_2 by blast
qed



text \<open>
  Property C28: decoding resumes. When a call answers -2, calling again with the bytes that
  arrive next gives what one call on all the bytes would have given: the same answer, the
  same decoder, and the two outputs one after the other.
\<close>

theorem phr_decode_chunked_resumes:
  assumes "decoder_ok decoder" and "length a + length b < 2 ^ 64"
    and "phr_decode_chunked decoder a (of_nat (length a)) = Inr (- 2, decoder1, a', n1)"
    and "phr_decode_chunked decoder1 b (of_nat (length b)) = Inr (ret, decoder2, b', n2)"
  shows "\<exists>ab'. phr_decode_chunked decoder (a @ b) (of_nat (length (a @ b))) = Inr (ret, decoder2, ab', n1 + n2) \<and>
     take (unat (n1 + n2)) ab' = take (unat n1) a' @ take (unat n2) b'"
proof -
  obtain r1 d1 o1 rest1 where r1: "chunk_run decoder a = (r1, d1, o1, rest1)" by (metis prod_cases4)
  obtain r2 d2 o2 rest2 where r2: "chunk_run d1 b = (r2, d2, o2, rest2)" by (metis prod_cases4)
  have n: "unat (of_nat (length a) :: size_t) = length a" "unat (of_nat (length b) :: size_t) = length b"
      "unat (of_nat (length (a @ b)) :: size_t) = length (a @ b)"
    using assms(2) by (simp, simp, intro unat_of_nat_size, simp)
  obtain a1 where a1: "phr_decode_chunked decoder a (of_nat (length a)) = Inr (r1, d1, a1, of_nat (length o1))"
      "length a1 = length a" "take (length o1 + length rest1) a1 = o1 @ rest1"
    using phr_decode_chunked_result [OF assms(1), of "of_nat (length a)" a] r1 n(1) by auto
  have eq1: "r1 = - 2" "d1 = decoder1" "a1 = a'" "n1 = of_nat (length o1)" using a1(1) assms(3) by simp_all
  have d1: "decoder_ok d1" using chunk_run_ok [OF r1 assms(1)] by simp
  obtain b1 where b1: "phr_decode_chunked d1 b (of_nat (length b)) = Inr (r2, d2, b1, of_nat (length o2))"
      "length b1 = length b" "take (length o2 + length rest2) b1 = o2 @ rest2"
    using phr_decode_chunked_result [OF d1, of "of_nat (length b)" b] r2 n(2) by auto
  have eq2: "r2 = ret" "d2 = decoder2" "b1 = b'" "n2 = of_nat (length o2)" using b1(1) assms(4) eq1(2) by simp_all
  have run: "chunk_run decoder (a @ b) = (r2, d2, o1 @ o2, rest2)" using chunk_run_append [of decoder a b] r1 r2 eq1(1) by simp
  obtain ab' where ab: "phr_decode_chunked decoder (a @ b) (of_nat (length (a @ b))) = Inr (r2, d2, ab', of_nat (length (o1 @ o2)))"
      "length ab' = length (a @ b)" "take (length (o1 @ o2) + length rest2) ab' = (o1 @ o2) @ rest2"
    using phr_decode_chunked_result [OF assms(1), of "of_nat (length (a @ b))" "a @ b"] run n(3) by auto
  have o: "take (length o1) a1 = o1" "length o1 \<le> length a" "take (length o2) b1 = o2" "length o2 \<le> length b"
    "take (length (o1 @ o2)) ab' = o1 @ o2"
    using take_prefix [OF a1(3)] take_prefix [OF b1(3)] take_prefix [OF ab(3)] a1(2) b1(2) by simp_all
  have "unat n1 = length o1" "unat n2 = length o2" "unat (n1 + n2) = length o1 + length o2"
    using eq1(4) eq2(4) o(2,4) assms(2) by (simp_all flip: of_nat_add)
  then show ?thesis using ab(1) eq1 eq2 o by simp
qed

theorem phr_decode_chunked_resumes_witness:
  "\<exists>d1 a' d2 b' ab'. phr_decode_chunked zero_decoder [50, 13, 10, 104] 4 = Inr (- 2, d1, a', 1) \<and>
     phr_decode_chunked d1 [105, 13, 10, 48] 4 = Inr (- 2, d2, b', 1) \<and>
     phr_decode_chunked zero_decoder [50, 13, 10, 104, 105, 13, 10, 48] 8 = Inr (- 2, d2, ab', 2) \<and> take 2 ab' = [104, 105]"
proof -
  let ?a = "[50, 13, 10, 104] :: byte list" and ?b = "[105, 13, 10, 48] :: byte list"
  let ?d1 = "zero_decoder\<lparr>bytes_left_in_chunk := 1, chunk_state := CHUNKED_IN_CHUNK_DATA\<rparr>"
  let ?d2 = "zero_decoder\<lparr>hex_count := 1\<rparr>"
  have ok: "decoder_ok zero_decoder" "decoder_ok ?d1" by (simp_all add: decoder_ok_def zero_decoder_def)
  have "chunk_run zero_decoder ?a = (- 2, ?d1, [104], [])" "chunk_run ?d1 ?b = (- 2, ?d2, [105], [])" by code_simp+
  then obtain a' b' where ab: "phr_decode_chunked zero_decoder ?a 4 = Inr (- 2, ?d1, a', 1)" "take 1 a' = [104]"
      "phr_decode_chunked ?d1 ?b 4 = Inr (- 2, ?d2, b', 1)" "take 1 b' = [105]"
    using phr_decode_chunked_result [OF ok(1), of 4 ?a] phr_decode_chunked_result [OF ok(2), of 4 ?b]
    by (auto simp del: chunk_run.simps)
  have "\<exists>ab'. phr_decode_chunked zero_decoder (?a @ ?b) 8 = Inr (- 2, ?d2, ab', 2) \<and> take 2 ab' = [104, 105]"
    using phr_decode_chunked_resumes [OF ok(1), of ?a ?b ?d1 a' 1 "- 2" ?d2 b' 1] ab by simp
  with ab show ?thesis by auto
qed

end
