(* ===== verification/Http_Parser_Safety.thy ===== *)
theory Http_Parser_Safety
  imports Http_Parser
begin

text \<open>
  What holds of the parser on every input: it never reads outside the buffer, returns -1,
  -2 or the number of bytes consumed, every slice it hands out lies in the consumed part,
  and a verdict other than "incomplete" is not changed by bytes that arrive later.
\<close>

section \<open>No read outside the buffer\<close>

definition safe :: "'a parse \<Rightarrow> bool" where
  "safe r \<longleftrightarrow> (case r of Ok _ \<Rightarrow> True | Ret e \<Rightarrow> e = - 1 \<or> e = - 2 | Overread \<Rightarrow> False)"

named_theorems safes \<open>steps that stay inside the buffer\<close>

lemma safe_simps [simp]:
  "safe (Ok x)" "safe (Ret e) \<longleftrightarrow> e = - 1 \<or> e = - 2" "\<not> safe Overread"
  by (simp_all add: safe_def)

lemma safe_bind: "\<lbrakk>safe m; \<And>x. m = Ok x \<Longrightarrow> safe (f x)\<rbrakk> \<Longrightarrow> safe (bind_parse m f)"
  by (cases m) auto

lemma safe_deref [safes]: "snd c \<noteq> [] \<Longrightarrow> safe (deref c)"
  by (cases c rule: deref.cases) auto

lemma safe_CHECK_EOF [safes]: "safe (CHECK_EOF c)"
  by (simp add: CHECK_EOF_def)

lemma safe_EXPECT_CHAR_NO_CHECK [safes]: "snd c \<noteq> [] \<Longrightarrow> safe (EXPECT_CHAR_NO_CHECK ch c)"
  by (auto simp: EXPECT_CHAR_NO_CHECK_def intro!: safe_bind safes)

lemma safe_EXPECT_CHAR [safes]: "safe (EXPECT_CHAR ch c)"
  by (auto simp: EXPECT_CHAR_def intro!: safe_bind safes)

lemma safe_advance_loop: "snd c \<noteq> [] \<Longrightarrow> safe (advance_loop c)"
  by (induction c rule: advance_loop.induct) auto

lemma safe_ADVANCE_TOKEN [safes]: "safe (ADVANCE_TOKEN c)"
  by (auto simp: ADVANCE_TOKEN_def intro!: safe_bind safes safe_advance_loop)

lemma safe_eol_slow [safes]: "safe (eol_slow c)"
  by (induction c rule: eol_slow.induct) auto

lemma safe_FOUND_CTL [safes]: "snd c \<noteq> [] \<Longrightarrow> safe (FOUND_CTL st c)"
  by (auto simp: FOUND_CTL_def intro!: safe_bind safes)

lemma safe_get_token_to_eol [safes]: "safe (get_token_to_eol c)"
  by (auto simp: get_token_to_eol_slow intro!: safe_bind safes dest: eol_slow_moves)

lemma safe_name_loop [safes]: "snd c \<noteq> [] \<Longrightarrow> safe (name_loop c)"
  by (induction c rule: name_loop.induct) auto

lemma safe_skip_blanks [safes]: "safe (skip_blanks c)"
  by (induction c rule: skip_blanks.induct) auto

lemma safe_PARSE_INT [safes]: "snd c \<noteq> [] \<Longrightarrow> safe (PARSE_INT mul c)"
  by (auto simp: PARSE_INT_def intro!: safe_bind safes)

lemma EXPECT_CHARS_length:
  "EXPECT_CHARS chs c = Ok c' \<Longrightarrow> length (snd c) = length chs + length (snd c')"
  by (induction chs c rule: EXPECT_CHARS.induct)
    (force simp: EXPECT_CHAR_NO_CHECK_def parse_simps next_char_eq split: if_splits)+

lemma safe_EXPECT_CHARS [safes]: "length chs \<le> length (snd c) \<Longrightarrow> safe (EXPECT_CHARS chs c)"
proof (induction chs c rule: EXPECT_CHARS.induct)
  case (2 ch chs c)
  then show ?case
    by (auto intro!: safe_bind safes simp: EXPECT_CHAR_NO_CHECK_def parse_simps next_char_eq split: if_splits)
qed simp

lemma PARSE_INT_length: "PARSE_INT mul c = Ok (v, c') \<Longrightarrow> length (snd c) = Suc (length (snd c'))"
  by (auto simp: PARSE_INT_def parse_simps next_char_eq split: if_splits)

lemma parse_http_version_more: "parse_http_version c = Ok (v, c') \<Longrightarrow> snd c' \<noteq> []"
  by (auto simp: parse_http_version_def parse_simps simp del: EXPECT_CHARS.simps split: if_splits
      dest!: EXPECT_CHARS_length PARSE_INT_length)

lemma safe_parse_http_version [safes]: "safe (parse_http_version c)"
  by (auto simp: parse_http_version_def simp del: EXPECT_CHARS.simps intro!: safe_bind safes
      dest!: EXPECT_CHARS_length)

lemma safe_parse_crlf [safes]: "snd c \<noteq> [] \<Longrightarrow> safe (parse_crlf opt c)"
  by (auto simp: parse_crlf_def intro!: safe_bind safes)

lemma safe_is_complete_loop [safes]: "safe (is_complete_loop n c)"
  by (induction n c rule: is_complete_loop.induct) (auto split: list.splits)

lemma safe_check_last_len [safes]: "last_len \<le> length buf + 3 \<Longrightarrow> safe (check_last_len buf last_len)"
  by (auto simp: check_last_len_def is_complete_def intro!: safe_bind safes)

lemma safe_parse_header_name: "snd c \<noteq> [] \<Longrightarrow> safe (fst (parse_header_name h c))"
  using safe_bind [OF safe_CHECK_EOF safe_name_loop, of c "\<lambda>_. c"]
  by (auto simp: parse_header_name_def Let_def safe_def [of "bind_parse _ _"] safe_skip_blanks split: parse.splits)

lemma safe_parse_header_line: "snd c \<noteq> [] \<Longrightarrow> safe (fst (parse_header_line n h c))"
proof -
  assume ne: "snd c \<noteq> []"
  obtain r h1 where st: "header_start n h c = (r, h1)" by fastforce
  have "safe r" using safe_parse_header_name [OF ne, of h] st by (auto simp: header_start_def split: if_splits)
  then show ?thesis
  proof (cases r)
    case (Ok c1)
    then show ?thesis
      using safe_get_token_to_eol [of c1] by (auto simp: parse_header_line_eq [OF ne] st split: parse.splits)
  qed (auto simp: parse_header_line_eq [OF ne] st)
qed

lemma safe_parse_headers:
  "\<lbrakk>max_headers \<le> length hs; n \<le> max_headers\<rbrakk> \<Longrightarrow> safe (fst (parse_headers max_headers c hs n))"
proof (induction max_headers c hs n rule: parse_headers_induct)
  case (Nil m p hs n)
  then show ?case by (simp add: parse_headers_Nil)
next
  case (Cons m p x r hs n)
  show ?case
    using safe_parse_header_line [of "(p, x # r)" n "hs ! n"] Cons.prems Cons.IH
    by (cases "parse_header_line n (hs ! n) (p, x # r)"; cases "fst (parse_header_line n (hs ! n) (p, x # r))")
      (auto simp: parse_headers_Cons safe_EXPECT_CHAR)
qed

lemma ADVANCE_TOKEN_slice:
  "ADVANCE_TOKEN c = Ok ((t, l), c') \<Longrightarrow> reaches c c' \<and> (\<exists>r. snd c' = 32 # r) \<and> t = fst c \<and> t + l = fst c'"
  by (auto simp: ADVANCE_TOKEN_def parse_simps dest!: advance_loop_moves dest: reaches_length)

lemma parse_crlf_moves: "parse_crlf opt c = Ok c' \<Longrightarrow> reaches c c'"
  by (auto simp: parse_crlf_def parse_simps split: if_splits dest!: EXPECT_CHAR_moves
      intro: reaches_next reaches_trans [OF reaches_next])

text \<open>The request line, as one step: what \<^verbatim>\<open>parse_request\<close> reads before the headers.\<close>

definition request_line :: "cursor \<Rightarrow> HttpRequest \<Rightarrow> cursor parse \<times> HttpRequest" where
  "request_line cur rq =
     (case bind_parse (CHECK_EOF cur) (\<lambda>_. bind_parse (parse_crlf True cur) ADVANCE_TOKEN) of
        Ok ((m, ml), cur1) \<Rightarrow>
          let rq = rq\<lparr>req_method := Some m, req_method_len := ml\<rparr>
          in (case ADVANCE_TOKEN (next_char cur1) of
                Ok ((pa, pl), cur2) \<Rightarrow>
                  let rq = rq\<lparr>req_path := Some pa, req_path_len := pl\<rparr>
                  in (case parse_http_version (next_char cur2) of
                        Ok (v, cur3) \<Rightarrow> (parse_crlf False cur3, rq\<lparr>req_minor_version := v\<rparr>)
                      | Ret e \<Rightarrow> (Ret e, rq)
                      | Overread \<Rightarrow> (Overread, rq))
              | Ret e \<Rightarrow> (Ret e, rq)
              | Overread \<Rightarrow> (Overread, rq))
      | Ret e \<Rightarrow> (Ret e, rq)
      | Overread \<Rightarrow> (Overread, rq))"

lemma parse_request_eq:
  "parse_request m cur rq =
     (case request_line cur rq of
        (Ok cur', rq') \<Rightarrow>
          let (res, hs, n) = parse_headers m cur' (req_headers rq') (req_num_headers rq')
          in (res, rq'\<lparr>req_headers := hs, req_num_headers := n\<rparr>)
      | (Ret e, rq') \<Rightarrow> (Ret e, rq')
      | (Overread, rq') \<Rightarrow> (Overread, rq'))"
  by (auto simp: parse_request_def request_line_def Let_def split: parse.splits)

lemma request_line_headers [simp]:
  "request_line c rq = (r, rq') \<Longrightarrow> req_headers rq' = req_headers rq \<and> req_num_headers rq' = req_num_headers rq"
  by (auto simp: request_line_def Let_def split: parse.splits prod.splits)

lemma safe_request_line: "safe (fst (request_line c rq))"
proof -
  let ?m = "bind_parse (CHECK_EOF c) (\<lambda>_. bind_parse (parse_crlf True c) ADVANCE_TOKEN)"
  have m: "safe ?m" by (auto intro!: safe_bind safes)
  show ?thesis
  proof (cases ?m)
    case (Ok t)
    then obtain m ml c1 where t: "?m = Ok ((m, ml), c1)" by (cases t) auto
    note tok = safe_ADVANCE_TOKEN [of "next_char c1"]
    show ?thesis
    proof (cases "ADVANCE_TOKEN (next_char c1)")
      case (Ok u)
      then obtain pa pl c2 where u: "ADVANCE_TOKEN (next_char c1) = Ok ((pa, pl), c2)" by (cases u) auto
      have "safe (parse_crlf False c3)" if "parse_http_version (next_char c2) = Ok (v, c3)" for v c3
        using parse_http_version_more [OF that] by (rule safe_parse_crlf)
      with t u safe_parse_http_version [of "next_char c2"] show ?thesis
        by (auto simp: request_line_def Let_def split: parse.splits)
    qed (use t tok in \<open>auto simp: request_line_def Let_def\<close>)
  qed (use m in \<open>auto simp: request_line_def\<close>)
qed

lemma safe_parse_request:
  assumes "m \<le> length (req_headers rq)" and "req_num_headers rq \<le> m"
  shows "safe (fst (parse_request m c rq))"
proof -
  obtain r rq' where l: "request_line c rq = (r, rq')" by fastforce
  note sl = safe_request_line [of c rq]
  have "safe (fst (parse_headers m c' (req_headers rq') (req_num_headers rq')))" for c'
    using safe_parse_headers [of m "req_headers rq'" "req_num_headers rq'" c'] assms request_line_headers [OF l] by simp
  then show ?thesis using l sl by (cases r) (simp_all add: parse_request_eq Let_def case_prod_beta)
qed

section \<open>Slices inside the consumed part\<close>

definition within :: "nat \<Rightarrow> nat option \<Rightarrow> nat \<Rightarrow> bool" where
  "within k p l \<longleftrightarrow> (case p of None \<Rightarrow> l = 0 | Some i \<Rightarrow> i + l \<le> k)"

definition hdr_within :: "nat \<Rightarrow> phr_header \<Rightarrow> bool" where
  "hdr_within k h \<longleftrightarrow> within k (hdr_name h) (hdr_name_len h) \<and> within k (hdr_value h) (hdr_value_len h)"

lemma within_mono: "within k p l \<Longrightarrow> k \<le> k' \<Longrightarrow> within k' p l"
  by (auto simp: within_def split: option.splits)

lemma hdr_within_mono: "hdr_within k h \<Longrightarrow> k \<le> k' \<Longrightarrow> hdr_within k' h"
  by (auto simp: hdr_within_def intro: within_mono)

lemma get_token_to_eol_slice:
  assumes "get_token_to_eol c = Ok ((t, l), c')"
  shows "t = fst c \<and> t + l < fst c'"
proof -
  obtain c1 where c1: "eol_slow c = Ok c1" "FOUND_CTL (fst c) c1 = Ok ((t, l), c')"
    using assms by (auto simp: get_token_to_eol_slow parse_simps)
  have "fst c \<le> fst c1" using eol_slow_moves [OF c1(1)] reaches_length by blast
  with c1(2) show ?thesis
    by (auto simp: FOUND_CTL_def EXPECT_CHAR_def EXPECT_CHAR_NO_CHECK_def parse_simps next_char_eq split: if_splits)
qed

lemma header_start_within:
  assumes "header_start n h c = (Ok c', h')"
  shows "reaches c c' \<and> within (fst c') (hdr_name h') (hdr_name_len h')"
proof (cases "parse_header_name h c = (Ok c', h')")
  case True
  then obtain c1 where "name_loop c = Ok c1" "skip_blanks (next_char c1) = Ok c'"
      "hdr_name h' = Some (fst c)" "hdr_name_len h' = fst c1 - fst c"
    by (auto simp: parse_header_name_def Let_def parse_simps split: parse.splits if_splits)
  then have "fst c \<le> fst c1" "fst c1 \<le> fst c'" "hdr_name h' = Some (fst c)" "hdr_name_len h' = fst c1 - fst c"
    by (auto dest!: name_loop_moves skip_blanks_moves reaches_length simp: next_char_eq)
  then show ?thesis using parse_header_name_moves [OF True] by (simp add: within_def)
next
  case False
  with assms show ?thesis by (auto simp: header_start_def within_def split: if_splits)
qed

lemma parse_header_line_within:
  assumes "parse_header_line n h c = (Ok c', h')" and "snd c \<noteq> []"
  shows "hdr_within (fst c') h'"
proof -
  obtain c1 h1 v vl where st: "header_start n h c = (Ok c1, h1)" and t: "get_token_to_eol c1 = Ok ((v, vl), c')"
      and h': "h' = h1\<lparr>hdr_value := Some v, hdr_value_len := vl\<rparr>"
    using assms(1) by (auto simp: parse_header_line_eq [OF assms(2)] split: parse.splits prod.splits)
  from header_start_within [OF st] get_token_to_eol_slice [OF t] get_token_to_eol_moves [OF t] h'
  show ?thesis by (auto simp: hdr_within_def within_def split: option.splits)
qed

lemma parse_headers_within:
  assumes "parse_headers m c hs n = (Ok c', hs', n')" and "n \<le> m" and "\<forall>i<n. hdr_within (fst c) (hs ! i)" and "n \<le> length hs"
  shows "reaches c c' \<and> fst c < fst c' \<and> n' \<le> m \<and> n' \<le> length hs' \<and> length hs' = length hs \<and>
     (\<forall>i<n'. hdr_within (fst c') (hs' ! i))"
  using assms
proof (induction m c hs n rule: parse_headers_induct)
  case (Nil m p hs n)
  then show ?case by (simp add: parse_headers_Nil)
next
  case (Cons m p x r hs n)
  show ?case
  proof (cases "x = 13 \<or> x = 10")
    case True
    then have "reaches (Suc p, r) c'" "hs' = hs" "n' = n"
      using Cons.prems(1) by (auto simp: parse_headers_Cons dest: EXPECT_CHAR_moves split: if_splits)
    then show ?thesis
      using Cons.prems reaches_length [of "(Suc p, r)" c']
      by (auto intro: hdr_within_mono)
  next
    case False
    then obtain c1 h where line: "parse_header_line n (hs ! n) (p, x # r) = (Ok c1, h)" "n \<noteq> m" "n < length hs"
        "parse_headers m c1 (hs[n := h]) (Suc n) = (Ok c', hs', n')"
      using Cons.prems(1) by (auto simp: parse_headers_Cons split: if_splits prod.splits parse.splits)
    note mv = parse_header_line_moves [OF line(1)] and w = parse_header_line_within [OF line(1)]
    have "\<forall>i<Suc n. hdr_within (fst c1) (hs[n := h] ! i)"
      using Cons.prems(3) mv w line(3) by (auto simp: less_Suc_eq intro: hdr_within_mono)
    then show ?thesis
      using Cons.IH [OF _ _ line(2,3,1,4)] False Cons.prems(2) line(2,3) mv by (auto intro: reaches_trans)
  qed
qed

definition request_within :: "nat \<Rightarrow> HttpRequest \<Rightarrow> bool" where
  "request_within k rq \<longleftrightarrow>
     within k (req_method rq) (req_method_len rq) \<and> within k (req_path rq) (req_path_len rq) \<and>
     req_num_headers rq \<le> length (req_headers rq) \<and> (\<forall>i<req_num_headers rq. hdr_within k (req_headers rq ! i))"

lemma PARSE_INT_digit: "PARSE_INT mul c = Ok (v, c') \<Longrightarrow> reaches c c' \<and> (\<exists>d. 0 \<le> d \<and> d \<le> 9 \<and> v = mul * d)"
proof -
  assume "PARSE_INT mul c = Ok (v, c')"
  then obtain x r where x: "snd c = x # r" "c' = next_char c" "v = mul * (uint x - 48)" "48 \<le> uint x" "uint x \<le> 57"
    by (auto simp: PARSE_INT_def parse_simps word_less_def split: if_splits)
  then show ?thesis using reaches_next [of c] by (auto intro!: exI [of _ "uint x - 48"])
qed

lemma parse_http_version_moves:
  assumes "parse_http_version c = Ok (v, c')"
  shows "reaches c c' \<and> 0 \<le> v \<and> v \<le> 9"
proof -
  obtain c1 where "EXPECT_CHARS [72, 84, 84, 80, 47, 49, 46] c = Ok c1" "PARSE_INT 1 c1 = Ok (v, c')"
    using assms by (auto simp: parse_http_version_def parse_simps simp del: EXPECT_CHARS.simps split: if_splits)
  then have "reaches c c1" "reaches c1 c' \<and> 0 \<le> v \<and> v \<le> 9"
    using EXPECT_CHARS_moves PARSE_INT_digit [of 1 c1 v c'] by (blast, auto)
  then show ?thesis using reaches_trans by blast
qed

lemma request_line_within:
  assumes "request_line c rq = (Ok c', rq')"
  shows "reaches c c' \<and> within (fst c') (req_method rq') (req_method_len rq') \<and>
     within (fst c') (req_path rq') (req_path_len rq') \<and> 0 \<le> req_minor_version rq' \<and> req_minor_version rq' \<le> 9"
proof -
  obtain c0 m ml c1 pa pl c2 v c3 where
      c0: "parse_crlf True c = Ok c0" and m: "ADVANCE_TOKEN c0 = Ok ((m, ml), c1)"
      and p: "ADVANCE_TOKEN (next_char c1) = Ok ((pa, pl), c2)" and v: "parse_http_version (next_char c2) = Ok (v, c3)"
      and e: "parse_crlf False c3 = Ok c'"
      and rq': "rq' = rq\<lparr>req_method := Some m, req_method_len := ml, req_path := Some pa, req_path_len := pl,
        req_minor_version := v\<rparr>"
    using assms by (auto simp: request_line_def Let_def parse_simps split: parse.splits prod.splits)
  note s = parse_crlf_moves [OF c0] ADVANCE_TOKEN_slice [OF m] ADVANCE_TOKEN_slice [OF p]
    parse_http_version_moves [OF v] parse_crlf_moves [OF e]
  have r2: "reaches c0 (next_char c1)" "reaches (next_char c1) (next_char c2)"
    using s reaches_next [of c1] reaches_next [of c2] by (metis reaches_trans list.distinct(1))+
  then have "reaches c c'" using s by (metis reaches_trans)
  moreover have "fst c1 \<le> fst (next_char c1)" "fst (next_char c1) \<le> fst c2" "fst c2 \<le> fst (next_char c2)"
      "fst (next_char c2) \<le> fst c3" "fst c3 \<le> fst c'"
    using reaches_length [of "next_char c1" c2] reaches_length [of "next_char c2" c3] reaches_length [of c3 c'] s
    by (simp_all add: next_char_eq)
  ultimately show ?thesis using s rq' by (auto simp: within_def)
qed

lemma parse_request_within:
  assumes "parse_request m c rq = (Ok c', rq')" and "req_num_headers rq = 0"
  shows "reaches c c' \<and> fst c < fst c' \<and> request_within (fst c') rq' \<and> req_num_headers rq' \<le> m \<and>
     0 \<le> req_minor_version rq' \<and> req_minor_version rq' \<le> 9"
proof -
  obtain c1 rq1 hs n where l: "request_line c rq = (Ok c1, rq1)"
      and h: "parse_headers m c1 (req_headers rq1) (req_num_headers rq1) = (Ok c', hs, n)"
      and rq': "rq' = rq1\<lparr>req_headers := hs, req_num_headers := n\<rparr>"
    using assms(1) by (auto simp: parse_request_eq Let_def split: prod.splits parse.splits)
  have n0: "req_num_headers rq1 = 0" using request_line_headers [OF l] assms(2) by simp
  note w = parse_headers_within [OF h] and lw = request_line_within [OF l]
  have "reaches c1 c' \<and> fst c1 < fst c' \<and> n \<le> m \<and> n \<le> length hs \<and> (\<forall>i<n. hdr_within (fst c') (hs ! i))"
    using w n0 by simp
  then show ?thesis
    using lw rq' reaches_length [of c c1] by (auto simp: request_within_def intro: within_mono reaches_trans)
qed

lemma to_int32_small: "n < 2 ^ 31 \<Longrightarrow> to_int32 n = int n"
  by (simp add: to_int32_def sint_uint unsigned_of_nat signed_take_bit_int_eq_self take_bit_nat_eq_self
      take_bit_of_nat [symmetric])

lemma parse_result_safe: "safe r \<Longrightarrow> (\<exists>n. parse_result r = Inr n \<and> (r = Ret n \<and> (n = - 1 \<or> n = - 2) \<or> (\<exists>c. r = Ok c \<and> n = to_int32 (fst c))))"
  by (cases r) (auto simp: parse_result_def)

section \<open>Verdicts survive more bytes\<close>

definition ext :: "byte list \<Rightarrow> cursor \<Rightarrow> cursor" where
  "ext ys c = (fst c, snd c @ ys)"

definition stable :: "('a \<Rightarrow> 'a) \<Rightarrow> 'a parse \<Rightarrow> 'a parse \<Rightarrow> bool" where
  "stable ex r r' \<longleftrightarrow> (\<forall>x. r = Ok x \<longrightarrow> r' = Ok (ex x)) \<and> (r = Ret (- 1) \<longrightarrow> r' = Ret (- 1))"

named_theorems stables \<open>steps whose verdict survives more bytes\<close>

lemma ext_simps [simp]: "fst (ext ys c) = fst c" "snd (ext ys c) = snd c @ ys" "ext ys (p, r) = (p, r @ ys)"
  by (simp_all add: ext_def)

lemma ext_next [simp]: "snd c \<noteq> [] \<Longrightarrow> next_char (ext ys c) = ext ys (next_char c)"
  by (cases c) (auto simp: ext_def)

lemma stable_Ok: "stable ex (Ok x) r' \<longleftrightarrow> r' = Ok (ex x)"
  by (simp add: stable_def)

lemma stable_Ret [simp]: "stable ex (Ret e) r' \<longleftrightarrow> e \<noteq> - 1 \<or> r' = Ret (- 1)"
  by (auto simp: stable_def)

lemma stable_Overread [simp]: "stable ex Overread r'"
  by (simp add: stable_def)

lemma stable_bind:
  "\<lbrakk>stable ex m m'; \<And>x. m = Ok x \<Longrightarrow> stable ey (f x) (f' (ex x))\<rbrakk> \<Longrightarrow> stable ey (bind_parse m f) (bind_parse m' f')"
  by (cases m) (auto simp: stable_def)

lemma stable_deref [stables]: "stable id (deref c) (deref (ext ys c))"
  by (cases c rule: deref.cases) (auto simp: stable_def)

lemma stable_CHECK_EOF [stables]: "stable id (CHECK_EOF c) (CHECK_EOF (ext ys c))"
  by (auto simp: CHECK_EOF_def stable_Ok)

lemma stable_EXPECT_CHAR_NO_CHECK [stables]:
  "stable (ext ys) (EXPECT_CHAR_NO_CHECK ch c) (EXPECT_CHAR_NO_CHECK ch (ext ys c))"
  unfolding EXPECT_CHAR_NO_CHECK_def
  by (rule stable_bind [OF stable_deref]) (auto simp: stable_Ok)

lemma stable_EXPECT_CHAR [stables]: "stable (ext ys) (EXPECT_CHAR ch c) (EXPECT_CHAR ch (ext ys c))"
  unfolding EXPECT_CHAR_def by (rule stable_bind [OF stable_CHECK_EOF]) (rule stables)

lemma stable_EXPECT_CHARS [stables]: "stable (ext ys) (EXPECT_CHARS chs c) (EXPECT_CHARS chs (ext ys c))"
  by (induction chs c rule: EXPECT_CHARS.induct) (auto simp: stable_Ok intro!: stable_bind stables)

lemma stable_advance_loop [stables]: "stable (ext ys) (advance_loop c) (advance_loop (ext ys c))"
  by (induction c rule: advance_loop.induct) (auto simp: stable_Ok)

lemma stable_ADVANCE_TOKEN [stables]:
  "stable (apsnd (ext ys)) (ADVANCE_TOKEN c) (ADVANCE_TOKEN (ext ys c))"
  unfolding ADVANCE_TOKEN_def
  by (rule stable_bind [OF stable_CHECK_EOF], rule stable_bind [OF stable_advance_loop]) (simp add: stable_Ok)

lemma stable_eol_slow [stables]: "stable (ext ys) (eol_slow c) (eol_slow (ext ys c))"
  by (induction c rule: eol_slow.induct) (auto simp: stable_Ok)

lemma stable_FOUND_CTL [stables]: "stable (apsnd (ext ys)) (FOUND_CTL st c) (FOUND_CTL st (ext ys c))"
  unfolding FOUND_CTL_def
  by (rule stable_bind [OF stable_deref]) (auto simp: stable_Ok intro!: stable_bind [OF stable_EXPECT_CHAR])

lemma stable_get_token_to_eol [stables]:
  "stable (apsnd (ext ys)) (get_token_to_eol c) (get_token_to_eol (ext ys c))"
  unfolding get_token_to_eol_slow
  by (rule stable_bind [OF stable_eol_slow]) (simp add: stable_FOUND_CTL)

lemma stable_name_loop [stables]: "stable (ext ys) (name_loop c) (name_loop (ext ys c))"
  by (induction c rule: name_loop.induct) (auto simp: stable_Ok)

lemma stable_skip_blanks [stables]: "stable (ext ys) (skip_blanks c) (skip_blanks (ext ys c))"
  by (induction c rule: skip_blanks.induct) (auto simp: stable_Ok)

lemma stable_PARSE_INT [stables]: "stable (apsnd (ext ys)) (PARSE_INT mul c) (PARSE_INT mul (ext ys c))"
  unfolding PARSE_INT_def by (rule stable_bind [OF stable_deref]) (auto simp: stable_Ok)

lemma stable_parse_http_version [stables]:
  "stable (apsnd (ext ys)) (parse_http_version c) (parse_http_version (ext ys c))"
  unfolding parse_http_version_def
  by (auto simp del: EXPECT_CHARS.simps intro!: stable_bind stables)

lemma stable_parse_crlf [stables]: "stable (ext ys) (parse_crlf opt c) (parse_crlf opt (ext ys c))"
  unfolding parse_crlf_def by (rule stable_bind [OF stable_deref]) (auto simp: stable_Ok stable_EXPECT_CHAR)

text \<open>The steps that also fill in out parameters: the same values are stored.\<close>

definition stable_out :: "byte list \<Rightarrow> cursor parse \<times> 'o \<Rightarrow> cursor parse \<times> 'o \<Rightarrow> bool" where
  "stable_out ys r r' \<longleftrightarrow> stable (ext ys) (fst r) (fst r') \<and> (fst r \<noteq> Ret (- 2) \<and> fst r \<noteq> Overread \<longrightarrow> snd r' = snd r)"

lemma stable_outI:
  assumes "stable (ext ys) r r'" and "\<lbrakk>r \<noteq> Ret (- 2); r \<noteq> Overread\<rbrakk> \<Longrightarrow> o1' = o1"
  shows "stable_out ys (r, o1) (r', o1')"
  using assms by (simp add: stable_out_def)

lemma stable_cases:
  assumes "stable ex r r'" and "safe r"
  obtains x where "r = Ok x" "r' = Ok (ex x)" | "r = Ret (- 1)" "r' = Ret (- 1)" | "r = Ret (- 2)"
  using assms by (cases r) (auto simp: stable_def)

lemma stable_parse_header_name:
  assumes "snd c \<noteq> []"
  shows "stable_out ys (parse_header_name h c) (parse_header_name h (ext ys c))"
proof -
  let ?r = "bind_parse (CHECK_EOF c) (\<lambda>_. name_loop c)"
  let ?r' = "bind_parse (CHECK_EOF (ext ys c)) (\<lambda>_. name_loop (ext ys c))"
  have st: "stable (ext ys) ?r ?r'" by (rule stable_bind [OF stable_CHECK_EOF]) (rule stables)
  moreover have "safe ?r" using assms by (intro safe_bind safes)
  ultimately show ?thesis
  proof (cases rule: stable_cases)
    case (1 c1)
    then have "snd c1 \<noteq> []" by (auto simp: parse_simps dest: name_loop_moves)
    with 1 show ?thesis
      using stable_skip_blanks [of ys "next_char c1"] by (auto simp: parse_header_name_def Let_def stable_out_def)
  qed (auto simp: parse_header_name_def Let_def stable_out_def)
qed

lemma stable_header_start:
  "snd c \<noteq> [] \<Longrightarrow> stable_out ys (header_start n h c) (header_start n h (ext ys c))"
  using stable_parse_header_name [of c ys h] by (auto simp: header_start_def stable_out_def stable_Ok)

lemma stable_parse_header_line:
  assumes "snd c \<noteq> []"
  shows "stable_out ys (parse_header_line n h c) (parse_header_line n h (ext ys c))"
proof -
  obtain r h1 where r: "header_start n h c = (r, h1)" by fastforce
  obtain r' h1' where r': "header_start n h (ext ys c) = (r', h1')" by fastforce
  have st: "stable (ext ys) r r'" "r \<noteq> Ret (- 2) \<and> r \<noteq> Overread \<longrightarrow> h1' = h1"
    using stable_header_start [OF assms, of ys n h] r r' by (simp_all add: stable_out_def)
  have "safe r" using safe_parse_header_name [OF assms, of h] r by (auto simp: header_start_def split: if_splits)
  with st(1) show ?thesis
  proof (cases rule: stable_cases)
    case (1 c1)
    from stable_get_token_to_eol [of ys c1] safe_get_token_to_eol [of c1] show ?thesis
      by (cases rule: stable_cases)
        (use 1 st(2) in \<open>auto simp: parse_header_line_eq assms r r' stable_out_def stable_Ok split: parse.splits\<close>)
  qed (use st(2) in \<open>auto simp: parse_header_line_eq assms r r' stable_out_def\<close>)
qed

lemma stable_parse_headers:
  "stable_out ys (parse_headers m c hs n) (parse_headers m (ext ys c) hs n)"
proof (induction m c hs n rule: parse_headers_induct)
  case (Nil m p hs n)
  then show ?case by (simp add: parse_headers_Nil stable_out_def)
next
  case (Cons m p x r hs n)
  obtain q h where l: "parse_header_line n (hs ! n) (p, x # r) = (q, h)" by fastforce
  obtain q' h' where l': "parse_header_line n (hs ! n) (p, x # r @ ys) = (q', h')" by fastforce
  have st: "stable (ext ys) q q'" "q \<noteq> Ret (- 2) \<and> q \<noteq> Overread \<longrightarrow> h' = h"
    using stable_parse_header_line [of "(p, x # r)" ys n "hs ! n"] l l' by (simp_all add: stable_out_def)
  have sf: "safe q" using safe_parse_header_line [of "(p, x # r)" n "hs ! n"] l by simp
  have ex: "stable (ext ys) (EXPECT_CHAR 10 (Suc p, r)) (EXPECT_CHAR 10 (Suc p, r @ ys))"
    using stable_EXPECT_CHAR [of ys 10 "(Suc p, r)"] by simp
  show ?case
  proof (cases "x = 13 \<or> x = 10 \<or> n = m \<or> \<not> n < length hs")
    case True
    then show ?thesis using ex by (auto simp: parse_headers_Cons stable_out_def stable_Ok)
  next
    case False
    from st(1) sf show ?thesis
      by (cases rule: stable_cases)
        (use False st(2) l l' Cons.IH in \<open>auto simp: parse_headers_Cons stable_out_def\<close>)
  qed
qed

lemma stable_request_line: "stable_out ys (request_line c rq) (request_line (ext ys c) rq)"
proof -
  let ?m = "\<lambda>c. bind_parse (CHECK_EOF c) (\<lambda>_. bind_parse (parse_crlf True c) ADVANCE_TOKEN)"
  have "stable (apsnd (ext ys)) (?m c) (?m (ext ys c))"
    by (rule stable_bind [OF stable_CHECK_EOF], rule stable_bind [OF stable_parse_crlf]) (rule stables)
  moreover have "safe (?m c)" by (auto intro!: safe_bind safes)
  ultimately show ?thesis
  proof (cases rule: stable_cases)
    case (1 t)
    then obtain tk c1 where m: "?m c = Ok (tk, c1)" "?m (ext ys c) = Ok (tk, ext ys c1)" by (cases t) auto
    have "snd c1 \<noteq> []" using m(1) by (cases tk) (auto simp: parse_simps dest: ADVANCE_TOKEN_slice)
    from stable_ADVANCE_TOKEN [of ys "next_char c1"] safe_ADVANCE_TOKEN [of "next_char c1"] show ?thesis
    proof (cases rule: stable_cases)
      case (1 u)
      then obtain tk' c2 where p: "ADVANCE_TOKEN (next_char c1) = Ok (tk', c2)"
          "ADVANCE_TOKEN (ext ys (next_char c1)) = Ok (tk', ext ys c2)" by (cases u) auto
      have "snd c2 \<noteq> []" using p(1) by (cases tk') (auto dest: ADVANCE_TOKEN_slice)
      from stable_parse_http_version [of ys "next_char c2"] safe_parse_http_version [of "next_char c2"] show ?thesis
        by (cases rule: stable_cases)
          (use m p \<open>snd c1 \<noteq> []\<close> \<open>snd c2 \<noteq> []\<close> stable_parse_crlf in
            \<open>auto simp: request_line_def Let_def stable_out_def split: prod.splits\<close>)
    qed (use m \<open>snd c1 \<noteq> []\<close> in \<open>auto simp: request_line_def Let_def stable_out_def split: prod.splits\<close>)
  qed (auto simp: request_line_def stable_out_def)
qed

lemma stable_parse_request: "stable_out ys (parse_request m c rq) (parse_request m (ext ys c) rq)"
proof -
  obtain r rq1 where l: "request_line c rq = (r, rq1)" by fastforce
  obtain r' rq1' where l': "request_line (ext ys c) rq = (r', rq1')" by fastforce
  have st: "stable (ext ys) r r'" "r \<noteq> Ret (- 2) \<and> r \<noteq> Overread \<longrightarrow> rq1' = rq1"
    using stable_request_line [of ys c rq] l l' by (simp_all add: stable_out_def)
  have "safe r" using safe_request_line [of c rq] l by simp
  with st(1) show ?thesis
  proof (cases rule: stable_cases)
    case (1 c1)
    then show ?thesis
      using st(2) stable_parse_headers [of ys m c1 "req_headers rq1" "req_num_headers rq1"] l l'
      by (auto simp: parse_request_eq Let_def stable_out_def case_prod_beta)
  qed (use st(2) l l' in \<open>auto simp: parse_request_eq stable_out_def\<close>)
qed

lemma request_result:
  assumes "req_num_headers rq \<le> length (req_headers rq)" and "last_len \<le> length buf + 3" and "length buf < 2 ^ 31"
  shows "\<exists>n rq'. phr_parse_request buf last_len rq = (Inr n, rq') \<and>
     (n = - 1 \<or> n = - 2 \<or>
      0 < n \<and> n \<le> int (length buf) \<and> request_within (nat n) rq' \<and> req_num_headers rq' \<le> req_num_headers rq \<and>
      0 \<le> req_minor_version rq' \<and> req_minor_version rq' \<le> 9)"
proof -
  let ?m = "req_num_headers rq"
  let ?rq = "rq\<lparr>req_method := None, req_method_len := 0, req_path := None, req_path_len := 0,
                  req_minor_version := - 1, req_num_headers := 0\<rparr>"
  obtain r rq' where p: "parse_request ?m (0, buf) ?rq = (r, rq')" by fastforce
  have sf: "safe r" using safe_parse_request [of ?m ?rq "(0, buf)"] p assms(1) by simp
  show ?thesis
  proof (cases "check_last_len buf last_len")
    case (Ok u)
    show ?thesis
    proof (cases r)
      case (Ok c)
      have w: "reaches (0, buf) c" "0 < fst c" "request_within (fst c) rq'" "req_num_headers rq' \<le> ?m"
          "0 \<le> req_minor_version rq' \<and> req_minor_version rq' \<le> 9"
        using parse_request_within [of ?m "(0, buf)" ?rq c rq'] p Ok by auto
      have "fst c \<le> length buf" using reaches_length [OF w(1)] by simp
      then show ?thesis
        using w \<open>check_last_len buf last_len = Ok u\<close> p Ok assms(3)
        by (auto simp: phr_parse_request_def Let_def parse_result_def to_int32_small)
    qed (use sf p \<open>check_last_len buf last_len = Ok u\<close> in \<open>auto simp: phr_parse_request_def Let_def parse_result_def\<close>)
  qed (use safe_check_last_len [OF assms(2)] in \<open>auto simp: phr_parse_request_def Let_def\<close>)
qed

lemma request_stable:
  assumes "phr_parse_request buf 0 rq = (Inr n, rq')" and "n \<noteq> - 2"
    and "req_num_headers rq \<le> length (req_headers rq)" and "length (buf @ ys) < 2 ^ 31"
  shows "phr_parse_request (buf @ ys) 0 rq = (Inr n, rq')"
proof -
  let ?m = "req_num_headers rq"
  let ?rq = "rq\<lparr>req_method := None, req_method_len := 0, req_path := None, req_path_len := 0,
                  req_minor_version := - 1, req_num_headers := 0\<rparr>"
  obtain r q where p: "parse_request ?m (0, buf) ?rq = (r, q)" by fastforce
  obtain r2 q2 where p2: "parse_request ?m (0, buf @ ys) ?rq = (r2, q2)" by fastforce
  have r: "parse_result r = Inr n" "q = rq'"
    using assms(1) p by (simp_all add: phr_parse_request_def check_last_len_def Let_def)
  have st: "stable (ext ys) r r2" "r \<noteq> Ret (- 2) \<and> r \<noteq> Overread \<longrightarrow> q2 = q"
    using stable_parse_request [of ys ?m "(0, buf)" ?rq] p p2 by (simp_all add: stable_out_def)
  have "safe r" using safe_parse_request [of ?m ?rq "(0, buf)"] p assms(3) by simp
  with st(1) have "parse_result r2 = Inr n \<and> q2 = rq'"
    by (cases rule: stable_cases) (use r st(2) assms(2) in \<open>auto simp: parse_result_def\<close>)
  then show ?thesis using p2 by (simp add: phr_parse_request_def check_last_len_def Let_def)
qed

section \<open>Properties\<close>

text \<open>
  Property C21: the request parser is memory safe and its answer means what the header file
  says. For every content of the buffer it reads inside the buffer only and stores inside
  the header array only; it returns -1, -2 or the number of bytes consumed, and in the last
  case the method, the path and each of the headers (at most as many as the caller allowed)
  are slices of the consumed bytes and the version is one digit.
\<close>

theorem phr_parse_request_safe:
  assumes "req_num_headers rq \<le> length (req_headers rq)" and "last_len \<le> length buf + 3" and "length buf < 2 ^ 31"
  shows "\<exists>n rq'. phr_parse_request buf last_len rq = (Inr n, rq') \<and>
     (n = - 1 \<or> n = - 2 \<or>
      0 < n \<and> n \<le> int (length buf) \<and> request_within (nat n) rq' \<and> req_num_headers rq' \<le> req_num_headers rq \<and>
      0 \<le> req_minor_version rq' \<and> req_minor_version rq' \<le> 9)"
  by (rule request_result [OF assms])

text \<open>\<^verbatim>\<open>GET /a HTTP/1.1\r\nHost: h\r\n\r\n\<close>, parsed with room for two headers.\<close>

definition request_ex :: "byte list" where
  "request_ex = [71, 69, 84, 32, 47, 97, 32, 72, 84, 84, 80, 47, 49, 46, 49, 13, 10,
     72, 111, 115, 116, 58, 32, 104, 13, 10, 13, 10]"

definition rq_ex :: HttpRequest where
  "rq_ex = \<lparr>req_method = None, req_method_len = 0, req_path = None, req_path_len = 0, req_minor_version = 0,
     req_headers = replicate 2 \<lparr>hdr_name = None, hdr_name_len = 0, hdr_value = None, hdr_value_len = 0\<rparr>,
     req_num_headers = 2\<rparr>"

definition rq_ex' :: HttpRequest where
  "rq_ex' = \<lparr>req_method = Some 0, req_method_len = 3, req_path = Some 4, req_path_len = 2, req_minor_version = 1,
     req_headers = [\<lparr>hdr_name = Some 17, hdr_name_len = 4, hdr_value = Some 23, hdr_value_len = 1\<rparr>,
       \<lparr>hdr_name = None, hdr_name_len = 0, hdr_value = None, hdr_value_len = 0\<rparr>],
     req_num_headers = 1\<rparr>"

lemma request_ex_parse: "phr_parse_request request_ex 0 rq_ex = (Inr 28, rq_ex')"
  by code_simp

lemma rq_ex_bounds: "req_num_headers rq_ex \<le> length (req_headers rq_ex)" "length request_ex = 28"
  by (simp_all add: rq_ex_def request_ex_def)

theorem phr_parse_request_safe_witness:
  "\<exists>n rq'. phr_parse_request request_ex 0 rq_ex = (Inr n, rq') \<and> n = 28 \<and> request_within 28 rq'"
  using phr_parse_request_safe [OF rq_ex_bounds(1), of 0 request_ex] request_ex_parse rq_ex_bounds(2) by auto

text \<open>
  Property C24: a verdict is final. When the parser accepts or rejects the bytes received so
  far, it gives the same answer, with the same method, path, version and headers, for these
  bytes followed by any others; so only the answer -2 may change with later input.
\<close>

theorem phr_parse_request_stable:
  assumes "phr_parse_request buf 0 rq = (Inr n, rq')" and "n \<noteq> - 2"
    and "req_num_headers rq \<le> length (req_headers rq)" and "length (buf @ ys) < 2 ^ 31"
  shows "phr_parse_request (buf @ ys) 0 rq = (Inr n, rq')"
  by (rule request_stable [OF assms])

theorem phr_parse_request_stable_witness:
  "phr_parse_request (request_ex @ [71, 69]) 0 rq_ex = (Inr 28, rq_ex')"
  using phr_parse_request_stable [OF request_ex_parse _ rq_ex_bounds(1), of "[71, 69]"] rq_ex_bounds(2) by simp

text \<open>
  Property C23: incremental parsing. If a buffer holds a request of \<open>n\<close> bytes, then every
  shorter prefix of it is reported as incomplete, never as malformed and never as a shorter
  request, so reading on leads to the request.
\<close>

theorem phr_parse_request_incremental:
  assumes "phr_parse_request buf 0 rq = (Inr n, rq')" and "0 < n" and "k < nat n"
    and "req_num_headers rq \<le> length (req_headers rq)" and "length buf < 2 ^ 31"
  shows "fst (phr_parse_request (take k buf) 0 rq) = Inr (- 2)"
proof -
  have len: "length (take k buf) < 2 ^ 31" using assms(5) by simp
  obtain j rq2 where j: "phr_parse_request (take k buf) 0 rq = (Inr j, rq2)"
      "j = - 1 \<or> j = - 2 \<or> 0 < j \<and> j \<le> int (length (take k buf))"
    using request_result [OF assms(4) _ len, of 0] by auto
  have "j = - 2"
  proof (rule ccontr)
    assume "j \<noteq> - 2"
    then have "j = n" using request_stable [OF j(1) _ assms(4), of "drop k buf"] assms(1,5) by simp
    with j(2) assms(2,3) show False by auto
  qed
  with j(1) show ?thesis by simp
qed

theorem phr_parse_request_incremental_witness:
  "fst (phr_parse_request (take 20 request_ex) 0 rq_ex) = Inr (- 2)"
  using phr_parse_request_incremental [OF request_ex_parse _ _ rq_ex_bounds(1), of 20] rq_ex_bounds(2) by simp

text \<open>
  \<^verbatim>\<open>get_token_to_eol\<close>, whose loop is unrolled eight times, is the loop over
  single bytes that the comment calls the hottest code: skip everything but control
  characters, then take the line end.
\<close>

lemma get_token_to_eol_unrolled:
  "get_token_to_eol cur = bind_parse (eol_slow cur) (FOUND_CTL (fst cur))"
  by (rule get_token_to_eol_slow)

end
