(* ===== verification/Http_Parser_Roundtrip.thy ===== *)
theory Http_Parser_Roundtrip
  imports Http_Parser_Safety
begin

text \<open>
  The parser against the grammar: requests and responses written out byte by byte are
  parsed back to their parts, for every method, path, version and list of headers.
\<close>

section \<open>Writing headers and requests\<close>

definition token_bytes :: "byte list \<Rightarrow> bool" where
  "token_bytes n \<longleftrightarrow> (\<forall>b\<in>set n. is_token_char b)"

definition value_bytes :: "byte list \<Rightarrow> bool" where
  "value_bytes v \<longleftrightarrow> (\<forall>b\<in>set v. \<not> is_ctl b) \<and> (v \<noteq> [] \<longrightarrow> hd v \<noteq> 32 \<and> hd v \<noteq> 9)"

definition word_bytes :: "byte list \<Rightarrow> bool" where
  "word_bytes w \<longleftrightarrow> (\<forall>b\<in>set w. 32 < b \<and> b \<noteq> 127)"

definition header_ok :: "byte list \<times> byte list \<Rightarrow> bool" where
  "header_ok h \<longleftrightarrow> fst h \<noteq> [] \<and> token_bytes (fst h) \<and> value_bytes (snd h)"

definition print_header :: "byte list \<times> byte list \<Rightarrow> byte list" where
  "print_header h = fst h @ [58, 32] @ snd h @ [13, 10]"

definition print_headers :: "(byte list \<times> byte list) list \<Rightarrow> byte list" where
  "print_headers hs = concat (map print_header hs) @ [13, 10]"

definition print_version :: "nat \<Rightarrow> byte list" where
  "print_version v = [72, 84, 84, 80, 47, 49, 46, 48 + word_of_nat v]"

definition print_request :: "byte list \<Rightarrow> byte list \<Rightarrow> nat \<Rightarrow> (byte list \<times> byte list) list \<Rightarrow> byte list" where
  "print_request m pa v hs = m @ [32] @ pa @ [32] @ print_version v @ [13, 10] @ print_headers hs"

text \<open>The entries of the header array for headers written at position \<open>p\<close>.\<close>

fun header_slots :: "nat \<Rightarrow> (byte list \<times> byte list) list \<Rightarrow> phr_header list" where
  "header_slots p [] = []"
| "header_slots p (h # hs) =
     \<lparr>hdr_name = Some p, hdr_name_len = length (fst h),
      hdr_value = Some (p + length (fst h) + 2), hdr_value_len = length (snd h)\<rparr> #
     header_slots (p + length (print_header h)) hs"

lemma length_header_slots [simp]: "length (header_slots p hs) = length hs"
  by (induction p hs rule: header_slots.induct) auto

section \<open>The loops on written text\<close>

lemma ctl_not_printable: "is_ctl b \<Longrightarrow> \<not> IS_PRINTABLE_ASCII b"
proof -
  assume "is_ctl b"
  then consider "b < 32" | "b = 127" by (auto simp: is_ctl_def)
  then show ?thesis
  proof cases
    case 1
    then have "uint b < 32" by (simp add: word_less_def)
    moreover have "(uint b - 32) mod 4294967296 = uint b - 32 + 4294967296" if "uint b < 32"
      using that mod_add_self2 [of "uint b - 32" "4294967296"]
        mod_pos_pos_trivial [of "uint b - 32 + 4294967296" 4294967296] by simp
    ultimately show ?thesis
      by (simp add: IS_PRINTABLE_ASCII_def word_less_def uint_word_ariths unsigned_ucast_eq take_bit_int_eq_self)
        (use uint_ge_0 [of b] in linarith)
  qed (simp add: IS_PRINTABLE_ASCII_def)
qed

lemma eol_slow_text:
  "\<lbrakk>\<forall>b\<in>set v. \<not> is_ctl b; is_ctl c\<rbrakk> \<Longrightarrow> eol_slow (p, v @ c # r) = Ok (p + length v, c # r)"
  by (induction v arbitrary: p) (auto simp: ctl_not_printable)

lemma is_ctl_line_end [simp]: "is_ctl 13" "is_ctl 10" "\<not> is_ctl 32"
  by (simp_all add: is_ctl_def)

lemma get_token_to_eol_text:
  "\<forall>b\<in>set v. \<not> is_ctl b \<Longrightarrow>
     get_token_to_eol (p, v @ 13 # 10 # r) = Ok ((p, length v), (p + length v + 2, r))"
  by (simp add: get_token_to_eol_slow eol_slow_text FOUND_CTL_def EXPECT_CHAR_def EXPECT_CHAR_NO_CHECK_def CHECK_EOF_def)

lemma colon_no_token [simp]: "\<not> is_token_char 58" "\<not> is_token_char 13" "\<not> is_token_char 10"
    "\<not> is_token_char 32" "\<not> is_token_char 9"
  by code_simp+

lemma name_loop_text: "token_bytes n \<Longrightarrow> name_loop (p, n @ 58 # r) = Ok (p + length n, 58 # r)"
  by (induction n arbitrary: p) (auto simp: token_bytes_def)

lemma skip_blanks_stop: "c \<noteq> 32 \<and> c \<noteq> 9 \<Longrightarrow> skip_blanks (p, c # r) = Ok (p, c # r)"
  by simp

lemma skip_blanks_value:
  "value_bytes v \<Longrightarrow> skip_blanks (p, 32 # v @ 13 # r) = Ok (Suc p, v @ 13 # r)"
  by (cases v) (auto simp: value_bytes_def)

lemma parse_header_line_text:
  assumes "header_ok h"
  shows "parse_header_line k e (p, print_header h @ r) =
     (Ok (p + length (print_header h), r), hd (header_slots p [h]))"
proof -
  obtain n v where h: "h = (n, v)" by fastforce
  have ok: "n \<noteq> []" "token_bytes n" "value_bytes v" using assms h by (auto simp: header_ok_def)
  then obtain x n' where n: "n = x # n'" "is_token_char x" by (cases n) (auto simp: token_bytes_def)
  have x: "x \<noteq> 32 \<and> x \<noteq> 9" using n(2) by auto
  let ?t = "print_header h @ r"
  have t: "?t = n @ 58 # 32 # v @ 13 # 10 # r" by (simp add: print_header_def h)
  have nl: "name_loop (p, ?t) = Ok (p + length n, 58 # 32 # v @ 13 # 10 # r)"
    unfolding t by (rule name_loop_text [OF ok(2)])
  have st: "header_start k e (p, ?t) =
      (Ok (p + length n + 2, v @ 13 # 10 # r), e\<lparr>hdr_name := Some p, hdr_name_len := length n\<rparr>)"
    using nl x n skip_blanks_value [OF ok(3), of "p + length n + 1" "10 # r"]
    by (simp add: header_start_def parse_header_name_def CHECK_EOF_def t Let_def)
  have "snd (p, ?t) \<noteq> []" by (simp add: t)
  from parse_header_line_eq [OF this, of k e] show ?thesis
    using st get_token_to_eol_text [of v "p + length n + 2" r] ok(3)
    by (simp add: value_bytes_def h print_header_def)
qed

lemma header_first_char:
  "header_ok h \<Longrightarrow> \<exists>x r. print_header h = x # r \<and> x \<noteq> 13 \<and> x \<noteq> 10"
  by (cases "fst h") (auto simp: header_ok_def token_bytes_def print_header_def)

lemma parse_headers_text:
  "\<lbrakk>\<forall>h\<in>set hs. header_ok h; k + length hs \<le> m; m \<le> length HS\<rbrakk> \<Longrightarrow>
   parse_headers m (p, print_headers hs @ r) HS k =
     (Ok (p + length (print_headers hs), r), take k HS @ header_slots p hs @ drop (k + length hs) HS, k + length hs)"
proof (induction hs arbitrary: p HS k)
  case Nil
  then show ?case
    by (simp add: print_headers_def parse_headers_Cons EXPECT_CHAR_def EXPECT_CHAR_NO_CHECK_def CHECK_EOF_def)
next
  case (Cons h hs)
  then obtain x t where x: "print_header h = x # t" "x \<noteq> 13" "x \<noteq> 10"
    using header_first_char [of h] by auto
  let ?e = "hd (header_slots p [h])"
  let ?rest = "print_headers hs @ r"
  have buf: "print_headers (h # hs) @ r = print_header h @ ?rest" by (simp add: print_headers_def)
  have line: "parse_header_line k (HS ! k) (p, x # t @ ?rest) = (Ok (p + length (print_header h), ?rest), ?e)"
    using parse_header_line_text [of h k "HS ! k" p ?rest] Cons.prems(1) x(1) by simp
  have IH: "parse_headers m (p + length (print_header h), ?rest) (HS[k := ?e]) (Suc k) =
      (Ok (p + length (print_header h) + length (print_headers hs), r),
       take (Suc k) (HS[k := ?e]) @ header_slots (p + length (print_header h)) hs @ drop (Suc k + length hs) (HS[k := ?e]),
       Suc k + length hs)"
    using Cons.IH [of "Suc k" "HS[k := ?e]" "p + length (print_header h)"] Cons.prems by simp
  have arr: "take (Suc k) (HS[k := ?e]) @ header_slots (p + length (print_header h)) hs @ drop (Suc k + length hs) (HS[k := ?e]) =
      take k HS @ header_slots p (h # hs) @ drop (k + length (h # hs)) HS"
    using Cons.prems by (simp add: take_Suc_conv_app_nth)
  have "parse_headers m (p, x # t @ ?rest) HS k =
      parse_headers m (p + length (print_header h), ?rest) (HS[k := ?e]) (Suc k)"
    unfolding parse_headers_Cons line using x Cons.prems by simp
  then show ?case
    using IH arr by (simp add: buf x(1) print_headers_def)
qed

lemma advance_loop_text:
  "word_bytes w \<Longrightarrow> advance_loop (p, w @ 32 # r) = Ok (p + length w, 32 # r)"
  by (induction w arbitrary: p) (auto simp: word_bytes_def)

lemma ADVANCE_TOKEN_text:
  "word_bytes w \<Longrightarrow> ADVANCE_TOKEN (p, w @ 32 # r) = Ok ((p, length w), (p + length w, 32 # r))"
  by (simp add: ADVANCE_TOKEN_def CHECK_EOF_def advance_loop_text)

lemma digit_byte: "v \<le> 9 \<Longrightarrow> uint (48 + word_of_nat v :: byte) = 48 + int v"
  by (simp add: uint_word_ariths unsigned_of_nat take_bit_nat_eq_self)

lemma PARSE_INT_digit_text:
  "v \<le> 9 \<Longrightarrow> PARSE_INT mul (p, (48 + word_of_nat v) # r) = Ok (mul * int v, (Suc p, r))"
  using digit_byte [of v] by (simp add: PARSE_INT_def word_less_def)

lemma parse_http_version_text:
  "\<lbrakk>v \<le> 9; r \<noteq> []\<rbrakk> \<Longrightarrow> parse_http_version (p, print_version v @ r) = Ok (int v, (p + 8, r))"
  by (cases r)
    (auto simp: parse_http_version_def print_version_def EXPECT_CHAR_NO_CHECK_def PARSE_INT_digit_text)

lemma parse_crlf_text: "parse_crlf opt (p, 13 # 10 # r) = Ok (p + 2, r)"
  by (simp add: parse_crlf_def EXPECT_CHAR_def EXPECT_CHAR_NO_CHECK_def CHECK_EOF_def)

lemma request_line_text:
  assumes "word_bytes m" and "word_bytes pa" and "v \<le> 9"
  shows "request_line (p, m @ [32] @ pa @ [32] @ print_version v @ [13, 10] @ r) rq =
     (Ok (p + length m + length pa + 12, r),
      rq\<lparr>req_method := Some p, req_method_len := length m, req_path := Some (p + length m + 1),
         req_path_len := length pa, req_minor_version := int v\<rparr>)"
proof -
  let ?t = "m @ 32 # pa @ 32 # print_version v @ 13 # 10 # r"
  have first: "parse_crlf True (p, ?t) = Ok (p, ?t)"
    using assms(1) by (cases m) (auto simp: parse_crlf_def word_bytes_def)
  have m: "ADVANCE_TOKEN (p, ?t) = Ok ((p, length m), (p + length m, 32 # pa @ 32 # print_version v @ 13 # 10 # r))"
    by (rule ADVANCE_TOKEN_text [OF assms(1)])
  have pa: "ADVANCE_TOKEN (Suc (p + length m), pa @ 32 # print_version v @ 13 # 10 # r) =
      Ok ((Suc (p + length m), length pa), (Suc (p + length m) + length pa, 32 # print_version v @ 13 # 10 # r))"
    by (rule ADVANCE_TOKEN_text [OF assms(2)])
  have v: "parse_http_version (Suc (Suc (p + length m) + length pa), print_version v @ 13 # 10 # r) =
      Ok (int v, (Suc (Suc (p + length m) + length pa) + 8, 13 # 10 # r))"
    by (rule parse_http_version_text) (simp_all add: assms)
  show ?thesis
    by (simp add: request_line_def CHECK_EOF_def first m pa v [simplified] parse_crlf_text Let_def)
qed

text \<open>The bytes a pointer and a length of the out parameters stand for.\<close>

definition bytes_at :: "byte list \<Rightarrow> nat option \<Rightarrow> nat \<Rightarrow> byte list" where
  "bytes_at buf p l = (case p of None \<Rightarrow> [] | Some i \<Rightarrow> take l (drop i buf))"

definition hdr_slices :: "byte list \<Rightarrow> phr_header \<Rightarrow> byte list \<times> byte list" where
  "hdr_slices buf h = (bytes_at buf (hdr_name h) (hdr_name_len h), bytes_at buf (hdr_value h) (hdr_value_len h))"

lemma bytes_at_app: "bytes_at (a @ b @ c) (Some (length a)) (length b) = b"
  by (simp add: bytes_at_def)

lemma hdr_slices_slots:
  "map (hdr_slices (pre @ concat (map print_header hs) @ post)) (header_slots (length pre) hs) = hs"
proof (induction hs arbitrary: pre)
  case (Cons h hs)
  have "bytes_at (pre @ fst h @ ([58, 32] @ snd h @ [13, 10] @ concat (map print_header hs) @ post)) (Some (length pre)) (length (fst h)) = fst h"
    by (rule bytes_at_app)
  moreover have "bytes_at ((pre @ fst h @ [58, 32]) @ snd h @ ([13, 10] @ concat (map print_header hs) @ post))
      (Some (length (pre @ fst h @ [58, 32]))) (length (snd h)) = snd h"
    by (rule bytes_at_app)
  ultimately show ?case
    using Cons.IH [of "pre @ print_header h"] by (simp add: print_header_def [of h] hdr_slices_def)
qed simp

text \<open>The out parameters after a written request.\<close>

definition text_request :: "byte list \<Rightarrow> byte list \<Rightarrow> nat \<Rightarrow> (byte list \<times> byte list) list \<Rightarrow> HttpRequest \<Rightarrow> HttpRequest" where
  "text_request m pa v hs rq =
     rq\<lparr>req_method := Some 0, req_method_len := length m, req_path := Some (length m + 1),
        req_path_len := length pa, req_minor_version := int v,
        req_headers := header_slots (length m + length pa + 12) hs @ drop (length hs) (req_headers rq),
        req_num_headers := length hs\<rparr>"

lemma phr_parse_request_text:
  assumes "word_bytes m" and "word_bytes pa" and "v \<le> 9" and "\<forall>h\<in>set hs. header_ok h"
    and "length hs \<le> req_num_headers rq" and "req_num_headers rq \<le> length (req_headers rq)"
    and "length (print_request m pa v hs) < 2 ^ 31"
  shows "phr_parse_request (print_request m pa v hs @ body) 0 rq =
     (Inr (int (length (print_request m pa v hs))), text_request m pa v hs rq)"
proof -
  let ?rq = "rq\<lparr>req_method := None, req_method_len := 0, req_path := None, req_path_len := 0,
                  req_minor_version := - 1, req_num_headers := 0\<rparr>"
  have "parse_request (req_num_headers rq) (0, print_request m pa v hs @ body) ?rq =
      (Ok (length (print_request m pa v hs), body), text_request m pa v hs rq)"
    using request_line_text [OF assms(1-3), of 0 "print_headers hs @ body" ?rq]
      parse_headers_text [OF assms(4), of 0 "req_num_headers rq" "req_headers rq" "length m + length pa + 12" body] assms(5,6)
    by (simp add: parse_request_eq print_request_def print_version_def text_request_def)
  then show ?thesis
    using to_int32_small [OF assms(7)] by (simp add: phr_parse_request_def check_last_len_def parse_result_def)
qed

lemma text_request_slices:
  assumes "buf = print_request m pa v hs @ body"
  shows "bytes_at buf (req_method (text_request m pa v hs rq)) (req_method_len (text_request m pa v hs rq)) = m"
    and "bytes_at buf (req_path (text_request m pa v hs rq)) (req_path_len (text_request m pa v hs rq)) = pa"
    and "req_minor_version (text_request m pa v hs rq) = int v"
    and "req_num_headers (text_request m pa v hs rq) = length hs"
    and "map (hdr_slices buf) (take (length hs) (req_headers (text_request m pa v hs rq))) = hs"
proof -
  let ?line = "m @ [32] @ pa @ [32] @ print_version v @ [13, 10]"
  have buf: "buf = ?line @ print_headers hs @ body" using assms by (simp add: print_request_def)
  have len: "length ?line = length m + length pa + 12" by (simp add: print_version_def)
  show "map (hdr_slices buf) (take (length hs) (req_headers (text_request m pa v hs rq))) = hs"
    using hdr_slices_slots [of ?line hs "[13, 10] @ body"] unfolding len by (simp add: buf print_headers_def text_request_def)
  show "bytes_at buf (req_method (text_request m pa v hs rq)) (req_method_len (text_request m pa v hs rq)) = m"
    using bytes_at_app [of "[]" m] by (simp add: buf text_request_def)
  show "bytes_at buf (req_path (text_request m pa v hs rq)) (req_path_len (text_request m pa v hs rq)) = pa"
    using bytes_at_app [of "m @ [32]" pa] by (simp add: buf text_request_def)
qed (simp_all add: text_request_def)

section \<open>Properties\<close>

text \<open>
  Property C22: printing and parsing a request. Whatever the method, the path, the digit of
  the version and the headers, the request written on the wire, followed by any body, is
  parsed: the parser consumes exactly the request and hands out exactly its parts, in order.
\<close>

theorem phr_parse_request_roundtrip:
  assumes "word_bytes m" and "word_bytes pa" and "v \<le> 9" and "\<forall>h\<in>set hs. header_ok h"
    and "length hs \<le> req_num_headers rq" and "req_num_headers rq \<le> length (req_headers rq)"
    and "buf = print_request m pa v hs @ body" and "length buf < 2 ^ 31"
  shows "\<exists>rq'. phr_parse_request buf 0 rq = (Inr (int (length (print_request m pa v hs))), rq') \<and>
     bytes_at buf (req_method rq') (req_method_len rq') = m \<and> bytes_at buf (req_path rq') (req_path_len rq') = pa \<and>
     req_minor_version rq' = int v \<and> req_num_headers rq' = length hs \<and>
     map (hdr_slices buf) (take (length hs) (req_headers rq')) = hs"
proof -
  have parse: "phr_parse_request buf 0 rq = (Inr (int (length (print_request m pa v hs))), text_request m pa v hs rq)"
    unfolding assms(7) using assms(7,8) by (intro phr_parse_request_text [OF assms(1-6)]) simp
  show ?thesis using parse text_request_slices [OF assms(7), of rq] by simp
qed

theorem phr_parse_request_roundtrip_witness:
  "\<exists>rq'. phr_parse_request (request_ex @ [1, 2]) 0 rq_ex = (Inr 28, rq') \<and>
     bytes_at (request_ex @ [1, 2]) (req_path rq') (req_path_len rq') = [47, 97] \<and>
     map (hdr_slices (request_ex @ [1, 2])) (take 1 (req_headers rq')) = [([72, 111, 115, 116], [104])]"
proof -
  let ?hs = "[([72, 111, 115, 116], [104])] :: (byte list \<times> byte list) list"
  have b: "request_ex = print_request [71, 69, 84] [47, 97] 1 ?hs"
    by (simp add: request_ex_def print_request_def print_version_def print_headers_def print_header_def)
  have tok: "is_token_char 72" "is_token_char 111" "is_token_char 115" "is_token_char 116" by code_simp+
  have ok: "word_bytes [71, 69, 84]" "word_bytes [47, 97]" "\<forall>h\<in>set ?hs. header_ok h"
    by (simp_all add: word_bytes_def header_ok_def token_bytes_def value_bytes_def is_ctl_def tok)
  have rq: "length ?hs \<le> req_num_headers rq_ex" "req_num_headers rq_ex \<le> length (req_headers rq_ex)"
    by (simp_all add: rq_ex_def)
  have "length (request_ex @ [1, 2]) < 2 ^ 31" by (simp add: request_ex_def)
  from phr_parse_request_roundtrip [OF ok(1,2) _ ok(3) rq arg_cong [of _ _ "\<lambda>x. x @ [1, 2]", OF b] this]
  show ?thesis using rq_ex_bounds(2) arg_cong [OF b, of length] by auto
qed

end
