(* ===== verification/Http_Parser_Sse.thy ===== *)
theory Http_Parser_Sse
  imports Http_Parser_Roundtrip
begin

text \<open>
  src/picohttpparser.c as a compiler with SSE 4.2 builds it (\<^verbatim>\<open>__SSE4_2__\<close>): \<^verbatim>\<open>findchar_fast\<close>
  compares sixteen bytes at a time with a list of character ranges, in front of the loops of
  \<^verbatim>\<open>ADVANCE_TOKEN\<close>, \<^verbatim>\<open>get_token_to_eol\<close> (where it replaces the loop unrolled eight times) and
  \<^verbatim>\<open>parse_headers\<close>. The whole parser is shown to equal the one compiled without.
  The load of the ranges reads sixteen bytes, more than two of the three arrays have: the
  bytes that follow these arrays in memory are an argument, and a load past them is an
  \<open>Overread\<close>.
\<close>

section \<open>The instructions\<close>

text \<open>\<^verbatim>\<open>_mm_loadu_si128\<close>: sixteen bytes of a region.\<close>

definition mm_loadu_si128 :: "byte list \<Rightarrow> byte list parse" where
  "mm_loadu_si128 bs = (if length bs < 16 then Overread else Ok (take 16 bs))"

text \<open>
  \<^verbatim>\<open>_mm_cmpestri\<close> with \<^verbatim>\<open>_SIDD_LEAST_SIGNIFICANT | _SIDD_CMP_RANGES | _SIDD_UBYTE_OPS\<close>: the first
  of the \<open>lb\<close> bytes of \<open>b\<close> that is in one of the ranges, given by the first \<open>la\<close> bytes of \<open>a\<close> as
  pairs of bounds, and 16 when there is none.
\<close>

fun in_ranges :: "byte list \<Rightarrow> byte \<Rightarrow> bool" where
  "in_ranges (lo # hi # rs) c \<longleftrightarrow> lo \<le> c \<and> c \<le> hi \<or> in_ranges rs c"
| "in_ranges rs c \<longleftrightarrow> False"

definition mm_cmpestri :: "byte list \<Rightarrow> nat \<Rightarrow> byte list \<Rightarrow> nat \<Rightarrow> nat" where
  "mm_cmpestri a la b lb =
     (let bs = take (min lb 16) b; r = length (takeWhile (\<lambda>c. \<not> in_ranges (take (min la 16) a) c) bs)
      in if r < length bs then r else 16)"

section \<open>Skipping sixteen bytes at a time\<close>

definition advance :: "nat \<Rightarrow> cursor \<Rightarrow> cursor" where
  "advance n cur = (fst cur + n, drop n (snd cur))"

text \<open>The \<^verbatim>\<open>do ... while\<close> of \<^verbatim>\<open>findchar_fast\<close>; the flag is \<^verbatim>\<open>*found\<close>.\<close>

function findchar_loop :: "byte list \<Rightarrow> nat \<Rightarrow> nat \<Rightarrow> cursor \<Rightarrow> (bool \<times> cursor) parse" where
  "findchar_loop ranges16 ranges_size left cur =
     bind_parse (mm_loadu_si128 (snd cur)) (\<lambda>b16.
       let r = mm_cmpestri ranges16 ranges_size b16 16
       in if r \<noteq> 16 then Ok (True, advance r cur)
          else if left - 16 \<noteq> 0 then findchar_loop ranges16 ranges_size (left - 16) (advance 16 cur)
          else Ok (False, advance 16 cur))"
  by pat_completeness auto

termination findchar_loop
  by (relation "measure (\<lambda>(_, _, left, _). left)") auto

declare findchar_loop.simps [simp del]

definition findchar_fast :: "byte list \<Rightarrow> nat \<Rightarrow> cursor \<Rightarrow> (bool \<times> cursor) parse" where
  "findchar_fast ranges ranges_size cur =
     (if length (snd cur) \<ge> 16 then
        bind_parse (mm_loadu_si128 ranges) (\<lambda>ranges16.
          findchar_loop ranges16 ranges_size (length (snd cur) div 16 * 16) cur)
      else Ok (False, cur))"

section \<open>The parser\<close>

text \<open>The arrays of ranges with their terminating NUL, and what follows the first two in memory.\<close>

definition token_ranges :: "byte list" where
  "token_ranges = [0, 32, 127, 127, 0]"

definition eol_ranges :: "byte list" where
  "eol_ranges = [0, 8, 10, 31, 127, 127, 0]"

definition name_ranges :: "byte list" where
  "name_ranges = [0, 32, 34, 34, 40, 41, 44, 44, 47, 47, 58, 64, 91, 93, 123, 255, 0]"

record rodata =
  after_token_ranges :: "byte list"
  after_eol_ranges :: "byte list"

definition ADVANCE_TOKEN_sse :: "rodata \<Rightarrow> cursor \<Rightarrow> ((nat \<times> nat) \<times> cursor) parse" where
  "ADVANCE_TOKEN_sse rd cur =
     bind_parse (findchar_fast (token_ranges @ after_token_ranges rd) (length token_ranges - 1) cur) (\<lambda>(found2, cur1).
       bind_parse (if \<not> found2 then CHECK_EOF cur1 else Ok ()) (\<lambda>_.
         bind_parse (advance_loop cur1) (\<lambda>cur2. Ok ((fst cur, fst cur2 - fst cur), cur2))))"

definition get_token_to_eol_sse :: "rodata \<Rightarrow> cursor \<Rightarrow> ((nat \<times> nat) \<times> cursor) parse" where
  "get_token_to_eol_sse rd cur =
     bind_parse (findchar_fast (eol_ranges @ after_eol_ranges rd) (length eol_ranges - 1) cur) (\<lambda>(found, cur1).
       bind_parse (if found then Ok cur1 else eol_slow cur1) (FOUND_CTL (fst cur)))"

definition parse_header_name_sse :: "phr_header \<Rightarrow> cursor \<Rightarrow> cursor parse \<times> phr_header" where
  "parse_header_name_sse h cur =
     (let h = h\<lparr>hdr_name := Some (fst cur)\<rparr>
      in case bind_parse (findchar_fast name_ranges (length name_ranges - 1) cur) (\<lambda>(found, cur1).
                bind_parse (if \<not> found then CHECK_EOF cur1 else Ok ()) (\<lambda>_. name_loop cur1)) of
           Ok cur' \<Rightarrow>
             let h = h\<lparr>hdr_name_len := fst cur' - fst cur\<rparr>
             in if hdr_name_len h = 0 then (Ret (- 1), h)
                else (skip_blanks (next_char cur'), h)
         | Ret e \<Rightarrow> (Ret e, h)
         | Overread \<Rightarrow> (Overread, h))"

definition parse_header_line_sse :: "rodata \<Rightarrow> nat \<Rightarrow> phr_header \<Rightarrow> cursor \<Rightarrow> cursor parse \<times> phr_header" where
  "parse_header_line_sse rd n h cur =
     (case bind_parse (deref cur) (\<lambda>c. Ok (\<not> (n \<noteq> 0 \<and> (c = 32 \<or> c = 9)))) of
        Ok named \<Rightarrow>
          (case (if named then parse_header_name_sse h cur
                 else (Ok cur, h\<lparr>hdr_name := None, hdr_name_len := 0\<rparr>)) of
             (Ok cur', h) \<Rightarrow>
               (case get_token_to_eol_sse rd cur' of
                  Ok ((v, vl), cur'') \<Rightarrow> (Ok cur'', h\<lparr>hdr_value := Some v, hdr_value_len := vl\<rparr>)
                | Ret e \<Rightarrow> (Ret e, h)
                | Overread \<Rightarrow> (Overread, h))
           | (Ret e, h) \<Rightarrow> (Ret e, h)
           | (Overread, h) \<Rightarrow> (Overread, h))
      | Ret e \<Rightarrow> (Ret e, h)
      | Overread \<Rightarrow> (Overread, h))"

section \<open>What the search returns\<close>

text \<open>\<open>skips P c c'\<close>: the cursor moves over bytes that all satisfy \<open>P\<close>.\<close>

definition skips :: "(byte \<Rightarrow> bool) \<Rightarrow> cursor \<Rightarrow> cursor \<Rightarrow> bool" where
  "skips P c c' \<longleftrightarrow> (\<exists>bs. snd c = bs @ snd c' \<and> fst c' = fst c + length bs \<and> (\<forall>b\<in>set bs. P b))"

lemma skips_refl [simp]: "skips P c c"
  by (simp add: skips_def)

lemma skips_trans: "\<lbrakk>skips P a b; skips P b c\<rbrakk> \<Longrightarrow> skips P a c"
  by (force simp: skips_def)

lemma skips_advance: "\<lbrakk>n \<le> length (snd c); \<forall>b\<in>set (take n (snd c)). P b\<rbrakk> \<Longrightarrow> skips P c (advance n c)"
  unfolding skips_def advance_def by (intro exI [of _ "take n (snd c)"]) simp

lemma mm_cmpestri_result:
  assumes "length b = 16" and "n \<le> 16"
  shows "(if mm_cmpestri a n b 16 = 16 then \<forall>c\<in>set b. \<not> in_ranges (take n a) c
     else mm_cmpestri a n b 16 < 16 \<and> in_ranges (take n a) (b ! mm_cmpestri a n b 16) \<and>
       (\<forall>c\<in>set (take (mm_cmpestri a n b 16) b). \<not> in_ranges (take n a) c))"
proof -
  let ?P = "\<lambda>c. \<not> in_ranges (take n a) c" and ?r = "length (takeWhile (\<lambda>c. \<not> in_ranges (take n a) c) b)"
  have r: "mm_cmpestri a n b 16 = (if ?r < 16 then ?r else 16)"
    using assms by (simp add: mm_cmpestri_def Let_def min_absorb1)
  have t: "take ?r b = takeWhile ?P b" by (rule takeWhile_eq_take [symmetric])
  show ?thesis
  proof (cases "?r < 16")
    case True
    then have "in_ranges (take n a) (b ! ?r)" using nth_length_takeWhile [of ?P b] assms(1) by simp
    then show ?thesis using True r t set_takeWhileD [of _ ?P b] by (auto simp del: takeWhile_eq_take)
  next
    case False
    then have "takeWhile ?P b = b" using t assms(1) by simp
    then show ?thesis using False r by (auto simp: takeWhile_eq_all_conv)
  qed
qed

lemma findchar_loop_result:
  assumes "n \<le> 16" and "left mod 16 = 0" and "0 < left" and "left \<le> length (snd c)"
  shows "\<exists>f c'. findchar_loop a n left c = Ok (f, c') \<and> skips (\<lambda>x. \<not> in_ranges (take n a) x) c c' \<and>
     (f \<longrightarrow> snd c' \<noteq> [] \<and> in_ranges (take n a) (hd (snd c')))"
  using assms(2-)
proof (induction left arbitrary: c rule: less_induct)
  case (less left)
  let ?b = "take 16 (snd c)" and ?P = "\<lambda>x. \<not> in_ranges (take n a) x"
  let ?r = "mm_cmpestri a n ?b 16"
  have len: "16 \<le> length (snd c)" using less.prems by presburger
  then have step: "findchar_loop a n left c =
      (if ?r \<noteq> 16 then Ok (True, advance ?r c)
       else if left - 16 \<noteq> 0 then findchar_loop a n (left - 16) (advance 16 c) else Ok (False, advance 16 c))"
    by (simp add: findchar_loop.simps [of a n left c] mm_loadu_si128_def Let_def)
  have cmp: "if ?r = 16 then \<forall>x\<in>set ?b. ?P x
      else ?r < 16 \<and> in_ranges (take n a) (?b ! ?r) \<and> (\<forall>x\<in>set (take ?r ?b). ?P x)"
    using mm_cmpestri_result [of ?b n a] len assms(1) by simp
  show ?case
  proof (cases "?r = 16")
    case False
    then have r: "?r < 16" "in_ranges (take n a) (snd c ! ?r)" "\<forall>x\<in>set (take ?r (snd c)). ?P x"
      using cmp len by (auto simp: min_absorb1)
    then have "skips ?P c (advance ?r c)" using len by (intro skips_advance) simp_all
    moreover have "snd (advance ?r c) \<noteq> []" "hd (snd (advance ?r c)) = snd c ! ?r"
      using r(1) len by (simp_all add: advance_def hd_drop_conv_nth)
    ultimately show ?thesis using step False r(2) by auto
  next
    case True
    then have sk: "skips ?P c (advance 16 c)" using cmp len by (intro skips_advance) simp_all
    show ?thesis
    proof (cases "left - 16 = 0")
      case True
      with \<open>?r = 16\<close> sk step show ?thesis by auto
    next
      case False
      have "(left - 16) mod 16 = 0" "left - 16 < left" "left - 16 \<le> length (snd (advance 16 c))"
        using less.prems False by (simp_all add: advance_def mod_if split: if_splits)
      from less.IH [OF this(2,1) _ this(3)] False \<open>?r = 16\<close> sk step show ?thesis
        by (auto intro: skips_trans)
    qed
  qed
qed

lemma findchar_fast_result:
  assumes "n \<le> 16"
  shows "findchar_fast rs n c = Overread \<and> length rs < 16 \<or>
     (\<exists>f c'. findchar_fast rs n c = Ok (f, c') \<and> skips (\<lambda>x. \<not> in_ranges (take n rs) x) c c' \<and>
       (f \<longrightarrow> snd c' \<noteq> [] \<and> in_ranges (take n rs) (hd (snd c'))))"
proof (cases "16 \<le> length (snd c) \<and> 16 \<le> length rs")
  case True
  have "take n (take 16 rs) = take n rs" using assms by (simp add: min_absorb1)
  moreover have "length (snd c) div 16 * 16 mod 16 = 0" "0 < length (snd c) div 16 * 16" "length (snd c) div 16 * 16 \<le> length (snd c)"
    using True by (simp_all add: div_greater_zero_iff)
  note findchar_loop_result [OF assms this, of "take 16 rs"]
  ultimately show ?thesis using True by (simp add: findchar_fast_def mm_loadu_si128_def)
next
  case False
  then show ?thesis by (cases "16 \<le> length (snd c)") (simp_all add: findchar_fast_def mm_loadu_si128_def exI [of _ False])
qed

text \<open>
  What a loop of the parser needs for the search in front of it to change nothing: it passes
  over the bytes outside the ranges one by one, and ends the parse as incomplete at the end
  of the buffer. \<open>n\<close> is the number of bytes of the array \<open>rs\<close> that are bounds.
\<close>

locale ranged_scan =
  fixes scan :: "cursor \<Rightarrow> cursor parse" and rs :: "byte list" and n :: nat
  assumes bounds: "n < length rs" "n \<le> 16"
    and scan_skip: "\<not> in_ranges (take n rs) x \<Longrightarrow> scan (p, x # r) = scan (Suc p, r)"
begin

lemma scan_skips:
  assumes "skips (\<lambda>x. \<not> in_ranges (take n rs) x) c c'"
  shows "scan c = scan c'"
proof -
  have "scan (p, bs @ r) = scan (p + length bs, r)" if "\<forall>x\<in>set bs. \<not> in_ranges (take n rs) x" for p bs r
    using that scan_skip by (induction bs arbitrary: p) auto
  then show ?thesis
    using assms by (cases c; cases c') (auto simp: skips_def)
qed

lemma search_then_scan:
  assumes "\<And>f c'. \<lbrakk>findchar_fast (rs @ pad) n c = Ok (f, c'); f \<longrightarrow> snd c' \<noteq> [] \<and> in_ranges (take n rs) (hd (snd c'))\<rbrakk> \<Longrightarrow> k f c' = g (scan c')"
  shows "bind_parse (findchar_fast (rs @ pad) n c) (\<lambda>(f, c'). k f c') = Overread \<and> length rs + length pad < 16 \<or>
     bind_parse (findchar_fast (rs @ pad) n c) (\<lambda>(f, c'). k f c') = g (scan c)"
proof -
  have t: "take n (rs @ pad) = take n rs" using bounds by simp
  from findchar_fast_result [OF bounds(2), of "rs @ pad" c, unfolded t] consider
    (over) "findchar_fast (rs @ pad) n c = Overread" "length (rs @ pad) < 16"
    | (found) f c' where "findchar_fast (rs @ pad) n c = Ok (f, c')" "skips (\<lambda>x. \<not> in_ranges (take n rs) x) c c'"
        "f \<longrightarrow> snd c' \<noteq> [] \<and> in_ranges (take n rs) (hd (snd c'))"
    by blast
  then show ?thesis
  proof cases
    case found
    then show ?thesis using assms [OF found(1,3)] scan_skips [OF found(2)] by simp
  qed simp
qed

end

section \<open>The loops behind the search\<close>

definition advance_scan :: "cursor \<Rightarrow> cursor parse" where
  "advance_scan c = bind_parse (CHECK_EOF c) (\<lambda>_. advance_loop c)"

definition name_scan :: "cursor \<Rightarrow> cursor parse" where
  "name_scan c = bind_parse (CHECK_EOF c) (\<lambda>_. name_loop c)"

lemma ranges_length [simp]: "length token_ranges = 5" "length eol_ranges = 7" "length name_ranges = 17"
  by (simp_all add: token_ranges_def eol_ranges_def name_ranges_def)

lemma token_outside: "\<not> in_ranges (take 4 token_ranges) x \<Longrightarrow> x \<noteq> 32 \<and> \<not> x < 32 \<and> x \<noteq> 127"
  by (auto simp: token_ranges_def)

lemma eol_ranges_ctl: "in_ranges (take 6 eol_ranges) x \<longleftrightarrow> is_ctl x"
  by (auto simp: eol_ranges_def is_ctl_def word_less_nat_alt word_le_nat_alt word_unat_eq_iff)

lemma name_outside:
  assumes "\<not> in_ranges (take 16 name_ranges) x"
  shows "x \<noteq> 58 \<and> is_token_char x"
proof -
  have "list_all (\<lambda>i. in_ranges (take 16 name_ranges) (of_nat i) \<or> of_nat i \<noteq> (58 :: byte) \<and> is_token_char (of_nat i)) [0..<256]"
    by code_simp
  then have "in_ranges (take 16 name_ranges) (of_nat i) \<or> of_nat i \<noteq> (58 :: byte) \<and> is_token_char (of_nat i)" if "i < 256" for i
    using that by (simp add: list_all_iff)
  from this [of "unat x"] have "in_ranges (take 16 name_ranges) x \<or> x \<noteq> 58 \<and> is_token_char x"
    using unsigned_less [where 'a = nat, of x] by simp
  then show ?thesis using assms by simp
qed

interpretation tok: ranged_scan advance_scan token_ranges 4
  by unfold_locales (simp_all add: advance_scan_def CHECK_EOF_def token_outside)

interpretation eol: ranged_scan eol_slow eol_ranges 6
  by unfold_locales (simp_all add: eol_ranges_ctl)

interpretation nam: ranged_scan name_scan name_ranges 16
  by unfold_locales (simp_all add: name_scan_def CHECK_EOF_def name_outside)

section \<open>Equivalence, step by step\<close>

text \<open>The search may run past the array of ranges; otherwise it changes nothing.\<close>

lemma ADVANCE_TOKEN_sse_eq:
  "ADVANCE_TOKEN_sse rd c = Overread \<and> length (after_token_ranges rd) < 11 \<or> ADVANCE_TOKEN_sse rd c = ADVANCE_TOKEN c"
proof -
  let ?g = "\<lambda>m. bind_parse m (\<lambda>c2. Ok ((fst c, fst c2 - fst c), c2))"
  have "bind_parse (if \<not> f then CHECK_EOF c' else Ok ()) (\<lambda>_. ?g (advance_loop c')) = ?g (advance_scan c')"
    if "f \<longrightarrow> snd c' \<noteq> [] \<and> in_ranges (take 4 token_ranges) (hd (snd c'))" for f c'
    using that by (simp add: advance_scan_def CHECK_EOF_def)
  note tok.search_then_scan [where k = "\<lambda>f c'. bind_parse (if \<not> f then CHECK_EOF c' else Ok ()) (\<lambda>_. ?g (advance_loop c'))",
      OF this, of "after_token_ranges rd" c]
  moreover have "?g (advance_scan c) = ADVANCE_TOKEN c"
    by (simp add: advance_scan_def ADVANCE_TOKEN_def CHECK_EOF_def)
  ultimately show ?thesis by (simp add: ADVANCE_TOKEN_sse_def)
qed

lemma get_token_to_eol_sse_eq:
  "get_token_to_eol_sse rd c = Overread \<and> length (after_eol_ranges rd) < 9 \<or> get_token_to_eol_sse rd c = get_token_to_eol c"
proof -
  have "bind_parse (if f then Ok c' else eol_slow c') (FOUND_CTL (fst c)) = bind_parse (eol_slow c') (FOUND_CTL (fst c))"
    if "f \<longrightarrow> snd c' \<noteq> [] \<and> in_ranges (take 6 eol_ranges) (hd (snd c'))" for f c'
    using that by (cases c'; cases "snd c'") (auto simp: eol_ranges_ctl ctl_not_printable)
  note eol.search_then_scan [where g = "\<lambda>m. bind_parse m (FOUND_CTL (fst c))"
      and k = "\<lambda>f c'. bind_parse (if f then Ok c' else eol_slow c') (FOUND_CTL (fst c))", OF this, of "after_eol_ranges rd" c]
  then show ?thesis by (simp add: get_token_to_eol_sse_def get_token_to_eol_slow)
qed

lemma parse_header_name_sse_eq: "parse_header_name_sse h c = parse_header_name h c"
proof -
  have "bind_parse (if \<not> f then CHECK_EOF c' else Ok ()) (\<lambda>_. name_loop c') = name_scan c'"
    if "f \<longrightarrow> snd c' \<noteq> [] \<and> in_ranges (take 16 name_ranges) (hd (snd c'))" for f c'
    using that by (simp add: name_scan_def CHECK_EOF_def)
  note nam.search_then_scan [where g = "\<lambda>m. m" and k = "\<lambda>f c'. bind_parse (if \<not> f then CHECK_EOF c' else Ok ()) (\<lambda>_. name_loop c')",
      OF this, of "[]" c]
  then show ?thesis
    by (simp add: parse_header_name_sse_def parse_header_name_def name_scan_def)
qed

lemma parse_header_line_sse_eq:
  "fst (parse_header_line_sse rd n h c) = Overread \<and> length (after_eol_ranges rd) < 9 \<or>
     parse_header_line_sse rd n h c = parse_header_line n h c"
proof (cases "bind_parse (deref c) (\<lambda>c. Ok (\<not> (n \<noteq> 0 \<and> (c = 32 \<or> c = 9))))")
  case (Ok named)
  obtain r h1 where start: "(if named then parse_header_name h c else (Ok c, h\<lparr>hdr_name := None, hdr_name_len := 0\<rparr>)) = (r, h1)"
    by (rule prod.exhaust)
  note line = parse_header_line_sse_def parse_header_line_def parse_header_name_sse_eq Ok parse.case start prod.case
  show ?thesis
  proof (cases r)
    case (Ok c1)
    with get_token_to_eol_sse_eq [of rd c1] show ?thesis unfolding line by auto
  next
    case (Ret e)
    then show ?thesis unfolding line by simp
  next
    case Overread
    then show ?thesis unfolding line by simp
  qed
qed (simp_all add: parse_header_line_sse_def parse_header_line_def del: bind_parse.simps)

lemma parse_header_line_sse_Ok: "parse_header_line_sse rd n h c = (Ok c', h') \<Longrightarrow> parse_header_line n h c = (Ok c', h')"
  using parse_header_line_sse_eq [of rd n h c] by auto

section \<open>The whole parser\<close>

function parse_headers_sse ::
  "rodata \<Rightarrow> nat \<Rightarrow> cursor \<Rightarrow> phr_header list \<Rightarrow> nat \<Rightarrow> cursor parse \<times> phr_header list \<times> nat" where
  "parse_headers_sse rd max_headers cur headers num_headers =
     (case bind_parse (CHECK_EOF cur) (\<lambda>_. deref cur) of
        Ok c \<Rightarrow>
          if c = 13 then (EXPECT_CHAR 10 (next_char cur), headers, num_headers)
          else if c = 10 then (Ok (next_char cur), headers, num_headers)
          else if num_headers = max_headers then (Ret (- 1), headers, num_headers)
          else if \<not> num_headers < length headers then (Overread, headers, num_headers)
          else (case parse_header_line_sse rd num_headers (headers ! num_headers) cur of
                  (Ok cur', h) \<Rightarrow> parse_headers_sse rd max_headers cur' (headers[num_headers := h]) (Suc num_headers)
                | (Ret e, h) \<Rightarrow> (Ret e, headers[num_headers := h], num_headers)
                | (Overread, h) \<Rightarrow> (Overread, headers[num_headers := h], num_headers))
      | Ret e \<Rightarrow> (Ret e, headers, num_headers)
      | Overread \<Rightarrow> (Overread, headers, num_headers))"
  by pat_completeness auto

termination parse_headers_sse
  by (relation "measure (\<lambda>(_, _, cur, _). length (snd cur))")
    (auto dest!: parse_header_line_sse_Ok [OF sym] parse_header_line_moves reaches_length)

declare parse_headers_sse.simps [simp del]

definition parse_request_sse :: "rodata \<Rightarrow> nat \<Rightarrow> cursor \<Rightarrow> HttpRequest \<Rightarrow> cursor parse \<times> HttpRequest" where
  "parse_request_sse rd max_headers cur rq =
     (case bind_parse (CHECK_EOF cur) (\<lambda>_. bind_parse (parse_crlf True cur) (ADVANCE_TOKEN_sse rd)) of
        Ok ((m, ml), cur1) \<Rightarrow>
          let rq = rq\<lparr>req_method := Some m, req_method_len := ml\<rparr>
          in (case ADVANCE_TOKEN_sse rd (next_char cur1) of
                Ok ((pa, pl), cur2) \<Rightarrow>
                  let rq = rq\<lparr>req_path := Some pa, req_path_len := pl\<rparr>
                  in (case parse_http_version (next_char cur2) of
                        Ok (v, cur3) \<Rightarrow>
                          let rq = rq\<lparr>req_minor_version := v\<rparr>
                          in (case parse_crlf False cur3 of
                                Ok cur4 \<Rightarrow>
                                  let (res, hs, n) = parse_headers_sse rd max_headers cur4 (req_headers rq) (req_num_headers rq)
                                  in (res, rq\<lparr>req_headers := hs, req_num_headers := n\<rparr>)
                              | Ret e \<Rightarrow> (Ret e, rq)
                              | Overread \<Rightarrow> (Overread, rq))
                      | Ret e \<Rightarrow> (Ret e, rq)
                      | Overread \<Rightarrow> (Overread, rq))
              | Ret e \<Rightarrow> (Ret e, rq)
              | Overread \<Rightarrow> (Overread, rq))
      | Ret e \<Rightarrow> (Ret e, rq)
      | Overread \<Rightarrow> (Overread, rq))"

definition phr_parse_request_sse :: "rodata \<Rightarrow> byte list \<Rightarrow> nat \<Rightarrow> HttpRequest \<Rightarrow> int res \<times> HttpRequest" where
  "phr_parse_request_sse rd buf last_len rq =
     (let max_headers = req_num_headers rq;
          rq = rq\<lparr>req_method := None, req_method_len := 0, req_path := None, req_path_len := 0,
                  req_minor_version := - 1, req_num_headers := 0\<rparr>
      in case check_last_len buf last_len of
           Ok _ \<Rightarrow> (let (r, rq) = parse_request_sse rd max_headers (0, buf) rq in (parse_result r, rq))
         | Ret e \<Rightarrow> (Inr e, rq)
         | Overread \<Rightarrow> (Inl Out_Of_Bounds, rq))"

definition parse_response_sse :: "rodata \<Rightarrow> nat \<Rightarrow> cursor \<Rightarrow> phr_response \<Rightarrow> cursor parse \<times> phr_response" where
  "parse_response_sse rd max_headers cur rs =
     (case parse_http_version cur of
        Ok (v, cur1) \<Rightarrow>
          let rs = rs\<lparr>rsp_minor_version := v\<rparr>
          in (case bind_parse (EXPECT_CHAR_NO_CHECK 32 cur1)
                     (\<lambda>cur2. if length (snd cur2) < 4 then Ret (- 2) else Ok cur2) of
                Ok cur2 \<Rightarrow>
                  let (r, st) = PARSE_INT_3 (rsp_status rs) cur2; rs = rs\<lparr>rsp_status := st\<rparr>
                  in (case bind_parse r (\<lambda>cur3. bind_parse (EXPECT_CHAR_NO_CHECK 32 cur3) (get_token_to_eol_sse rd)) of
                        Ok ((m, ml), cur4) \<Rightarrow>
                          let rs = rs\<lparr>rsp_msg := Some m, rsp_msg_len := ml\<rparr>;
                              (res, hs, n) = parse_headers_sse rd max_headers cur4 (rsp_headers rs) (rsp_num_headers rs)
                          in (res, rs\<lparr>rsp_headers := hs, rsp_num_headers := n\<rparr>)
                      | Ret e \<Rightarrow> (Ret e, rs)
                      | Overread \<Rightarrow> (Overread, rs))
              | Ret e \<Rightarrow> (Ret e, rs)
              | Overread \<Rightarrow> (Overread, rs))
      | Ret e \<Rightarrow> (Ret e, rs)
      | Overread \<Rightarrow> (Overread, rs))"

definition phr_parse_response_sse :: "rodata \<Rightarrow> byte list \<Rightarrow> nat \<Rightarrow> phr_response \<Rightarrow> int res \<times> phr_response" where
  "phr_parse_response_sse rd buf last_len rs =
     (let max_headers = rsp_num_headers rs;
          rs = rs\<lparr>rsp_minor_version := - 1, rsp_status := 0, rsp_msg := None, rsp_msg_len := 0, rsp_num_headers := 0\<rparr>
      in case check_last_len buf last_len of
           Ok _ \<Rightarrow> (let (r, rs) = parse_response_sse rd max_headers (0, buf) rs in (parse_result r, rs))
         | Ret e \<Rightarrow> (Inr e, rs)
         | Overread \<Rightarrow> (Inl Out_Of_Bounds, rs))"

definition phr_parse_headers_sse ::
  "rodata \<Rightarrow> byte list \<Rightarrow> nat \<Rightarrow> phr_header list \<Rightarrow> nat \<Rightarrow> int res \<times> phr_header list \<times> nat" where
  "phr_parse_headers_sse rd buf last_len headers num_headers =
     (let max_headers = num_headers
      in case check_last_len buf last_len of
           Ok _ \<Rightarrow> (let (r, hs, n) = parse_headers_sse rd max_headers (0, buf) headers 0 in (parse_result r, hs, n))
         | Ret e \<Rightarrow> (Inr e, headers, 0)
         | Overread \<Rightarrow> (Inl Out_Of_Bounds, headers, 0))"

text \<open>Where the sixteen bytes at each array can be read.\<close>

definition readable :: "rodata \<Rightarrow> bool" where
  "readable rd \<longleftrightarrow> 11 \<le> length (after_token_ranges rd) \<and> 9 \<le> length (after_eol_ranges rd)"

lemma sse_steps:
  assumes "readable rd"
  shows "ADVANCE_TOKEN_sse rd = ADVANCE_TOKEN" "get_token_to_eol_sse rd = get_token_to_eol"
    "parse_header_line_sse rd = parse_header_line"
proof -
  show "ADVANCE_TOKEN_sse rd = ADVANCE_TOKEN"
    using assms ADVANCE_TOKEN_sse_eq [of rd] by (intro ext) (force simp: readable_def)
  show "get_token_to_eol_sse rd = get_token_to_eol"
    using assms get_token_to_eol_sse_eq [of rd] by (intro ext) (force simp: readable_def)
  show "parse_header_line_sse rd = parse_header_line"
    using assms parse_header_line_sse_eq [of rd] by (intro ext) (force simp: readable_def)
qed

lemma parse_headers_sse_eq: "readable rd \<Longrightarrow> parse_headers_sse rd m c hs n = parse_headers m c hs n"
proof (induction m c hs n rule: parse_headers_induct)
  case (Nil m p hs n)
  then show ?case by (simp add: parse_headers_sse.simps [of rd m "(p, [])"] parse_headers_Nil CHECK_EOF_def)
next
  case (Cons m p x r hs n)
  then show ?case
    by (auto simp: parse_headers_sse.simps [of rd m "(p, x # r)"] parse_headers_Cons CHECK_EOF_def sse_steps
        split: parse.split prod.split)
qed

lemma parse_headers_sse_fun: "readable rd \<Longrightarrow> parse_headers_sse rd = parse_headers"
  by (intro ext) (rule parse_headers_sse_eq)

section \<open>Properties\<close>

text \<open>
  Property C25: the parser compiled with SSE 4.2 computes the same results as the one without, for
  requests, responses and header blocks and on every input: searching for the end of a token
  sixteen bytes at a time skips no byte the plain loops would stop at. It needs the bytes
  behind two of the arrays of ranges to be readable, because sixteen bytes are loaded from
  arrays of five and seven.
\<close>

theorem sse_parser_equivalent:
  assumes "readable rd"
  shows "phr_parse_request_sse rd buf last_len rq = phr_parse_request buf last_len rq \<and>
     phr_parse_response_sse rd buf last_len rs = phr_parse_response buf last_len rs \<and>
     phr_parse_headers_sse rd buf last_len hs n = phr_parse_headers buf last_len hs n"
  unfolding phr_parse_request_sse_def phr_parse_request_def parse_request_sse_def parse_request_def
    phr_parse_response_sse_def phr_parse_response_def parse_response_sse_def parse_response_def
    phr_parse_headers_sse_def phr_parse_headers_def sse_steps [OF assms] parse_headers_sse_fun [OF assms]
  by (intro conjI refl)

theorem sse_parser_equivalent_witness:
  "readable \<lparr>after_token_ranges = replicate 11 0, after_eol_ranges = replicate 9 0\<rparr> \<and>
     phr_parse_headers_sse \<lparr>after_token_ranges = replicate 11 0, after_eol_ranges = replicate 9 0\<rparr> [13, 10] 0 [] 0 = (Inr 2, [], 0)"
proof -
  have r: "readable \<lparr>after_token_ranges = replicate 11 0, after_eol_ranges = replicate 9 0\<rparr>" by (simp add: readable_def)
  have "phr_parse_headers [13, 10] 0 [] 0 = (Inr 2, [], 0)" by code_simp
  with r sse_parser_equivalent [OF r] show ?thesis by simp
qed

text \<open>
  Within the bounds of the array of \<^verbatim>\<open>ADVANCE_TOKEN\<close>, five bytes and what happens to follow, the
  load leaves the object on every request of at least sixteen bytes.
\<close>

lemma sse_ranges_overread:
  assumes "length (after_token_ranges rd) < 11" and "16 \<le> length buf" and "hd buf \<noteq> 13" "hd buf \<noteq> 10"
  shows "fst (phr_parse_request_sse rd buf 0 rq) = Inl Out_Of_Bounds"
proof -
  have "ADVANCE_TOKEN_sse rd (0, buf) = Overread"
    using assms(1,2) by (simp add: ADVANCE_TOKEN_sse_def findchar_fast_def mm_loadu_si128_def)
  moreover have "parse_crlf True (0, buf) = Ok (0, buf)" "buf \<noteq> []"
    using assms(2-) by (cases buf; simp add: parse_crlf_def)+
  ultimately show ?thesis
    by (simp add: phr_parse_request_sse_def parse_request_sse_def check_last_len_def CHECK_EOF_def parse_result_def)
qed

end
