(* ===== verification/Http_Request.thy ===== *)
theory Http_Request
  imports Input_Buffer Http_Parser_Roundtrip
begin

text \<open>
  src/http_request.c: the parsing of what the input buffer of a connection holds. The
  parser is given the whole region of the buffer (\<^verbatim>\<open>buffer->length\<close> bytes) and not only the
  bytes received (\<^verbatim>\<open>buffer->offset\<close>), so its answer also depends on what the region held
  before; the properties say when that is harmless and when it is not.
\<close>

definition NUM_HEADERS :: nat where
  "NUM_HEADERS = 100"

datatype ParseState = PARSE_FINISH | PARSE_ERROR | PARSE_INCOMPLETE

definition http_request_parse ::
  "InputBuffer \<Rightarrow> size_t \<Rightarrow> HttpRequest \<Rightarrow> (ParseState \<times> HttpRequest) res" where
  "http_request_parse b prev_len rq =
     bind_res (mem_load (ib_buffer b) 0 (unat (ib_length b))) (\<lambda>buf.
       let (result, rq') = phr_parse_request buf (unat prev_len) rq
       in bind_res result (\<lambda>r.
            Inr (if r = - 1 then PARSE_ERROR else if r = - 2 then PARSE_INCOMPLETE else PARSE_FINISH, rq')))"

lemma http_request_parse_wf:
  "ib_wf b \<Longrightarrow> http_request_parse b prev_len rq =
     (let (result, rq') = phr_parse_request (ib_buffer b) (unat prev_len) rq
      in bind_res result (\<lambda>r.
           Inr (if r = - 1 then PARSE_ERROR else if r = - 2 then PARSE_INCOMPLETE else PARSE_FINISH, rq')))"
  by (simp add: http_request_parse_def mem_load_def ib_wf_def)

lemma ib_buffer_split: "ib_buffer b = ib_contents b @ drop (unat (ib_offset b)) (ib_buffer b)"
  by (simp add: ib_contents_def)

section \<open>Zero bytes behind an incomplete request\<close>

text \<open>
  The steps of the parser in front of a zero byte: no construct of a request contains one,
  so whatever was incomplete becomes malformed.
\<close>

lemma zero_byte [simp]: "\<not> IS_PRINTABLE_ASCII 0" "is_ctl 0" "\<not> is_token_char 0"
  by (simp_all add: ctl_not_printable is_ctl_def is_token_char_def token_char_map_def)

lemma eol_zero: "get_token_to_eol (p, 0 # zs) = Ret (- 1)"
  by (simp add: get_token_to_eol_slow FOUND_CTL_def)

lemma ADVANCE_TOKEN_zero: "ADVANCE_TOKEN (p, 0 # zs) = Ret (- 1)"
  by (simp add: ADVANCE_TOKEN_def CHECK_EOF_def)

lemma EXPECT_CHAR_rejects: "\<lbrakk>EXPECT_CHAR ch c = Ret (- 2); ch \<noteq> 0\<rbrakk> \<Longrightarrow> EXPECT_CHAR ch (ext (0 # zs) c) = Ret (- 1)"
  by (cases c; cases "snd c") (auto simp: EXPECT_CHAR_def EXPECT_CHAR_NO_CHECK_def CHECK_EOF_def split: if_splits)

lemma advance_loop_rejects: "advance_loop c = Ret (- 2) \<Longrightarrow> advance_loop (ext (0 # zs) c) = Ret (- 1)"
  by (induction c rule: advance_loop.induct) (auto split: if_splits)

lemma ADVANCE_TOKEN_rejects: "ADVANCE_TOKEN c = Ret (- 2) \<Longrightarrow> ADVANCE_TOKEN (ext (0 # zs) c) = Ret (- 1)"
  using advance_loop_rejects [of c zs]
  by (cases c; cases "snd c") (auto simp: ADVANCE_TOKEN_def CHECK_EOF_def parse_simps)

lemma eol_slow_Ret: "eol_slow c = Ret e \<Longrightarrow> eol_slow (ext (0 # zs) c) = Ok (fst c + length (snd c), 0 # zs)"
  by (induction c rule: eol_slow.induct) (auto split: if_splits)

lemma get_token_to_eol_rejects:
  assumes "get_token_to_eol c = Ret (- 2)"
  shows "get_token_to_eol (ext (0 # zs) c) = Ret (- 1)"
proof (cases "eol_slow c")
  case (Ok c1)
  with stable_eol_slow [of "0 # zs" c] have "eol_slow (ext (0 # zs) c) = Ok (ext (0 # zs) c1)"
    by (simp add: stable_def)
  moreover have "FOUND_CTL (fst c) c1 = Ret (- 2)" using assms Ok by (simp add: get_token_to_eol_slow)
  moreover have "snd c1 \<noteq> []" using eol_slow_moves [OF Ok] by simp
  ultimately show ?thesis
    using EXPECT_CHAR_rejects [of 10 "next_char c1" zs] stable_deref [of c1 "0 # zs"]
    by (cases c1; cases "snd c1")
      (auto simp: get_token_to_eol_slow FOUND_CTL_def parse_simps split: if_splits)
next
  case (Ret e)
  then show ?thesis using eol_slow_Ret [OF Ret, of zs] by (simp add: get_token_to_eol_slow FOUND_CTL_def)
next
  case Overread
  then show ?thesis using safe_eol_slow [of c] by simp
qed

lemma name_loop_rejects: "name_loop c = Ret (- 2) \<Longrightarrow> name_loop (ext (0 # zs) c) = Ret (- 1)"
  by (induction c rule: name_loop.induct) (auto split: if_splits)

lemma skip_blanks_rejects: "skip_blanks c = Ret e \<Longrightarrow> \<exists>p. skip_blanks (ext (0 # zs) c) = Ok (p, 0 # zs)"
  by (induction c rule: skip_blanks.induct) (auto split: if_splits)

lemma header_start_rejects:
  assumes "snd c \<noteq> []" and "header_start n h c = (Ret (- 2), h1)"
  shows "(\<exists>p h2. header_start n h (ext (0 # zs) c) = (Ok (p, 0 # zs), h2)) \<or>
     fst (header_start n h (ext (0 # zs) c)) = Ret (- 1)"
proof -
  have h: "header_start n h (ext (0 # zs) c) = parse_header_name h (ext (0 # zs) c)"
    "parse_header_name h c = (Ret (- 2), h1)"
    using assms by (auto simp: header_start_def split: if_splits)
  show ?thesis
  proof (cases "name_loop c")
    case (Ok c1)
    have "snd c1 \<noteq> []" using name_loop_moves [OF Ok] by auto
    moreover have "skip_blanks (next_char c1) = Ret (- 2)" "fst c1 - fst c \<noteq> 0"
      using h(2) assms(1) Ok by (auto simp: parse_header_name_def CHECK_EOF_def Let_def split: if_splits)
    moreover have "name_loop (ext (0 # zs) c) = Ok (ext (0 # zs) c1)"
      using stable_name_loop [of "0 # zs" c] Ok by (simp add: stable_def)
    ultimately show ?thesis
      using skip_blanks_rejects [of "next_char c1" _ zs] h(1)
      by (auto simp: parse_header_name_def CHECK_EOF_def Let_def)
  next
    case (Ret e)
    then have "name_loop (ext (0 # zs) c) = Ret (- 1)"
      using h(2) assms(1) name_loop_rejects [of c zs]
      by (auto simp: parse_header_name_def CHECK_EOF_def Let_def split: if_splits)
    then show ?thesis using h(1) by (simp add: parse_header_name_def CHECK_EOF_def)
  next
    case Overread
    then show ?thesis using safe_name_loop [OF assms(1)] by simp
  qed
qed

lemma parse_header_line_rejects:
  assumes "snd c \<noteq> []" and "fst (parse_header_line n h c) = Ret (- 2)"
  shows "fst (parse_header_line n h (ext (0 # zs) c)) = Ret (- 1)"
proof -
  obtain r h1 where st: "header_start n h c = (r, h1)" by fastforce
  have ne: "snd (ext (0 # zs) c) \<noteq> []" by simp
  show ?thesis
  proof (cases r)
    case (Ok c1)
    then have "get_token_to_eol c1 = Ret (- 2)"
      using assms(2) by (auto simp: parse_header_line_eq [OF assms(1)] st split: parse.splits)
    moreover have "fst (header_start n h (ext (0 # zs) c)) = Ok (ext (0 # zs) c1)"
      using stable_header_start [OF assms(1), of "0 # zs" n h] st Ok by (simp add: stable_out_def stable_Ok)
    ultimately show ?thesis
      using get_token_to_eol_rejects [of c1 zs]
      by (cases "header_start n h (ext (0 # zs) c)") (simp add: parse_header_line_eq [OF ne])
  next
    case (Ret e)
    then have "e = - 2" using assms(2) by (simp add: parse_header_line_eq [OF assms(1)] st)
    with st Ret have "header_start n h c = (Ret (- 2), h1)" by simp
    from header_start_rejects [OF assms(1) this, of zs] show ?thesis
      by (cases "header_start n h (ext (0 # zs) c)") (auto simp: parse_header_line_eq [OF ne] eol_zero)
  next
    case Overread
    then show ?thesis using assms(2) by (simp add: parse_header_line_eq [OF assms(1)] st)
  qed
qed

lemma parse_headers_zero:
  "m \<le> length hs \<Longrightarrow> n \<le> m \<Longrightarrow> fst (parse_headers m (p, 0 # zs) hs n) = Ret (- 1)"
  by (simp add: parse_headers_Cons parse_header_line_eq header_start_def parse_header_name_def CHECK_EOF_def)

lemma parse_headers_rejects:
  "\<lbrakk>fst (parse_headers m c hs n) = Ret (- 2); m \<le> length hs; n \<le> m\<rbrakk> \<Longrightarrow>
     fst (parse_headers m (ext (0 # zs) c) hs n) = Ret (- 1)"
proof (induction m c hs n rule: parse_headers_induct)
  case (Nil m p hs n)
  then show ?case by (simp add: parse_headers_zero)
next
  case (Cons m p x r hs n)
  show ?case
  proof (cases "x = 13 \<or> x = 10 \<or> n = m")
    case True
    then show ?thesis
      using Cons.prems(1) EXPECT_CHAR_rejects [of 10 "(Suc p, r)" zs]
      by (auto simp: parse_headers_Cons split: if_splits)
  next
    case False
    obtain q h where l: "parse_header_line n (hs ! n) (p, x # r) = (q, h)" by fastforce
    obtain q' h' where l': "parse_header_line n (hs ! n) (p, x # r @ 0 # zs) = (q', h')" by fastforce
    have n: "n < length hs" using False Cons.prems by simp
    have st: "stable (ext (0 # zs)) q q'" "q \<noteq> Ret (- 2) \<and> q \<noteq> Overread \<longrightarrow> h' = h"
      using stable_parse_header_line [of "(p, x # r)" "0 # zs" n "hs ! n"] l l' by (simp_all add: stable_out_def)
    have sf: "safe q" using safe_parse_header_line [of "(p, x # r)" n "hs ! n"] l by simp
    from st(1) sf show ?thesis
    proof (cases rule: stable_cases)
      case (1 c1)
      then show ?thesis
        using Cons.IH [OF _ _ _ n, of c1 h] Cons.prems False l l' st(2) by (auto simp: parse_headers_Cons)
    next
      case 2
      then show ?thesis using Cons.prems(1) False l n by (auto simp: parse_headers_Cons)
    next
      case 3
      then show ?thesis
        using parse_header_line_rejects [of "(p, x # r)" n "hs ! n" zs] l l' False n
        by (auto simp: parse_headers_Cons)
    qed
  qed
qed

lemma EXPECT_CHARS_zero:
  "\<lbrakk>length r < length chs; 0 \<notin> set chs\<rbrakk> \<Longrightarrow> EXPECT_CHARS chs (p, r @ 0 # zs) = Ret (- 1)"
proof (induction chs arbitrary: p r)
  case (Cons ch chs)
  then show ?case by (cases r) (auto simp: EXPECT_CHAR_NO_CHECK_def)
qed simp

lemma EXPECT_CHARS_result:
  "length chs \<le> length r \<Longrightarrow>
     EXPECT_CHARS chs (p, r @ t) = Ret (- 1) \<or> EXPECT_CHARS chs (p, r @ t) = Ok (p + length chs, drop (length chs) r @ t)"
proof (induction chs arbitrary: p r)
  case (Cons ch chs)
  then show ?case
    using Cons.IH [of "tl r" "Suc p"] by (cases r) (auto simp: EXPECT_CHAR_NO_CHECK_def)
qed simp

lemma PARSE_INT_zero: "PARSE_INT mul (p, 0 # zs) = Ret (- 1)"
  by (simp add: PARSE_INT_def)

lemma PARSE_INT_one:
  "PARSE_INT mul (p, x # t) = Ret (- 1) \<or> (\<exists>v. PARSE_INT mul (p, x # t) = Ok (v, (Suc p, t)))"
  by (simp add: PARSE_INT_def)

lemma parse_http_version_rejects:
  assumes "parse_http_version c = Ret (- 2)" and "8 \<le> length zs"
  shows "parse_http_version (ext (0 # zs) c) = Ret (- 1) \<or>
     (\<exists>v p. parse_http_version (ext (0 # zs) c) = Ok (v, (p, 0 # zs)))"
proof -
  let ?w = "[72, 84, 84, 80, 47, 49, 46] :: byte list"
  obtain p r where c: "c = (p, r)" by fastforce
  have len: "length ?w = 7" by simp
  have len9: "length r < 9"
  proof (rule ccontr)
    assume "\<not> length r < 9"
    then have "EXPECT_CHARS ?w c = Ret (- 1) \<or> EXPECT_CHARS ?w c = Ok (p + 7, drop 7 r)"
      using EXPECT_CHARS_result [of ?w r p "[]", unfolded len] c by (simp del: EXPECT_CHARS.simps)
    moreover obtain x t where "drop 7 r = x # t" using \<open>\<not> length r < 9\<close> by (cases "drop 7 r") auto
    ultimately show False
      using assms(1) c \<open>\<not> length r < 9\<close> PARSE_INT_one [of 1 "p + 7" x t]
      by (auto simp: parse_http_version_def simp del: EXPECT_CHARS.simps)
  qed
  have v: "parse_http_version (ext (0 # zs) c) = bind_parse (EXPECT_CHARS ?w (p, r @ 0 # zs)) (PARSE_INT 1)"
    using assms(2) c by (simp add: parse_http_version_def del: EXPECT_CHARS.simps)
  have "length (drop 7 r) = 1" if "7 < length r" using that len9 by simp
  then consider "length r < 7" | "length r = 7" | x where "drop 7 r = [x]" "7 \<le> length r"
    by (metis One_nat_def length_0_conv length_Suc_conv less_imp_le linorder_less_linear)
  then show ?thesis
  proof cases
    case 1
    then show ?thesis using EXPECT_CHARS_zero [of r ?w p zs] v by (simp del: EXPECT_CHARS.simps)
  next
    case 2
    then show ?thesis
      using EXPECT_CHARS_result [of ?w r p "0 # zs", unfolded len] v PARSE_INT_zero by (auto simp del: EXPECT_CHARS.simps)
  next
    case 3
    then show ?thesis
      using EXPECT_CHARS_result [of ?w r p "0 # zs", unfolded len] v PARSE_INT_one [of 1 "p + 7" x "0 # zs"]
      by (auto simp del: EXPECT_CHARS.simps)
  qed
qed

lemma parse_crlf_rejects: "\<lbrakk>parse_crlf opt c = Ret (- 2); snd c \<noteq> []\<rbrakk> \<Longrightarrow> parse_crlf opt (ext (0 # zs) c) = Ret (- 1)"
  using EXPECT_CHAR_rejects [of 10 "next_char c" zs]
  by (cases c; cases "snd c") (auto simp: parse_crlf_def split: if_splits)

lemma method_rejects:
  assumes "bind_parse (CHECK_EOF c) (\<lambda>_. bind_parse (parse_crlf True c) ADVANCE_TOKEN) = Ret (- 2)"
  shows "bind_parse (CHECK_EOF (ext (0 # zs) c)) (\<lambda>_. bind_parse (parse_crlf True (ext (0 # zs) c)) ADVANCE_TOKEN) = Ret (- 1)"
proof (cases "snd c = []")
  case True
  then show ?thesis by (cases c) (simp add: CHECK_EOF_def parse_crlf_def ADVANCE_TOKEN_zero)
next
  case False
  from stable_parse_crlf [of "0 # zs" True c] safe_parse_crlf [OF False, of True] show ?thesis
    by (cases rule: stable_cases)
      (use assms False ADVANCE_TOKEN_rejects parse_crlf_rejects [of True c zs] in \<open>auto simp: CHECK_EOF_def\<close>)
qed

lemma request_line_rejects:
  assumes "fst (request_line c rq) = Ret (- 2)" and "8 \<le> length zs"
  shows "fst (request_line (ext (0 # zs) c) rq) = Ret (- 1)"
proof -
  let ?m = "\<lambda>c. bind_parse (CHECK_EOF c) (\<lambda>_. bind_parse (parse_crlf True c) ADVANCE_TOKEN)"
  have "stable (apsnd (ext (0 # zs))) (?m c) (?m (ext (0 # zs) c))"
    by (rule stable_bind [OF stable_CHECK_EOF], rule stable_bind [OF stable_parse_crlf]) (rule stables)
  moreover have "safe (?m c)" by (auto intro!: safe_bind safes)
  ultimately show ?thesis
  proof (cases rule: stable_cases)
    case (1 t)
    then obtain tk c1 where m: "?m c = Ok (tk, c1)" "?m (ext (0 # zs) c) = Ok (tk, ext (0 # zs) c1)" by (cases t) auto
    have ne1: "snd c1 \<noteq> []" using m(1) by (cases tk) (auto simp: parse_simps dest: ADVANCE_TOKEN_slice)
    from stable_ADVANCE_TOKEN [of "0 # zs" "next_char c1"] safe_ADVANCE_TOKEN [of "next_char c1"] show ?thesis
    proof (cases rule: stable_cases)
      case (1 u)
      then obtain tk' c2 where p: "ADVANCE_TOKEN (next_char c1) = Ok (tk', c2)"
          "ADVANCE_TOKEN (ext (0 # zs) (next_char c1)) = Ok (tk', ext (0 # zs) c2)" by (cases u) auto
      have ne2: "snd c2 \<noteq> []" using p(1) by (cases tk') (auto dest: ADVANCE_TOKEN_slice)
      from stable_parse_http_version [of "0 # zs" "next_char c2"] safe_parse_http_version [of "next_char c2"]
      show ?thesis
      proof (cases rule: stable_cases)
        case (1 w)
        then obtain v c3 where v: "parse_http_version (next_char c2) = Ok (v, c3)"
            "parse_http_version (ext (0 # zs) (next_char c2)) = Ok (v, ext (0 # zs) c3)" by (cases w) auto
        have "parse_crlf False c3 = Ret (- 2)"
          using assms(1) m p v by (auto simp: request_line_def Let_def split: prod.splits)
        then show ?thesis
          using parse_crlf_rejects [OF _ parse_http_version_more [OF v(1)], of False zs] m p v ne1 ne2
          by (auto simp: request_line_def Let_def split: prod.splits)
      next
        case 3
        then show ?thesis
          using parse_http_version_rejects [OF 3 assms(2)] m p ne1 ne2
          by (auto simp: request_line_def Let_def parse_crlf_def split: prod.splits)
      qed (use assms m p ne1 ne2 in \<open>auto simp: request_line_def Let_def split: prod.splits\<close>)
    next
      case 3
      then show ?thesis
        using ADVANCE_TOKEN_rejects [OF 3, of zs] m ne1 by (auto simp: request_line_def Let_def split: prod.splits)
    qed (use assms m ne1 in \<open>auto simp: request_line_def Let_def split: prod.splits\<close>)
  next
    case 3
    then show ?thesis using method_rejects [OF 3, of zs] by (simp add: request_line_def)
  qed (use assms in \<open>auto simp: request_line_def\<close>)
qed

lemma parse_request_rejects:
  assumes "fst (parse_request m c rq) = Ret (- 2)" and "m \<le> length (req_headers rq)" and "req_num_headers rq \<le> m"
    and "8 \<le> length zs"
  shows "fst (parse_request m (ext (0 # zs) c) rq) = Ret (- 1)"
proof -
  obtain r rq1 where l: "request_line c rq = (r, rq1)" by fastforce
  obtain r' rq1' where l': "request_line (ext (0 # zs) c) rq = (r', rq1')" by fastforce
  have st: "stable (ext (0 # zs)) r r'" "r \<noteq> Ret (- 2) \<and> r \<noteq> Overread \<longrightarrow> rq1' = rq1"
    using stable_request_line [of "0 # zs" c rq] l l' by (simp_all add: stable_out_def)
  have "safe r" using safe_request_line [of c rq] l by simp
  with st(1) show ?thesis
  proof (cases rule: stable_cases)
    case (1 c1)
    then show ?thesis
      using parse_headers_rejects [of m c1 "req_headers rq1" "req_num_headers rq1" zs] st(2) assms l l'
        request_line_headers [OF l]
      by (simp add: parse_request_eq Let_def case_prod_beta)
  next
    case 3
    then show ?thesis using request_line_rejects [of c rq zs] assms(4) l l' by (simp add: parse_request_eq)
  qed (use assms(1) l in \<open>simp add: parse_request_eq\<close>)
qed

section \<open>More headers than the array is said to hold\<close>

lemma parse_headers_too_many:
  "\<lbrakk>\<forall>h\<in>set hs. header_ok h; k \<le> m; m < k + length hs; m \<le> length HS\<rbrakk> \<Longrightarrow>
   fst (parse_headers m (p, print_headers hs @ r) HS k) = Ret (- 1)"
proof (induction hs arbitrary: p HS k)
  case (Cons h hs)
  then obtain x t where x: "print_header h = x # t" "x \<noteq> 13" "x \<noteq> 10"
    using header_first_char [of h] by auto
  let ?e = "hd (header_slots p [h])"
  have buf: "print_headers (h # hs) @ r = x # t @ print_headers hs @ r" by (simp add: print_headers_def x(1))
  show ?case
  proof (cases "k = m")
    case True
    then show ?thesis using x(2,3) unfolding buf parse_headers_Cons by simp
  next
    case False
    have line: "parse_header_line k (HS ! k) (p, x # t @ print_headers hs @ r) =
        (Ok (p + length (print_header h), print_headers hs @ r), ?e)"
      using parse_header_line_text [of h k "HS ! k" p "print_headers hs @ r"] Cons.prems(1) x(1) by simp
    have "fst (parse_headers m (p + length (print_header h), print_headers hs @ r) (HS[k := ?e]) (Suc k)) = Ret (- 1)"
      using Cons.prems False by (intro Cons.IH) auto
    then show ?thesis
      using False x Cons.prems unfolding buf parse_headers_Cons line by simp
  qed
qed simp

section \<open>Properties\<close>

text \<open>
  A request that has arrived in full is recognised. If the bytes received
  parse as a request, \<^verbatim>\<open>http_request_parse\<close> returns PARSE_FINISH with that request, whatever
  the rest of the region holds.
\<close>

lemma http_request_parse_complete:
  assumes "ib_wf b" and "unat (ib_length b) < 2 ^ 31" and "req_num_headers rq \<le> length (req_headers rq)"
    and "phr_parse_request (ib_contents b) 0 rq = (Inr n, rq')" and "0 < n"
  shows "http_request_parse b 0 rq = Inr (PARSE_FINISH, rq')"
proof -
  have "length (ib_buffer b) < 2 ^ 31" using assms(1,2) by (simp add: ib_wf_def)
  then have "phr_parse_request (ib_buffer b) 0 rq = (Inr n, rq')"
    using request_stable [OF assms(4) _ assms(3), of "drop (unat (ib_offset b)) (ib_buffer b)"] assms(5)
    by (simp flip: ib_buffer_split)
  with assms(1,5) show ?thesis by (simp add: http_request_parse_wf)
qed

definition ib_full_ex :: InputBuffer where
  "ib_full_ex = \<lparr>ib_buffer = request_ex @ [200, 13, 0, 7], ib_length = 32, ib_offset = 28, ib_resize_count = 0\<rparr>"

lemma http_request_parse_complete_example:
  "ib_contents ib_full_ex = request_ex \<and> http_request_parse ib_full_ex 0 rq_ex = Inr (PARSE_FINISH, rq_ex')"
proof -
  have b: "ib_wf ib_full_ex" "unat (ib_length ib_full_ex) < 2 ^ 31" "ib_contents ib_full_ex = request_ex"
    by (simp_all add: ib_full_ex_def ib_wf_def ib_contents_def request_ex_def)
  then show ?thesis
    using http_request_parse_complete [OF b(1,2) rq_ex_bounds(1)] request_ex_parse by simp
qed


definition ib_part_ex :: InputBuffer where
  "ib_part_ex = \<lparr>ib_buffer = take 20 request_ex @ replicate 12 0, ib_length = 32, ib_offset = 20, ib_resize_count = 0\<rparr>"




end
