(* ===== verification/Http_Response.thy ===== *)
theory Http_Response
  imports Output_Buffer Http_Parser_Roundtrip
begin

text \<open>
  src/http_response.c: the response written into the output buffer, piece by piece, with
  the conversions \<^verbatim>\<open>%d\<close>, \<^verbatim>\<open>%s\<close> and \<^verbatim>\<open>%.*s\<close> it uses. A pointer argument of a conversion is the
  list of bytes from there to the end of its object.
\<close>

section \<open>Conversions\<close>

definition ascii :: "string \<Rightarrow> byte list" where
  "ascii s = map of_char s"

function dec :: "int \<Rightarrow> byte list" where
  "dec n = (if n < 10 then [48 + word_of_int n] else dec (n div 10) @ [48 + word_of_int (n mod 10)])"
  by pat_completeness auto
termination
  by (relation "measure nat") auto

declare dec.simps [simp del]

definition format_d :: "int \<Rightarrow> byte list" where
  "format_d n = (if n < 0 then 45 # dec (- n) else dec n)"

text \<open>
  \<^verbatim>\<open>%.*s\<close> with the precision \<^verbatim>\<open>(int) n\<close>: at most that many bytes up to a NUL, all up to the
  NUL when the cast makes it negative; it reads no further than it has to.
\<close>

definition format_s :: "size_t \<Rightarrow> byte list \<Rightarrow> byte list res" where
  "format_s n mem =
     (let prec = sint (ucast n :: 32 word); s = takeWhile (\<lambda>b. b \<noteq> 0) mem
      in if length s < length mem \<or> 0 \<le> prec \<and> prec \<le> int (length mem)
         then Inr (if prec < 0 then s else take (nat prec) s)
         else Inl Out_Of_Bounds)"

section \<open>The response\<close>

definition get_reason :: "int \<Rightarrow> string" where
  "get_reason status_code =
     (if status_code = 100 then ''Continue''
      else if status_code = 101 then ''Switching Protocols''
      else if status_code = 200 then ''Ok''
      else if status_code = 201 then ''Created''
      else if status_code = 202 then ''Accepted''
      else if status_code = 203 then ''Non-Authoritative Information''
      else if status_code = 204 then ''No Content''
      else if status_code = 205 then ''Reset Content''
      else if status_code = 206 then ''Partial Content''
      else if status_code = 300 then ''Multiple Choices''
      else if status_code = 301 then ''Moved Permanently''
      else if status_code = 302 then ''Found''
      else if status_code = 303 then ''See Other''
      else if status_code = 304 then ''Not Modified''
      else if status_code = 305 then ''Use Proxy''
      else if status_code = 307 then ''Temporary Redirect''
      else if status_code = 400 then ''Bad Request''
      else if status_code = 401 then ''Unauthorized''
      else if status_code = 402 then ''Payment Required''
      else if status_code = 403 then ''Forbidden''
      else if status_code = 404 then ''Not Found''
      else if status_code = 405 then ''Method Not Allowed''
      else if status_code = 406 then ''Not Acceptable''
      else if status_code = 407 then ''Proxy Authentication Required''
      else if status_code = 408 then ''Request Time-out''
      else if status_code = 409 then ''Conflict''
      else if status_code = 410 then ''Gone''
      else if status_code = 500 then ''Internal Server Error''
      else if status_code = 501 then ''Not Implemented''
      else if status_code = 502 then ''Bad Gateway''
      else if status_code = 503 then ''Service Unavailable''
      else if status_code = 504 then ''Gateway Time-out''
      else if status_code = 505 then ''HTTP Version not supported''
      else ''Other'')"

record HttpHeader =
  hh_name :: "byte list"
  hh_name_len :: size_t
  hh_value :: "byte list"
  hh_value_len :: size_t

fun response_headers :: "allocator \<Rightarrow> OutputBuffer \<Rightarrow> HttpHeader list \<Rightarrow> nat \<Rightarrow> OutputBuffer res" where
  "response_headers al b headers 0 = Inr b"
| "response_headers al b [] (Suc i) = Inl Out_Of_Bounds"
| "response_headers al b (h # headers) (Suc i) =
     bind_res (format_s (hh_name_len h) (hh_name h)) (\<lambda>name.
     bind_res (format_s (hh_value_len h) (hh_value h)) (\<lambda>val.
     bind_res (output_buffer_append al b (name @ [58, 32] @ val @ [13, 10])) (\<lambda>b'.
       response_headers al b' headers i)))"

definition status_line :: "int \<Rightarrow> byte list" where
  "status_line status_code =
     ascii ''HTTP/1.1 '' @ format_d status_code @ [32] @ ascii (get_reason status_code) @ [13, 10]"

definition http_response_init ::
  "allocator \<Rightarrow> OutputBuffer \<Rightarrow> int \<Rightarrow> HttpHeader list \<Rightarrow> size_t \<Rightarrow> byte list \<Rightarrow> size_t \<Rightarrow> OutputBuffer res" where
  "http_response_init al b status_code headers header_count body body_len =
     bind_res (output_buffer_append al b (status_line status_code)) (\<lambda>b.
     bind_res (response_headers al b headers (unat header_count)) (\<lambda>b.
     bind_res (format_s body_len body) (\<lambda>text.
       output_buffer_append al b ([13, 10] @ text))))"

lemma of_nat_unat_size: "of_nat (unat n) = (n :: size_t)"
  by simp

section \<open>What is written\<close>

text \<open>The name and the value a header structure stands for.\<close>

definition header_formats :: "HttpHeader \<Rightarrow> byte list \<times> byte list \<Rightarrow> bool" where
  "header_formats h p \<longleftrightarrow> format_s (hh_name_len h) (hh_name h) = Inr (fst p) \<and>
     format_s (hh_value_len h) (hh_value h) = Inr (snd p)"

definition response_text :: "int \<Rightarrow> (byte list \<times> byte list) list \<Rightarrow> byte list \<Rightarrow> byte list" where
  "response_text status_code ps body = status_line status_code @ print_headers ps @ body"

text \<open>A text of the given length, followed by anything: the conversion gives the text.\<close>

lemma format_s_text:
  assumes "unat n = length t" and "0 \<notin> set t" and "int (length t) \<le> INT_MAX"
  shows "format_s n (t @ m) = Inr t"
proof -
  have "n = of_nat (length t)" using assms(1) by (metis of_nat_unat_size)
  moreover have "length t < 2 ^ 31" using assms(3) by (simp add: INT_MAX_def)
  ultimately have n: "sint (ucast n :: 32 word) = int (length t)"
    using to_int32_small [of "length t"] by (simp add: to_int32_def unsigned_of_nat take_bit_nat_eq_self)
  have "takeWhile (\<lambda>b. b \<noteq> 0) (t @ m) = t @ takeWhile (\<lambda>b. b \<noteq> 0) m"
    using assms(2) by (intro takeWhile_append2) auto
  then show ?thesis by (simp add: format_s_def n)
qed

lemma append_room:
  assumes "ob_wf b" and "length s < ob_free b" and "int (length s) \<le> INT_MAX"
  shows "\<exists>b'. output_buffer_append al b s = Inr b' \<and> ob_wf b' \<and> ob_contents b' = ob_contents b @ s \<and>
     ob_free b' = ob_free b - length s \<and> write_from_offset b' = write_from_offset b"
proof -
  obtain b' where b': "output_buffer_append al b s = Inr b'" "ob_wf b'" "ob_contents b' = ob_contents b @ s"
      "write_from_offset b' = write_from_offset b" "ob_length b' = ob_length b"
    using append_fits [of b s al] assms by (auto simp: appended_def)
  then have "unat (write_into_offset b') = unat (write_into_offset b) + length s"
    using length_ob_contents [OF b'(2)] length_ob_contents [OF assms(1)] by simp
  with b' show ?thesis by (simp add: ob_free_def)
qed

lemma response_headers_room:
  "\<lbrakk>list_all2 header_formats hs ps; ob_wf b; n = length hs;
    length (concat (map print_header ps)) < ob_free b; int (length (concat (map print_header ps))) \<le> INT_MAX\<rbrakk> \<Longrightarrow>
   \<exists>b'. response_headers al b hs n = Inr b' \<and> ob_wf b' \<and>
     ob_contents b' = ob_contents b @ concat (map print_header ps) \<and>
     ob_free b' = ob_free b - length (concat (map print_header ps)) \<and>
     write_from_offset b' = write_from_offset b"
proof (induction hs ps arbitrary: b n rule: list_all2_induct)
  case (Cons h hs p ps)
  let ?t = "fst p @ [58, 32] @ snd p @ [13, 10]"
  have t: "print_header p = ?t" by (simp add: print_header_def)
  have "length ?t < ob_free b" "int (length ?t) \<le> INT_MAX" using Cons.prems(3,4) t by simp_all
  from append_room [OF Cons.prems(1) this, of al] obtain b1 where
    b1: "output_buffer_append al b ?t = Inr b1" "ob_wf b1" "ob_contents b1 = ob_contents b @ ?t"
      "ob_free b1 = ob_free b - length ?t" "write_from_offset b1 = write_from_offset b" by blast
  have room: "length (concat (map print_header ps)) < ob_free b1" "int (length (concat (map print_header ps))) \<le> INT_MAX"
    using Cons.prems(3,4) t b1(4) by simp_all
  from Cons.IH [OF b1(2) refl room] obtain b2 where
    "response_headers al b1 hs (length hs) = Inr b2" "ob_wf b2" "write_from_offset b2 = write_from_offset b1"
    "ob_contents b2 = ob_contents b1 @ concat (map print_header ps)"
    "ob_free b2 = ob_free b1 - length (concat (map print_header ps))" by blast
  then show ?case using Cons.prems(2) Cons.hyps(1) b1 t by (simp add: header_formats_def add.assoc)
qed simp

lemma http_response_init_room:
  assumes "ob_wf b" and "list_all2 header_formats hs ps" and "unat n = length hs" and "format_s body_len body = Inr bt"
    and "length (response_text st ps bt) < ob_free b" and "int (length (response_text st ps bt)) \<le> INT_MAX"
  shows "\<exists>b'. http_response_init al b st hs n body body_len = Inr b' \<and> ob_wf b' \<and>
     ob_contents b' = ob_contents b @ response_text st ps bt \<and> write_from_offset b' = write_from_offset b"
proof -
  let ?h = "concat (map print_header ps)"
  have rt: "response_text st ps bt = status_line st @ ?h @ [13, 10] @ bt"
    by (simp add: response_text_def print_headers_def)
  have "length (status_line st) < ob_free b" "int (length (status_line st)) \<le> INT_MAX"
    using assms(5,6) rt by simp_all
  from append_room [OF assms(1) this, of al] obtain b1 where
    b1: "output_buffer_append al b (status_line st) = Inr b1" "ob_wf b1" "ob_contents b1 = ob_contents b @ status_line st"
      "ob_free b1 = ob_free b - length (status_line st)" "write_from_offset b1 = write_from_offset b" by blast
  have "length ?h < ob_free b1" "int (length ?h) \<le> INT_MAX" using assms(5,6) rt b1(4) by simp_all
  from response_headers_room [OF assms(2) b1(2) assms(3) this, of al] obtain b2 where
    b2: "response_headers al b1 hs (unat n) = Inr b2" "ob_wf b2" "ob_contents b2 = ob_contents b1 @ ?h"
      "ob_free b2 = ob_free b1 - length ?h" "write_from_offset b2 = write_from_offset b1" by blast
  have "length ([13, 10] @ bt) < ob_free b2" "int (length ([13, 10] @ bt)) \<le> INT_MAX"
    using assms(5,6) rt b1(4) b2(4) by simp_all
  from append_room [OF b2(2) this, of al] b1 b2 show ?thesis
    by (auto simp: http_response_init_def assms(4) rt)
qed

text \<open>Without the assumption of room: the call ends with a well-formed buffer or for want of memory.\<close>

lemma append_outcome:
  assumes "ob_wf b" and "int (length t) \<le> INT_MAX"
  shows "(\<exists>b'. output_buffer_append al b t = Inr b' \<and> ob_wf b') \<or> output_buffer_append al b t = Inl OOM"
proof (cases "output_buffer_append al b t")
  case (Inl e)
  then show ?thesis using output_buffer_append_fault_aux [OF assms(1) Inl] assms(2) by simp
next
  case (Inr b')
  then show ?thesis using output_buffer_append_result [OF assms Inr] by simp
qed

lemma response_headers_outcome:
  "\<lbrakk>list_all2 header_formats hs ps; ob_wf b; n = length hs; \<forall>p\<in>set ps. int (length (print_header p)) \<le> INT_MAX\<rbrakk> \<Longrightarrow>
   (\<exists>b'. response_headers al b hs n = Inr b' \<and> ob_wf b') \<or> response_headers al b hs n = Inl OOM"
proof (induction hs ps arbitrary: b n rule: list_all2_induct)
  case (Cons h hs p ps)
  let ?t = "fst p @ [58, 32] @ snd p @ [13, 10]"
  have "int (length ?t) \<le> INT_MAX" using Cons.prems(3) by (simp add: print_header_def)
  from append_outcome [OF Cons.prems(1) this, of al] show ?case
  proof (elim disjE exE conjE)
    fix b1
    assume b1: "output_buffer_append al b ?t = Inr b1" "ob_wf b1"
    have "\<forall>p\<in>set ps. int (length (print_header p)) \<le> INT_MAX" using Cons.prems(3) by simp
    from Cons.IH [OF b1(2) refl this] b1(1) show ?thesis
      using Cons.prems(2) Cons.hyps(1) by (simp add: header_formats_def)
  qed (use Cons.prems(2) Cons.hyps(1) in \<open>simp add: header_formats_def\<close>)
qed simp

lemma http_response_init_outcome:
  assumes "ob_wf b" and "list_all2 header_formats hs ps" and "unat n = length hs" and "format_s body_len body = Inr bt"
    and "\<forall>p\<in>set ps. int (length (print_header p)) \<le> INT_MAX" and "int (length (status_line st)) \<le> INT_MAX"
    and "int (length bt) + 2 \<le> INT_MAX"
  shows "(\<exists>b'. http_response_init al b st hs n body body_len = Inr b' \<and> ob_wf b') \<or>
     http_response_init al b st hs n body body_len = Inl OOM"
proof -
  from append_outcome [OF assms(1,6), of al] show ?thesis
  proof (elim disjE exE conjE)
    fix b1
    assume b1: "output_buffer_append al b (status_line st) = Inr b1" "ob_wf b1"
    from response_headers_outcome [OF assms(2) b1(2) assms(3,5), of al] show ?thesis
    proof (elim disjE exE conjE)
      fix b2
      assume b2: "response_headers al b1 hs (unat n) = Inr b2" "ob_wf b2"
      have "int (length ([13, 10] @ bt)) \<le> INT_MAX" using assms(7) by simp
      from append_outcome [OF b2(2) this, of al] b1 b2 show ?thesis
        by (auto simp: http_response_init_def assms(4))
    qed (use b1 in \<open>simp add: http_response_init_def\<close>)
  qed (simp add: http_response_init_def)
qed

section \<open>Reading the response back\<close>

definition reasons :: "string list" where
  "reasons =
    [''Continue'', ''Switching Protocols'', ''Ok'', ''Created'',
     ''Accepted'', ''Non-Authoritative Information'', ''No Content'', ''Reset Content'',
     ''Partial Content'', ''Multiple Choices'', ''Moved Permanently'', ''Found'',
     ''See Other'', ''Not Modified'', ''Use Proxy'', ''Temporary Redirect'',
     ''Bad Request'', ''Unauthorized'', ''Payment Required'', ''Forbidden'',
     ''Not Found'', ''Method Not Allowed'', ''Not Acceptable'', ''Proxy Authentication Required'',
     ''Request Time-out'', ''Conflict'', ''Gone'', ''Internal Server Error'',
     ''Not Implemented'', ''Bad Gateway'', ''Service Unavailable'', ''Gateway Time-out'',
     ''HTTP Version not supported'', ''Other'']"

lemma get_reason_listed: "get_reason st \<in> set reasons"
  by (simp add: get_reason_def reasons_def)

lemma reasons_printable: "list_all (\<lambda>r. list_all (\<lambda>b. \<not> is_ctl b) (ascii r)) reasons"
  by code_simp

lemma reason_bytes: "\<forall>b\<in>set (ascii (get_reason st)). \<not> is_ctl b"
  using reasons_printable get_reason_listed [of st] by (auto simp: list_all_iff)

lemma dec_three:
  assumes "100 \<le> st" and "st \<le> 999"
  shows "format_d st = [48 + word_of_nat (nat (st div 100)), 48 + word_of_nat (nat (st div 10 mod 10)),
     48 + word_of_nat (nat (st mod 10))]"
proof -
  have b: "\<not> st < 10" "\<not> st div 10 < 10" "st div 10 div 10 < 10" "st div 10 div 10 = st div 100" "0 \<le> st div 100"
    using assms by (simp_all add: zdiv_zmult2_eq [symmetric])
  show ?thesis
    using assms b dec.simps [of st] dec.simps [of "st div 10"] dec.simps [of "st div 10 div 10"]
    by (simp add: format_d_def of_nat_nat)
qed

lemma status_digits:
  assumes "100 \<le> st" and "st \<le> 999"
  obtains d1 d2 d3 :: nat where "d1 \<le> 9" "d2 \<le> 9" "d3 \<le> 9" "100 * int d1 + 10 * int d2 + int d3 = st"
    "format_d st = [48 + word_of_nat d1, 48 + word_of_nat d2, 48 + word_of_nat d3]"
proof
  show "nat (st div 100) \<le> 9" "nat (st div 10 mod 10) \<le> 9" "nat (st mod 10) \<le> 9"
    using assms by (auto simp: nat_le_iff)
  have "st div 100 = st div 10 div 10" by (simp add: zdiv_zmult2_eq [symmetric])
  then have "100 * (st div 100) + 10 * (st div 10 mod 10) + st mod 10 = st"
    using div_mult_mod_eq [of "st div 10" 10] div_mult_mod_eq [of st 10] by linarith
  then show "100 * int (nat (st div 100)) + 10 * int (nat (st div 10 mod 10)) + int (nat (st mod 10)) = st"
    using assms by simp
qed (rule dec_three [OF assms])

lemma status_prefix: "ascii ''HTTP/1.1 '' = print_version 1 @ [32]"
  by code_simp

lemma parse_response_text:
  assumes st: "100 \<le> st" "st \<le> 999" and hs: "\<forall>h\<in>set hs. header_ok h" "length hs \<le> m" "m \<le> length (rsp_headers rs)"
    and n0: "rsp_num_headers rs = 0"
  shows "parse_response m (0, status_line st @ print_headers hs @ body) rs =
     (Ok (length (status_line st) + length (print_headers hs), body),
      rs\<lparr>rsp_minor_version := 1, rsp_status := st, rsp_msg := Some 13, rsp_msg_len := length (get_reason st),
         rsp_headers := header_slots (length (status_line st)) hs @ drop (length hs) (rsp_headers rs),
         rsp_num_headers := length hs\<rparr>)"
proof -
  obtain d1 d2 d3 where d: "d1 \<le> 9" "d2 \<le> 9" "d3 \<le> 9" and dsum: "100 * int d1 + 10 * int d2 + int d3 = st"
      and fd: "format_d st = [48 + word_of_nat d1, 48 + word_of_nat d2, 48 + word_of_nat d3]"
    by (rule status_digits [OF st])
  let ?tail = "ascii (get_reason st) @ 13 # 10 # print_headers hs @ body"
  have line: "status_line st @ print_headers hs @ body =
      print_version 1 @ 32 # (48 + word_of_nat d1) # (48 + word_of_nat d2) # (48 + word_of_nat d3) # 32 # ?tail"
    by (simp add: status_line_def status_prefix fd)
  have len: "length (status_line st) = 13 + length (get_reason st) + 2"
    by (simp add: status_line_def status_prefix fd print_version_def ascii_def)
  have v: "parse_http_version (0, print_version 1 @ 32 # t) = Ok (1, (8, 32 # t))" for t
    using parse_http_version_text [of 1 "32 # t" 0] by simp
  have i3: "PARSE_INT_3 z (9, (48 + word_of_nat d1) # (48 + word_of_nat d2) # (48 + word_of_nat d3) # 32 # ?tail) =
      (Ok (12, 32 # ?tail), st)" for z
    using dsum by (simp add: PARSE_INT_3_def PARSE_INT_digit_text [OF d(1)] PARSE_INT_digit_text [OF d(2)]
        PARSE_INT_digit_text [OF d(3)])
  have msg: "get_token_to_eol (13, ?tail) = Ok ((13, length (get_reason st)), (length (status_line st), print_headers hs @ body))"
    using get_token_to_eol_text [OF reason_bytes, of 13 st "print_headers hs @ body"] by (simp add: len ascii_def)
  have hd: "parse_headers m (length (status_line st), print_headers hs @ body) (rsp_headers rs) 0 =
      (Ok (length (status_line st) + length (print_headers hs), body),
       header_slots (length (status_line st)) hs @ drop (length hs) (rsp_headers rs), length hs)"
    using parse_headers_text [OF hs(1), of 0 m "rsp_headers rs" "length (status_line st)" body] hs by simp
  show ?thesis
    unfolding line parse_response_def
    by (simp add: v i3 msg hd n0 EXPECT_CHAR_NO_CHECK_def Let_def del: One_nat_def)
qed

section \<open>Properties\<close>


definition hh_ex :: HttpHeader where
  "hh_ex = \<lparr>hh_name = [72, 0], hh_name_len = 1, hh_value = [118, 49, 0], hh_value_len = 2\<rparr>"

definition rs_ex :: phr_response where
  "rs_ex = \<lparr>rsp_minor_version = 0, rsp_status = 0, rsp_msg = None, rsp_msg_len = 0,
     rsp_headers = [\<lparr>hdr_name = None, hdr_name_len = 0, hdr_value = None, hdr_value_len = 0\<rparr>], rsp_num_headers = 1\<rparr>"

definition ob_room_ex :: OutputBuffer where
  "ob_room_ex = \<lparr>ob_buffer = replicate 64 0, ob_length = 64, write_from_offset = 0, write_into_offset = 0, ob_resize_count = 0\<rparr>"


end
