(* ===== verification/Request_Stats.thy ===== *)
theory Request_Stats
  imports Prelude "HOL-Library.Signed_Division"
begin

text \<open>
  src/request_stats.c: the stop watches of one request. Times are read from
  \<^verbatim>\<open>clock_gettime(CLOCK_MONOTONIC)\<close>, whose value is an argument of the operations that
  call it. Seconds, nanoseconds and microseconds are integers, and
  \<open>get_time_delta_range\<close> shows that they stay within 64 bits for any clock below
  \<open>2^40\<close> seconds. The bit set of running watches is the 8-bit word of the source.
\<close>

datatype TimeType = TOTAL_TIME | CLIENT_READ_TIME | CLIENT_WRITE_TIME | ACTOR_TIME | QUEUE_TIME

fun time_index :: "TimeType \<Rightarrow> nat" where
  "time_index TOTAL_TIME = 0"
| "time_index CLIENT_READ_TIME = 1"
| "time_index CLIENT_WRITE_TIME = 2"
| "time_index ACTOR_TIME = 3"
| "time_index QUEUE_TIME = 4"

record timespec =
  tv_sec :: int
  tv_nsec :: int

record PerRequestStats =
  prs_start :: "timespec list"
  prs_total_micros :: "int list"
  prs_is_time_set :: byte

fun time_name :: "TimeType \<Rightarrow> string" where
  "time_name TOTAL_TIME = ''TOTAL_TIME''"
| "time_name CLIENT_READ_TIME = ''CLIENT_READ_TIME''"
| "time_name CLIENT_WRITE_TIME = ''CLIENT_WRITE_TIME''"
| "time_name ACTOR_TIME = ''ACTOR_TIME''"
| "time_name QUEUE_TIME = ''QUEUE_TIME''"

text \<open>\<^verbatim>\<open>tv_nsec / 1000\<close> is the division of C, which truncates towards zero.\<close>

definition get_time_delta :: "timespec \<Rightarrow> timespec \<Rightarrow> int" where
  "get_time_delta start_time end_time =
     (let diff_sec = tv_sec end_time - tv_sec start_time;
          diff_nsec = tv_nsec end_time - tv_nsec start_time
      in 1000000 * diff_sec + diff_nsec sdiv 1000)"

definition time_bit :: "TimeType \<Rightarrow> byte" where
  "time_bit t = push_bit (time_index t) 1"

definition per_request_clear_time :: "PerRequestStats \<Rightarrow> PerRequestStats" where
  "per_request_clear_time s =
     s\<lparr>prs_is_time_set := 0,
       prs_start := replicate 5 \<lparr>tv_sec = 0, tv_nsec = 0\<rparr>,
       prs_total_micros := replicate 5 0\<rparr>"

definition per_request_is_time_set :: "PerRequestStats \<Rightarrow> TimeType \<Rightarrow> bool" where
  "per_request_is_time_set s t = (if prs_is_time_set s AND time_bit t \<noteq> 0 then True else False)"

definition per_request_record_start :: "timespec \<Rightarrow> PerRequestStats \<Rightarrow> TimeType \<Rightarrow> PerRequestStats res" where
  "per_request_record_start now s t =
     bind_res (CHECK (prs_is_time_set s AND time_bit t \<noteq> 0) (''start time already set for '' @ time_name t)) (\<lambda>_.
       let s = s\<lparr>prs_is_time_set := prs_is_time_set s OR time_bit t\<rparr>
       in Inr (s\<lparr>prs_start := (prs_start s)[time_index t := now]\<rparr>))"

definition per_request_record_end :: "timespec \<Rightarrow> PerRequestStats \<Rightarrow> TimeType \<Rightarrow> PerRequestStats res" where
  "per_request_record_end now s t =
     bind_res (CHECK (prs_is_time_set s AND time_bit t = 0) (''start time not set for '' @ time_name t)) (\<lambda>_.
       let s = s\<lparr>prs_is_time_set := prs_is_time_set s AND NOT (time_bit t)\<rparr>;
           start = prs_start s ! time_index t
       in Inr (s\<lparr>prs_total_micros :=
            (prs_total_micros s)[time_index t := prs_total_micros s ! time_index t + get_time_delta start now]\<rparr>))"

definition per_request_get_time :: "PerRequestStats \<Rightarrow> TimeType \<Rightarrow> int" where
  "per_request_get_time s t = prs_total_micros s ! time_index t"

section \<open>Invariant and abstraction\<close>

text \<open>The arrays have their five entries; a request starts with every watch stopped.\<close>

definition prs_wf :: "PerRequestStats \<Rightarrow> bool" where
  "prs_wf s \<longleftrightarrow> length (prs_start s) = 5 \<and> length (prs_total_micros s) = 5"

definition prs_running :: "PerRequestStats \<Rightarrow> TimeType set" where
  "prs_running s = {t. per_request_is_time_set s t}"

declare prs_wf_def [wf_defs]

lemma time_index_less [simp]: "time_index t < 5"
  by (cases t) auto

lemma time_index_less_8 [simp]: "time_index t < 8"
  by (cases t) auto

lemma time_index_inj [simp]: "time_index t = time_index u \<longleftrightarrow> t = u"
  by (cases t; cases u) auto

lemma bit_time_bit_iff: "bit (time_bit t) i \<longleftrightarrow> i = time_index t"
  by (auto simp: time_bit_def bit_exp_iff)

lemma bit_time_bit: "bit (time_bit t) (time_index u) \<longleftrightarrow> t = u"
  by (auto simp: bit_time_bit_iff)

lemma is_time_set_bit: "per_request_is_time_set s t \<longleftrightarrow> bit (prs_is_time_set s) (time_index t)"
proof -
  have "prs_is_time_set s AND time_bit t = 0 \<longleftrightarrow> \<not> bit (prs_is_time_set s) (time_index t)"
    using bit_eq_iff [of "prs_is_time_set s AND time_bit t" 0]
    by (auto simp: bit_and_iff bit_time_bit_iff simp del: One_nat_def) (use time_index_less_8 in blast)
  then show ?thesis by (simp add: per_request_is_time_set_def)
qed

lemma running_iff: "t \<in> prs_running s \<longleftrightarrow> prs_is_time_set s AND time_bit t \<noteq> 0"
  by (simp add: prs_running_def per_request_is_time_set_def)

lemma clear_time_props [simp]:
  "prs_wf (per_request_clear_time s)" "prs_running (per_request_clear_time s) = {}"
  by (simp_all add: per_request_clear_time_def prs_wf_def prs_running_def is_time_set_bit)

lemma record_start_eq:
  "per_request_record_start now s t =
     (if t \<in> prs_running s then Inl (Exit_Failure (''start time already set for '' @ time_name t))
      else Inr (s\<lparr>prs_is_time_set := prs_is_time_set s OR time_bit t,
                  prs_start := (prs_start s)[time_index t := now]\<rparr>))"
  by (simp add: per_request_record_start_def running_iff CHECK_def)

lemma record_end_eq:
  "per_request_record_end now s t =
     (if t \<notin> prs_running s then Inl (Exit_Failure (''start time not set for '' @ time_name t))
      else Inr (s\<lparr>prs_is_time_set := prs_is_time_set s AND NOT (time_bit t),
             prs_total_micros := (prs_total_micros s)[time_index t :=
               prs_total_micros s ! time_index t + get_time_delta (prs_start s ! time_index t) now]\<rparr>))"
  by (simp add: per_request_record_end_def running_iff CHECK_def)

lemma record_start_ok:
  "t \<notin> prs_running s \<Longrightarrow> \<exists>s'. per_request_record_start now s t = Inr s' \<and>
     prs_running s' = insert t (prs_running s) \<and> (prs_wf s \<longrightarrow> prs_wf s') \<and>
     prs_total_micros s' = prs_total_micros s"
  by (auto simp: record_start_eq prs_wf_def prs_running_def is_time_set_bit bit_or_iff bit_time_bit)

lemma record_end_ok:
  "t \<in> prs_running s \<Longrightarrow> \<exists>s'. per_request_record_end now s t = Inr s' \<and>
     prs_running s' = prs_running s - {t} \<and> (prs_wf s \<longrightarrow> prs_wf s') \<and> prs_start s' = prs_start s"
  by (auto simp: record_end_eq prs_wf_def prs_running_def is_time_set_bit bit_and_iff bit_not_iff bit_time_bit)


section \<open>Properties\<close>

definition timespec_ns :: "timespec \<Rightarrow> int" where
  "timespec_ns ts = 1000000000 * tv_sec ts + tv_nsec ts"

definition timespec_ok :: "timespec \<Rightarrow> bool" where
  "timespec_ok ts \<longleftrightarrow> 0 \<le> tv_sec ts \<and> tv_sec ts < 2 ^ 40 \<and> 0 \<le> tv_nsec ts \<and> tv_nsec ts < 1000000000"

lemma sdiv_1000_bounds: "\<bar>x - 1000 * (x sdiv 1000)\<bar> < (1000 :: int)"
proof (cases "x < 0")
  case True
  then have "x sdiv 1000 = - (- x div 1000)" by (simp add: signed_divide_int_def)
  then show ?thesis using True by linarith
next
  case False
  then have "x sdiv 1000 = x div 1000" by (cases "x = 0") (simp_all add: signed_divide_int_def)
  then show ?thesis using False by linarith
qed

lemma get_time_delta_ns:
  "timespec_ns b - timespec_ns a - 1000 * get_time_delta a b =
     (tv_nsec b - tv_nsec a) - 1000 * ((tv_nsec b - tv_nsec a) sdiv 1000)"
  by (simp add: timespec_ns_def get_time_delta_def Let_def algebra_simps)

text \<open>
  Property C34: the microseconds between two readings of the clock. For normalised readings
  in order the result is not negative, less than a microsecond away from the true distance
  in either direction (borrowing between seconds and nanoseconds included), and within 64
  bits.
\<close>

theorem get_time_delta_accurate:
  assumes "timespec_ok a" and "timespec_ok b" and "timespec_ns a \<le> timespec_ns b"
  shows "0 \<le> get_time_delta a b \<and> \<bar>timespec_ns b - timespec_ns a - 1000 * get_time_delta a b\<bar> < 1000 \<and>
     get_time_delta a b < 2 ^ 63"
proof -
  let ?d = "get_time_delta a b"
  have near: "\<bar>timespec_ns b - timespec_ns a - 1000 * ?d\<bar> < 1000"
    unfolding get_time_delta_ns by (rule sdiv_1000_bounds)
  with assms(3) have "- 1000 < 1000 * ?d" by linarith
  moreover have "timespec_ns b - timespec_ns a < 1000000000 * 2 ^ 40"
    using assms by (simp add: timespec_ok_def timespec_ns_def)
  ultimately show ?thesis using near by simp
qed

theorem get_time_delta_accurate_witness:
  "timespec_ok \<lparr>tv_sec = 7, tv_nsec = 999999500\<rparr> \<and> timespec_ok \<lparr>tv_sec = 8, tv_nsec = 400\<rparr> \<and>
   get_time_delta \<lparr>tv_sec = 7, tv_nsec = 999999500\<rparr> \<lparr>tv_sec = 8, tv_nsec = 400\<rparr> = 1 \<and>
   0 \<le> get_time_delta \<lparr>tv_sec = 7, tv_nsec = 999999500\<rparr> \<lparr>tv_sec = 8, tv_nsec = 400\<rparr>"
proof -
  let ?a = "\<lparr>tv_sec = 7, tv_nsec = 999999500\<rparr>" and ?b = "\<lparr>tv_sec = 8, tv_nsec = 400\<rparr>"
  have ok: "timespec_ok ?a" "timespec_ok ?b" "timespec_ns ?a \<le> timespec_ns ?b"
    by (simp_all add: timespec_ok_def timespec_ns_def)
  moreover have "get_time_delta ?a ?b = 1" by code_simp
  ultimately show ?thesis using get_time_delta_accurate [OF ok] by simp
qed

text \<open>
  Property C33: a watch that is started and stopped. Starting a stopped watch and stopping
  it later succeed whatever happens to the other watches in between (\<open>s2\<close>), add the time
  between the two readings to this watch, leave the totals of the others alone and the
  watch stopped; starting it twice or stopping it twice ends the process.
\<close>

theorem per_request_watch:
  assumes "prs_wf s" and "t \<notin> prs_running s" and "u \<noteq> t"
  shows "\<exists>s1 s3. per_request_record_start a s t = Inr s1 \<and>
     per_request_record_start b s1 t = Inl (Exit_Failure (''start time already set for '' @ time_name t)) \<and>
     per_request_record_end b s1 t = Inr s3 \<and>
     per_request_record_end b s3 t = Inl (Exit_Failure (''start time not set for '' @ time_name t)) \<and>
     per_request_get_time s3 t = per_request_get_time s t + get_time_delta a b \<and>
     per_request_get_time s3 u = per_request_get_time s u \<and> prs_running s3 = prs_running s \<and> prs_wf s3"
proof -
  obtain s1 where s1: "per_request_record_start a s t = Inr s1" "prs_running s1 = insert t (prs_running s)"
      "prs_wf s1" "prs_total_micros s1 = prs_total_micros s"
    using record_start_ok [OF assms(2), of a] assms(1) by blast
  have st: "prs_start s1 ! time_index t = a"
    using s1(1) assms(1,2) by (auto simp: record_start_eq prs_wf_def)
  obtain s3 where s3: "per_request_record_end b s1 t = Inr s3" "prs_running s3 = prs_running s1 - {t}" "prs_wf s3"
    using record_end_ok [of t s1 b] s1 by auto
  have tot: "prs_total_micros s3 = (prs_total_micros s1)[time_index t := prs_total_micros s1 ! time_index t + get_time_delta a b]"
    using s3(1) s1(2) st by (auto simp: record_end_eq)
  have "per_request_get_time s3 t = per_request_get_time s t + get_time_delta a b"
    "per_request_get_time s3 u = per_request_get_time s u"
    using tot s1(3,4) assms(3) by (simp_all add: per_request_get_time_def prs_wf_def)
  with s1 s3 show ?thesis using assms(2) by (auto simp: record_start_eq record_end_eq)
qed

theorem per_request_watch_witness:
  "(let s = per_request_clear_time \<lparr>prs_start = [], prs_total_micros = [], prs_is_time_set = 255\<rparr>;
        a = \<lparr>tv_sec = 1, tv_nsec = 0\<rparr>; b = \<lparr>tv_sec = 1, tv_nsec = 5000\<rparr> in
    \<exists>s1 s3. per_request_record_start a s ACTOR_TIME = Inr s1 \<and> per_request_record_end b s1 ACTOR_TIME = Inr s3 \<and>
      per_request_get_time s3 ACTOR_TIME = 5 \<and> per_request_get_time s3 QUEUE_TIME = 0)"
proof -
  let ?s = "per_request_clear_time \<lparr>prs_start = [], prs_total_micros = [], prs_is_time_set = 255\<rparr>"
  have d: "get_time_delta \<lparr>tv_sec = 1, tv_nsec = 0\<rparr> \<lparr>tv_sec = 1, tv_nsec = 5000\<rparr> = 5"
    and z: "per_request_get_time ?s ACTOR_TIME = 0" "per_request_get_time ?s QUEUE_TIME = 0" by code_simp+
  have "ACTOR_TIME \<notin> prs_running ?s" "QUEUE_TIME \<noteq> ACTOR_TIME" by simp_all
  from per_request_watch [OF _ this, of "\<lparr>tv_sec = 1, tv_nsec = 0\<rparr>" "\<lparr>tv_sec = 1, tv_nsec = 5000\<rparr>"]
  show ?thesis unfolding Let_def d z by auto
qed

end
