(* ===== verification/Request_Context.thy ===== *)
theory Request_Context
  imports Http_Request Http_Response Request_Stats
begin

text \<open>
  src/request_context.c: the state of one client connection, from the buffers and the
  parsed request to the stop watches. Freeing a context and closing its descriptor are
  operations on the memory of the whole server and stand in the theory of the server;
  here are the operations on a context that is alive.
\<close>

section \<open>Data and operations\<close>

datatype RequestResult =
    REQUEST_SUCCESS
  | REQUEST_EPOLL_ERROR
  | REQUEST_READ_ERROR
  | REQUEST_CLIENT_ERROR
  | REQUEST_WRITE_ERROR

fun request_result_name :: "RequestResult \<Rightarrow> string" where
  "request_result_name REQUEST_SUCCESS = ''SUCCESS''"
| "request_result_name REQUEST_EPOLL_ERROR = ''EPOLL_ERROR''"
| "request_result_name REQUEST_READ_ERROR = ''READ_ERROR''"
| "request_result_name REQUEST_CLIENT_ERROR = ''CLIENT_ERROR''"
| "request_result_name REQUEST_WRITE_ERROR = ''WRITE_ERROR''"

text \<open>The field \<^verbatim>\<open>epoll_info\<close> points to the event loop of an IO worker; the model keeps its id.\<close>

record RequestContext =
  rc_remote_host :: string
  rc_fd :: int
  rc_actor_id :: int
  rc_input_buffer :: InputBuffer
  rc_http_request :: HttpRequest
  rc_output_buffer :: OutputBuffer
  rc_time_stats :: PerRequestStats
  rc_epoll_info :: nat

definition BUF_SIZE :: size_t where
  "BUF_SIZE = 1024"

definition SIZEOF_RequestContext :: size_t where
  "SIZEOF_RequestContext = 3472"

text \<open>The bytes \<^verbatim>\<open>calloc\<close> zeroes: no pointers, no headers.\<close>

definition zero_request :: HttpRequest where
  "zero_request =
     \<lparr>req_method = None, req_method_len = 0, req_path = None, req_path_len = 0, req_minor_version = 0,
      req_headers = replicate NUM_HEADERS
        \<lparr>hdr_name = None, hdr_name_len = 0, hdr_value = None, hdr_value_len = 0\<rparr>,
      req_num_headers = 0\<rparr>"

definition init_request_context :: "allocator \<Rightarrow> int \<Rightarrow> string \<Rightarrow> nat \<Rightarrow> RequestContext res" where
  "init_request_context al fd host_name epoll_info =
     bind_res (CHECK_MEM (malloc al SIZEOF_RequestContext)) (\<lambda>_.
     bind_res (input_buffer_init al BUF_SIZE) (\<lambda>ib.
     bind_res (output_buffer_init al BUF_SIZE) (\<lambda>ob.
       Inr \<lparr>rc_remote_host = host_name, rc_fd = fd, rc_actor_id = - 1, rc_input_buffer = ib,
            rc_http_request = zero_request\<lparr>req_num_headers := NUM_HEADERS\<rparr>, rc_output_buffer = ob,
            rc_time_stats = per_request_clear_time \<lparr>prs_start = [], prs_total_micros = [], prs_is_time_set = 0\<rparr>,
            rc_epoll_info = epoll_info\<rparr>)))"

definition context_bytes_read :: "RequestContext \<Rightarrow> size_t" where
  "context_bytes_read rc = ib_offset (rc_input_buffer rc)"

definition context_bytes_written :: "RequestContext \<Rightarrow> size_t" where
  "context_bytes_written rc = write_from_offset (rc_output_buffer rc)"

text \<open>
  \<^verbatim>\<open>strncmp(p, lit, n) == 0\<close> for a literal of \<open>n\<close> characters and a pointer into the input
  buffer: it stops at the first difference; reading past the region is a fault.
\<close>

fun strncmp_eq :: "byte list \<Rightarrow> nat \<Rightarrow> byte list \<Rightarrow> bool res" where
  "strncmp_eq mem i [] = Inr True"
| "strncmp_eq mem i (c # cs) =
     (if i < length mem then (if mem ! i = c then strncmp_eq mem (Suc i) cs else Inr False)
      else Inl Out_Of_Bounds)"

definition pointer_eq :: "byte list \<Rightarrow> nat option \<Rightarrow> byte list \<Rightarrow> bool res" where
  "pointer_eq mem p lit = (case p of None \<Rightarrow> Inl Out_Of_Bounds | Some i \<Rightarrow> strncmp_eq mem i lit)"

fun keep_alive_loop :: "byte list \<Rightarrow> phr_header list \<Rightarrow> nat \<Rightarrow> int res" where
  "keep_alive_loop mem headers 0 = Inr 0"
| "keep_alive_loop mem [] (Suc n) = Inl Out_Of_Bounds"
| "keep_alive_loop mem (header # headers) (Suc n) =
     (if hdr_name_len header \<noteq> 10 then keep_alive_loop mem headers n
      else bind_res (pointer_eq mem (hdr_name header) (ascii ''Connection'')) (\<lambda>eq.
        if \<not> eq then keep_alive_loop mem headers n
        else if hdr_value_len header \<noteq> 10 then keep_alive_loop mem headers n
        else bind_res (pointer_eq mem (hdr_value header) (ascii ''Keep-Alive'')) (\<lambda>eq.
          if \<not> eq then keep_alive_loop mem headers n else Inr 1)))"

definition context_keep_alive :: "RequestContext \<Rightarrow> int res" where
  "context_keep_alive rc =
     (let http_request = rc_http_request rc
      in keep_alive_loop (ib_buffer (rc_input_buffer rc)) (req_headers http_request) (req_num_headers http_request))"

definition context_finalize_reset :: "RequestContext \<Rightarrow> RequestContext" where
  "context_finalize_reset rc =
     (let rc = rc\<lparr>rc_actor_id := - 1\<rparr>;
          rc = rc\<lparr>rc_input_buffer := input_buffer_reset (rc_input_buffer rc)\<rparr>;
          rc = rc\<lparr>rc_output_buffer := output_buffer_reset (rc_output_buffer rc)\<rparr>
      in rc\<lparr>rc_time_stats := per_request_clear_time (rc_time_stats rc)\<rparr>)"

section \<open>Invariant\<close>

definition rc_wf :: "RequestContext \<Rightarrow> bool" where
  "rc_wf rc \<longleftrightarrow> ib_wf (rc_input_buffer rc) \<and> ob_wf (rc_output_buffer rc) \<and> prs_wf (rc_time_stats rc) \<and>
     length (req_headers (rc_http_request rc)) = NUM_HEADERS \<and> req_num_headers (rc_http_request rc) \<le> NUM_HEADERS"

text \<open>The parsed request points into the input buffer.\<close>

definition rc_parsed :: "RequestContext \<Rightarrow> bool" where
  "rc_parsed rc \<longleftrightarrow> request_within (length (ib_buffer (rc_input_buffer rc))) (rc_http_request rc) \<and>
     req_path (rc_http_request rc) \<noteq> None"

declare rc_wf_def [wf_defs]

lemma init_request_context_wf:
  assumes "init_request_context al fd host w = Inr rc"
  shows "rc_wf rc \<and> rc_fd rc = fd \<and> rc_epoll_info rc = w \<and> prs_running (rc_time_stats rc) = {} \<and>
     ob_pending (rc_output_buffer rc) = []"
  using assms
  by (auto simp: init_request_context_def res_simps rc_wf_def zero_request_def BUF_SIZE_def
      dest!: input_buffer_init_wf output_buffer_init_wf)

lemma context_finalize_reset_wf:
  "rc_wf rc \<Longrightarrow> rc_wf (context_finalize_reset rc) \<and> prs_running (rc_time_stats (context_finalize_reset rc)) = {} \<and>
     rc_fd (context_finalize_reset rc) = rc_fd rc \<and> rc_epoll_info (context_finalize_reset rc) = rc_epoll_info rc"
  using output_buffer_reset_wf [of "rc_output_buffer rc"]
  by (auto simp: context_finalize_reset_def rc_wf_def ib_wf_def input_buffer_reset_def Let_def)

lemma strncmp_eq_result:
  "i + length lit \<le> length mem \<Longrightarrow> strncmp_eq mem i lit = Inr (take (length lit) (drop i mem) = lit)"
proof (induction lit arbitrary: i)
  case (Cons c cs)
  then show ?case using Cons_nth_drop_Suc [of i mem, symmetric] by auto
qed simp

lemma pointer_eq_result:
  assumes "within (length mem) p l" and "l = length lit" and "lit \<noteq> []"
  shows "pointer_eq mem p lit = Inr (bytes_at mem p l = lit)"
  using assms by (cases p) (auto simp: within_def pointer_eq_def bytes_at_def strncmp_eq_result)

lemma length_bytes_at: "within (length mem) p l \<Longrightarrow> length (bytes_at mem p l) = l"
  by (auto simp: within_def bytes_at_def split: option.splits)

lemma keep_alive_literals: "length (ascii ''Connection'') = 10" "length (ascii ''Keep-Alive'') = 10"
  by (simp_all add: ascii_def)

definition asks_keep_alive :: "byte list \<Rightarrow> phr_header \<Rightarrow> bool" where
  "asks_keep_alive mem h \<longleftrightarrow> hdr_slices mem h = (ascii ''Connection'', ascii ''Keep-Alive'')"

lemma keep_alive_loop_result:
  "\<lbrakk>n \<le> length hs; \<forall>h\<in>set (take n hs). hdr_within (length mem) h\<rbrakk> \<Longrightarrow>
     keep_alive_loop mem hs n = Inr (if \<exists>h\<in>set (take n hs). asks_keep_alive mem h then 1 else 0)"
proof (induction n arbitrary: hs)
  case (Suc n hs0)
  then obtain h hs where hs0: "hs0 = h # hs" by (cases hs0) auto
  let ?c = "ascii ''Connection''" and ?k = "ascii ''Keep-Alive''"
  have w: "within (length mem) (hdr_name h) (hdr_name_len h)" "within (length mem) (hdr_value h) (hdr_value_len h)"
    using Suc.prems(2) hs0 by (simp_all add: hdr_within_def)
  have IH: "keep_alive_loop mem hs n = Inr (if \<exists>h\<in>set (take n hs). asks_keep_alive mem h then 1 else 0)"
    using Suc.IH [of hs] Suc.prems hs0 by simp
  have ne: "?c \<noteq> []" "?k \<noteq> []" by (simp_all add: ascii_def)
  have a: "asks_keep_alive mem h \<longleftrightarrow> hdr_name_len h = 10 \<and> hdr_value_len h = 10 \<and>
      bytes_at mem (hdr_name h) (hdr_name_len h) = ?c \<and> bytes_at mem (hdr_value h) (hdr_value_len h) = ?k"
    using length_bytes_at [OF w(1)] length_bytes_at [OF w(2)] keep_alive_literals
    by (auto simp: asks_keep_alive_def hdr_slices_def)
  show ?case
  proof (cases "hdr_name_len h = 10")
    case True
    then have p1: "pointer_eq mem (hdr_name h) ?c = Inr (bytes_at mem (hdr_name h) (hdr_name_len h) = ?c)"
      using pointer_eq_result [OF w(1), of ?c] ne keep_alive_literals by simp
    show ?thesis
    proof (cases "hdr_value_len h = 10")
      case v: True
      then have p2: "pointer_eq mem (hdr_value h) ?k = Inr (bytes_at mem (hdr_value h) (hdr_value_len h) = ?k)"
        using pointer_eq_result [OF w(2), of ?k] ne keep_alive_literals by simp
      show ?thesis using True v p1 p2 IH a hs0 by auto
    qed (use True p1 IH a hs0 in auto)
  qed (use IH a hs0 in auto)
qed simp

lemma context_keep_alive_result:
  assumes "rc_parsed rc"
  shows "context_keep_alive rc = Inr (if \<exists>i<req_num_headers (rc_http_request rc).
     asks_keep_alive (ib_buffer (rc_input_buffer rc)) (req_headers (rc_http_request rc) ! i) then 1 else 0)"
proof -
  let ?n = "req_num_headers (rc_http_request rc)" and ?hs = "req_headers (rc_http_request rc)"
  have w: "?n \<le> length ?hs" "\<forall>i<?n. hdr_within (length (ib_buffer (rc_input_buffer rc))) (?hs ! i)"
    using assms by (simp_all add: rc_parsed_def request_within_def)
  then have "set (take ?n ?hs) = (!) ?hs ` {0..<?n}" by (simp add: nth_image)
  with w show ?thesis
    by (auto simp: context_keep_alive_def Let_def keep_alive_loop_result)
qed

section \<open>Properties\<close>

text \<open>
  Property C32: a connection is kept alive exactly when one of the parsed headers is
  \<^verbatim>\<open>Connection: Keep-Alive\<close>, byte for byte; the comparison never reads outside the input
  buffer.
\<close>

theorem context_keep_alive_correct:
  assumes "rc_parsed rc"
  shows "context_keep_alive rc = Inr 1 \<longleftrightarrow>
       (\<exists>i<req_num_headers (rc_http_request rc).
          hdr_slices (ib_buffer (rc_input_buffer rc)) (req_headers (rc_http_request rc) ! i) =
            (ascii ''Connection'', ascii ''Keep-Alive''))"
  using context_keep_alive_result [OF assms] by (auto simp: asks_keep_alive_def)

definition rc_alive_ex :: RequestContext where
  "rc_alive_ex =
     \<lparr>rc_remote_host = [], rc_fd = 5, rc_actor_id = - 1,
      rc_input_buffer = \<lparr>ib_buffer = ascii ''Connection: Keep-Alive'', ib_length = 22, ib_offset = 22, ib_resize_count = 0\<rparr>,
      rc_http_request = \<lparr>req_method = Some 0, req_method_len = 0, req_path = Some 0, req_path_len = 0, req_minor_version = 1,
        req_headers = [\<lparr>hdr_name = Some 0, hdr_name_len = 10, hdr_value = Some 12, hdr_value_len = 10\<rparr>], req_num_headers = 1\<rparr>,
      rc_output_buffer = \<lparr>ob_buffer = [], ob_length = 0, write_from_offset = 0, write_into_offset = 0, ob_resize_count = 0\<rparr>,
      rc_time_stats = \<lparr>prs_start = [], prs_total_micros = [], prs_is_time_set = 0\<rparr>,
      rc_epoll_info = 0\<rparr>"

theorem context_keep_alive_correct_witness:
  "rc_parsed rc_alive_ex \<and> context_keep_alive rc_alive_ex = Inr 1"
proof -
  have p: "rc_parsed rc_alive_ex"
    by (simp add: rc_parsed_def rc_alive_ex_def request_within_def within_def hdr_within_def ascii_def)
  have "hdr_slices (ib_buffer (rc_input_buffer rc_alive_ex)) (req_headers (rc_http_request rc_alive_ex) ! 0) =
      (ascii ''Connection'', ascii ''Keep-Alive'')" by code_simp
  moreover have "(0::nat) < req_num_headers (rc_http_request rc_alive_ex)" by (simp add: rc_alive_ex_def)
  ultimately show ?thesis using context_keep_alive_correct [OF p] p by blast
qed

end
