(* ===== verification/Queue_Interface.thy ===== *)
theory Queue_Interface
  imports Posix
begin

text \<open>
  src/queue.h: the interface that src/mrmw_queue.c and src/srsw_queue.c both implement.
  The contract is the locale \<open>bounded_queue\<close>: a FIFO list of bounded length, with an event
  descriptor that counts the successful pushes. The reference behaviour is \<open>fifo_step\<close>;
  \<open>run_refines\<close> shows once, for every implementation of the contract, that any sequence
  of calls answers as the FIFO list does. The section on rings holds the index arithmetic
  of both implementations.
\<close>

section \<open>The interface\<close>

datatype QueueResult = QUEUE_SUCCESS | QUEUE_FAILURE

definition queue_result_name :: "QueueResult \<Rightarrow> string" where
  "queue_result_name r =
     (case r of QUEUE_SUCCESS \<Rightarrow> ''QUEUE_SUCCESS'' | QUEUE_FAILURE \<Rightarrow> ''QUEUE_FAILURE'')"

datatype queue_op = Push pointer | Pop

datatype queue_out = Pushed QueueResult | Popped pointer

text \<open>The reference: a FIFO list of at most \<open>cap\<close> items.\<close>

fun fifo_step :: "nat \<Rightarrow> pointer list \<Rightarrow> queue_op \<Rightarrow> queue_out \<times> pointer list" where
  "fifo_step cap xs (Push p) =
     (if length xs < cap then (Pushed QUEUE_SUCCESS, xs @ [p]) else (Pushed QUEUE_FAILURE, xs))"
| "fifo_step cap xs Pop =
     (case xs of [] \<Rightarrow> (Popped NULL, []) | x # ys \<Rightarrow> (Popped x, ys))"

fun fifo_run :: "nat \<Rightarrow> pointer list \<Rightarrow> queue_op list \<Rightarrow> queue_out list \<times> pointer list" where
  "fifo_run cap xs [] = ([], xs)"
| "fifo_run cap xs (o1 # ops) =
     (let (r, ys) = fifo_step cap xs o1; (rs, zs) = fifo_run cap ys ops in (r # rs, zs))"

text \<open>The same sequence of calls on an implementation.\<close>

fun queue_run ::
  "('q \<Rightarrow> pointer \<Rightarrow> (QueueResult \<times> 'q) res) \<Rightarrow> ('q \<Rightarrow> (pointer \<times> 'q) res) \<Rightarrow> 'q \<Rightarrow>
     queue_op list \<Rightarrow> (queue_out list \<times> 'q) res" where
  "queue_run push pop q [] = Inr ([], q)"
| "queue_run push pop q (Push p # ops) =
     bind_res (push q p) (\<lambda>(r, q').
       bind_res (queue_run push pop q' ops) (\<lambda>(rs, q''). Inr (Pushed r # rs, q'')))"
| "queue_run push pop q (Pop # ops) =
     bind_res (pop q) (\<lambda>(p, q').
       bind_res (queue_run push pop q' ops) (\<lambda>(rs, q''). Inr (Popped p # rs, q'')))"

definition count_pushes :: "queue_op list \<Rightarrow> nat" where
  "count_pushes ops = length (filter (\<lambda>o1. o1 \<noteq> Pop) ops)"

locale bounded_queue =
  fixes push :: "'q \<Rightarrow> pointer \<Rightarrow> (QueueResult \<times> 'q) res"
    and pop :: "'q \<Rightarrow> (pointer \<times> 'q) res"
    and items :: "'q \<Rightarrow> pointer list"
    and capacity :: "'q \<Rightarrow> nat"
    and notified :: "'q \<Rightarrow> nat"
    and inv :: "'q \<Rightarrow> bool"
  assumes bounded: "inv q \<Longrightarrow> length (items q) \<le> capacity q"
    and push_room: "\<lbrakk>inv q; length (items q) < capacity q; notified q < unat EVENTFD_MAX\<rbrakk> \<Longrightarrow>
       \<exists>q'. push q p = Inr (QUEUE_SUCCESS, q') \<and> inv q' \<and> items q' = items q @ [p] \<and>
         capacity q' = capacity q \<and> notified q' = Suc (notified q)"
    and push_full: "\<lbrakk>inv q; length (items q) = capacity q\<rbrakk> \<Longrightarrow> push q p = Inr (QUEUE_FAILURE, q)"
    and pop_item: "\<lbrakk>inv q; items q = x # xs\<rbrakk> \<Longrightarrow>
       \<exists>q'. pop q = Inr (x, q') \<and> inv q' \<and> items q' = xs \<and> capacity q' = capacity q \<and>
         notified q' = notified q"
    and pop_empty: "\<lbrakk>inv q; items q = []\<rbrakk> \<Longrightarrow> pop q = Inr (NULL, q)"
begin

lemma step_push:
  assumes "inv q" and "notified q < unat EVENTFD_MAX"
  shows "\<exists>r q'. push q p = Inr (r, q') \<and> inv q' \<and> capacity q' = capacity q \<and>
     notified q' \<le> Suc (notified q) \<and> fifo_step (capacity q) (items q) (Push p) = (Pushed r, items q')"
proof (cases "length (items q) < capacity q")
  case True
  with push_room [OF assms(1) True assms(2), of p] show ?thesis by (metis fifo_step.simps(1) order_refl)
next
  case False
  then show ?thesis using push_full [OF assms(1)] bounded [OF assms(1)] assms(1) by auto
qed

lemma step_pop:
  assumes "inv q"
  shows "\<exists>x q'. pop q = Inr (x, q') \<and> inv q' \<and> capacity q' = capacity q \<and>
     notified q' = notified q \<and> fifo_step (capacity q) (items q) Pop = (Popped x, items q')"
proof (cases "items q")
  case Nil
  then show ?thesis using pop_empty [OF assms Nil] assms by auto
next
  case (Cons x xs)
  then show ?thesis using pop_item [OF assms Cons] by auto
qed

lemma push_notifies:
  assumes "inv q" and "notified q < unat EVENTFD_MAX" and "push q p = Inr (r, q')"
  shows "inv q' \<and> notified q' = notified q + (if r = QUEUE_SUCCESS then 1 else 0)"
  using push_room [OF assms(1) _ assms(2), of p] push_full [OF assms(1), of p] bounded [OF assms(1)] assms
  by (cases "length (items q) < capacity q") auto

lemma run_notifies:
  "\<lbrakk>inv q; notified q + count_pushes ops \<le> unat EVENTFD_MAX; queue_run push pop q ops = Inr (outs, q')\<rbrakk> \<Longrightarrow>
     notified q' = notified q + count_list outs (Pushed QUEUE_SUCCESS)"
proof (induction ops arbitrary: q outs)
  case (Cons o1 ops)
  show ?case
  proof (cases o1)
    case (Push p)
    with Cons.prems obtain r q1 rs where p: "push q p = Inr (r, q1)"
      and run: "queue_run push pop q1 ops = Inr (rs, q')" and outs: "outs = Pushed r # rs"
      by (auto simp: res_simps split: prod.splits)
    have "notified q < unat EVENTFD_MAX" using Cons.prems(2) Push by (simp add: count_pushes_def)
    from push_notifies [OF Cons.prems(1) this p] show ?thesis
      using Cons.IH [OF _ _ run] Cons.prems(2) Push outs by (cases r) (auto simp: count_pushes_def)
  next
    case Pop
    with Cons.prems obtain x q1 rs where p: "pop q = Inr (x, q1)"
      and run: "queue_run push pop q1 ops = Inr (rs, q')" and outs: "outs = Popped x # rs"
      by (auto simp: res_simps split: prod.splits)
    from step_pop [OF Cons.prems(1)] p have "inv q1" "notified q1 = notified q" by auto
    then show ?thesis
      using Cons.IH [OF _ _ run] Cons.prems(2) Pop outs by (simp add: count_pushes_def)
  qed
qed simp

lemma run_refines:
  "\<lbrakk>inv q; notified q + count_pushes ops \<le> unat EVENTFD_MAX\<rbrakk> \<Longrightarrow>
   \<exists>outs q'. queue_run push pop q ops = Inr (outs, q') \<and> inv q' \<and> capacity q' = capacity q \<and>
     fifo_run (capacity q) (items q) ops = (outs, items q')"
proof (induction ops arbitrary: q)
  case (Cons o1 ops)
  show ?case
  proof (cases o1)
    case (Push p)
    then obtain r q1 where "push q p = Inr (r, q1)" "inv q1" "capacity q1 = capacity q"
        "notified q1 \<le> Suc (notified q)" "fifo_step (capacity q) (items q) (Push p) = (Pushed r, items q1)"
      using step_push [OF Cons.prems(1), of p] Cons.prems(2) by (auto simp: count_pushes_def)
    with Cons.IH [of q1] Cons.prems Push show ?thesis by (auto simp: count_pushes_def)
  next
    case Pop
    with step_pop [OF Cons.prems(1)] obtain x q1 where "pop q = Inr (x, q1)" "inv q1"
        "capacity q1 = capacity q" "notified q1 = notified q"
        "fifo_step (capacity q) (items q) Pop = (Popped x, items q1)"
      by blast
    with Cons.IH [of q1] Cons.prems Pop show ?thesis by (auto simp: count_pushes_def)
  qed
qed simp

end

section \<open>Rings\<close>

text \<open>The \<open>cnt\<close> items from index \<open>start\<close> on, in a ring of \<open>n\<close> slots.\<close>

definition ring_items :: "'a list \<Rightarrow> nat \<Rightarrow> nat \<Rightarrow> nat \<Rightarrow> 'a list" where
  "ring_items ring n start cnt = map (\<lambda>k. ring ! ((start + k) mod n)) [0..<cnt]"

lemma length_ring_items [simp]: "length (ring_items ring n start cnt) = cnt"
  by (simp add: ring_items_def)

lemma ring_items_0 [simp]: "ring_items ring n start 0 = []"
  by (simp add: ring_items_def)

lemma ring_slot_distinct:
  assumes "j < k" and "k < (n::nat)"
  shows "(start + j) mod n \<noteq> (start + k) mod n"
proof
  assume "(start + j) mod n = (start + k) mod n"
  then have "n dvd (k - j)"
    using assms by (metis add_diff_cancel_left less_imp_le mod_eq_dvd_iff_nat nat_add_left_cancel_le)
  with assms show False by (simp add: nat_dvd_not_less)
qed

lemma ring_items_push:
  assumes "cnt < n" and "n \<le> length ring" and "i = (start + cnt) mod n"
  shows "ring_items (ring[i := x]) n start (Suc cnt) = ring_items ring n start cnt @ [x]"
proof -
  have "ring[i := x] ! ((start + k) mod n) = ring ! ((start + k) mod n)" if "k < cnt" for k
    using ring_slot_distinct [OF that assms(1), of start] assms(3) by simp
  moreover have "i < length ring" using assms by (metis mod_less_divisor le_less_trans not_le
      order_less_le_trans zero_less_iff_neq_zero less_nat_zero_code)
  ultimately show ?thesis
    using assms(3) by (simp add: ring_items_def)
qed

lemma ring_items_pop:
  "0 < n \<Longrightarrow> ring_items ring n start (Suc cnt) = ring ! (start mod n) # ring_items ring n ((start + 1) mod n) cnt"
  unfolding ring_items_def by (simp add: upt_conv_Cons mod_simps map_Suc_upt [symmetric] del: upt_Suc)

end
