(* ===== verification/Srsw_Queue.thy ===== *)
theory Srsw_Queue
  imports Queue_Interface
begin

text \<open>
  src/srsw_queue.c: the lock-free queue for one producer and one consumer, a ring whose
  size is a power of two and whose offsets are masked. First the operations as a single
  thread runs them, with the memory \<^verbatim>\<open>queue_init\<close> really allocates; then their atomic
  loads and stores as a step relation in which producer and consumer interleave freely.
\<close>

section \<open>Data and operations\<close>

record SrswQueue =
  sq_max_size :: size_t
  sq_mask :: size_t
  sq_push_offset :: size_t
  sq_pop_offset :: size_t
  sq_ring_buffer :: "pointer list"
  sq_add_event :: eventfd

definition pow_2_size :: "size_t \<Rightarrow> size_t" where
  "pow_2_size v =
     (let v = v - 1;
          v = v OR drop_bit 1 v;
          v = v OR drop_bit 2 v;
          v = v OR drop_bit 4 v;
          v = v OR drop_bit 8 v;
          v = v OR drop_bit 16 v
      in v + 1)"

definition SIZEOF_SrswQueue :: size_t where
  "SIZEOF_SrswQueue = 48"

text \<open>
  \<^verbatim>\<open>posix_memalign(&ring, sizeof(size_t), size)\<close> asks for \<open>size\<close> bytes, so the ring has
  room for an eighth of \<open>size\<close> pointers.
\<close>

definition srsw_queue_init :: "allocator \<Rightarrow> size_t \<Rightarrow> SrswQueue res" where
  "srsw_queue_init al n =
     (let n = pow_2_size n
      in bind_res (CHECK_MEM (malloc al SIZEOF_SrswQueue)) (\<lambda>_.
           let m = malloc al n
           in bind_res (CHECK (m = None) ''Failed to malloc an aligned memory region'') (\<lambda>_.
                Inr \<lparr>sq_max_size = n, sq_mask = n - 1, sq_push_offset = 0, sq_pop_offset = 0,
                     sq_ring_buffer = pointer_slots (the m), sq_add_event = 0\<rparr>)))"

definition srsw_queue_size :: "SrswQueue \<Rightarrow> size_t" where
  "srsw_queue_size q =
     (let push = sq_push_offset q; pop = sq_pop_offset q
      in if push \<ge> pop then push - pop else sq_max_size q - pop + push)"

definition srsw_queue_push :: "SrswQueue \<Rightarrow> pointer \<Rightarrow> (QueueResult \<times> SrswQueue) res" where
  "srsw_queue_push q ptr =
     (let push_offset = sq_push_offset q; pop_offset = sq_pop_offset q
      in if (push_offset + 1) AND sq_mask q = pop_offset then Inr (QUEUE_FAILURE, q)
         else if unat push_offset < length (sq_ring_buffer q) then
           let q = q\<lparr>sq_ring_buffer := (sq_ring_buffer q)[unat push_offset := ptr]\<rparr>;
               q = q\<lparr>sq_push_offset := (push_offset + 1) AND sq_mask q\<rparr>;
               (r, ev) = eventfd_write (sq_add_event q) 1
           in bind_res (CHECK (r \<noteq> 0) ''Failed to send event notification'') (\<lambda>_.
                Inr (QUEUE_SUCCESS, q\<lparr>sq_add_event := ev\<rparr>))
         else Inl Out_Of_Bounds)"

definition srsw_queue_pop :: "SrswQueue \<Rightarrow> (pointer \<times> SrswQueue) res" where
  "srsw_queue_pop q =
     (let pop_offset = sq_pop_offset q; push_offset = sq_push_offset q
      in if pop_offset = push_offset then Inr (NULL, q)
         else if unat pop_offset < length (sq_ring_buffer q) then
           let ptr = sq_ring_buffer q ! unat pop_offset
           in Inr (ptr, q\<lparr>sq_pop_offset := (pop_offset + 1) AND sq_mask q\<rparr>)
         else Inl Out_Of_Bounds)"

section \<open>The rounding to a power of two\<close>

lemma smear_step:
  assumes "\<And>i. bit y i \<longleftrightarrow> (\<exists>d<k. bit (x::size_t) (i + d))"
  shows "bit (y OR drop_bit k y) i \<longleftrightarrow> (\<exists>d<2 * k. bit x (i + d))"
proof
  assume "bit (y OR drop_bit k y) i"
  then have "(\<exists>d<k. bit x (i + d)) \<or> (\<exists>d<k. bit x (k + i + d))"
    by (auto simp: bit_or_iff bit_drop_bit_eq assms)
  then show "\<exists>d<2 * k. bit x (i + d)"
  proof
    assume "\<exists>d<k. bit x (k + i + d)"
    then obtain d where "d < k" "bit x (i + (k + d))" by (auto simp: ac_simps)
    then show ?thesis by (intro exI [of _ "k + d"]) auto
  qed (metis less_le_trans mult_2 le_add1)
next
  assume "\<exists>d<2 * k. bit x (i + d)"
  then obtain d where d: "d < 2 * k" "bit x (i + d)" by blast
  show "bit (y OR drop_bit k y) i"
  proof (cases "d < k")
    case True
    then show ?thesis using d by (auto simp: bit_or_iff assms)
  next
    case False
    then have "d - k < k" "k + i + (d - k) = i + d" using d(1) by auto
    then have "bit y (k + i)" using d(2) by (auto simp: assms intro: exI [of _ "d - k"])
    then show ?thesis by (simp add: bit_or_iff bit_drop_bit_eq)
  qed
qed

definition smear :: "size_t \<Rightarrow> size_t" where
  "smear v =
     (let v = v OR drop_bit 1 v; v = v OR drop_bit 2 v; v = v OR drop_bit 4 v;
          v = v OR drop_bit 8 v in v OR drop_bit 16 v)"

lemma pow_2_size_smear: "pow_2_size v = smear (v - 1) + 1"
  by (simp add: pow_2_size_def smear_def Let_def)

lemma bit_smear: "bit (smear x) i \<longleftrightarrow> (\<exists>d<32. bit x (i + d))"
proof -
  have 1: "bit x i \<longleftrightarrow> (\<exists>d<1. bit x (i + d))" for i by simp
  note 2 = smear_step [OF 1, simplified]
  note 4 = smear_step [OF 2, simplified]
  note 8 = smear_step [OF 4, simplified]
  note 16 = smear_step [OF 8, simplified]
  show ?thesis
    using smear_step [OF 16, of i] by (simp add: smear_def Let_def)
qed


lemma highest_bit:
  assumes "x \<noteq> (0::size_t)"
  shows "\<exists>h. bit x h \<and> (\<forall>i>h. \<not> bit x i)"
proof -
  let ?B = "{i. bit x i}"
  have fin: "finite ?B"
    by (rule finite_subset [of _ "{..<64}"]) (auto dest: bit_imp_le_length)
  have ne: "?B \<noteq> {}"
    using assms by (auto simp: bit_eq_iff)
  have "bit x (Max ?B)" using Max_in [OF fin ne] by simp
  moreover have "\<forall>i>Max ?B. \<not> bit x i" using Max_ge [OF fin] by (meson leD mem_Collect_eq)
  ultimately show ?thesis by blast
qed

lemma bit_unat_le: "bit (x::size_t) h \<Longrightarrow> 2 ^ h \<le> unat x"
proof -
  assume "bit x h"
  then have "bit (unat x) h" by (simp add: bit_unsigned_iff)
  then have "unat x div 2 ^ h \<noteq> 0" by (metis bit_iff_odd even_zero)
  then show ?thesis by (simp add: div_eq_0_iff)
qed

lemma smear_mask:
  assumes "bit x h" and "\<forall>i>h. \<not> bit x i" and "h < 32"
  shows "smear x = mask (Suc h)"
proof (rule bit_eqI)
  fix i
  show "bit (smear x) i = bit (mask (Suc h) :: size_t) i"
  proof (cases "i \<le> h")
    case True
    then have "\<exists>d<32. bit x (i + d)"
      using assms by (intro exI [of _ "h - i"]) auto
    then show ?thesis using True assms(3) by (simp add: bit_smear bit_mask_iff)
  next
    case False
    then show ?thesis using assms(2) by (auto simp: bit_smear bit_mask_iff)
  qed
qed

lemma pow_2_size_power:
  assumes "v \<noteq> 0" and "unat v \<le> 2 ^ 32"
  shows "\<exists>k\<le>32. pow_2_size v = 2 ^ k \<and> unat v \<le> 2 ^ k \<and> (k = 0 \<or> 2 ^ (k - 1) < unat v)"
proof (cases "v = 1")
  case True
  have "pow_2_size 1 = 2 ^ 0" by (simp add: pow_2_size_smear smear_def Let_def)
  with True show ?thesis by (intro exI [of _ 0]) simp
next
  case False
  let ?x = "v - 1"
  have x: "?x \<noteq> 0" "unat ?x = unat v - 1" using False assms(1) by (simp_all add: unat_minus_one)
  from highest_bit [OF x(1)] obtain h where h: "bit ?x h" "\<forall>i>h. \<not> bit ?x i" by blast
  have low: "2 ^ h \<le> unat ?x" by (rule bit_unat_le [OF h(1)])
  moreover have "unat ?x < 2 ^ 32" using x(2) assms by (simp add: unat_gt_0)
  ultimately have lt: "h < 32"
    by (metis le_less_trans one_less_numeral_iff power_less_imp_less_exp semiring_norm(76))
  have "take_bit (Suc h) ?x = ?x"
    using h(2) by (intro bit_eqI) (auto simp: bit_take_bit_iff not_less_eq)
  then have "unat ?x < 2 ^ Suc h"
    by (metis unsigned_take_bit_eq take_bit_nat_less_exp)
  moreover have "pow_2_size v = 2 ^ Suc h"
    using smear_mask [OF h lt] by (simp add: pow_2_size_smear mask_eq_exp_minus_1)
  ultimately show ?thesis
    using lt low x(2) by (intro exI [of _ "Suc h"]) auto
qed

section \<open>Invariant and abstraction\<close>

text \<open>
  The number of items between two offsets of a ring of \<open>n\<close> slots, as \<^verbatim>\<open>queue_size\<close>
  computes it.
\<close>

definition ring_dist :: "nat \<Rightarrow> nat \<Rightarrow> nat \<Rightarrow> nat" where
  "ring_dist n pop push = (if pop \<le> push then push - pop else n - pop + push)"

lemma ring_dist_less: "\<lbrakk>a < n; b < n\<rbrakk> \<Longrightarrow> ring_dist n a b < n"
  by (auto simp: ring_dist_def)

lemma ring_dist_0 [simp]: "a < n \<Longrightarrow> b < n \<Longrightarrow> ring_dist n a b = 0 \<longleftrightarrow> a = b"
  by (auto simp: ring_dist_def)

lemma ring_dist_add: "\<lbrakk>a < n; b < n\<rbrakk> \<Longrightarrow> (a + ring_dist n a b) mod n = b"
  by (auto simp: ring_dist_def)

lemma succ_mod: "b < n \<Longrightarrow> Suc b mod n = (if Suc b = n then 0 else Suc b)"
  by auto

lemma ring_dist_full: "\<lbrakk>a < n; b < n\<rbrakk> \<Longrightarrow> Suc b mod n = a \<longleftrightarrow> Suc (ring_dist n a b) = n"
  by (auto simp: ring_dist_def succ_mod)

lemma ring_dist_push:
  "\<lbrakk>a < n; b < n; Suc (ring_dist n a b) < n\<rbrakk> \<Longrightarrow> ring_dist n a (Suc b mod n) = Suc (ring_dist n a b)"
  by (auto simp: ring_dist_def succ_mod split: if_splits)

lemma ring_dist_pop:
  "\<lbrakk>a < n; b < n; a \<noteq> b\<rbrakk> \<Longrightarrow> ring_dist n (Suc a mod n) b = ring_dist n a b - 1"
  by (auto simp: ring_dist_def succ_mod split: if_splits)

text \<open>The parts of the invariant that no operation changes: size, mask and ring.\<close>

definition sq_shape :: "SrswQueue \<Rightarrow> bool" where
  "sq_shape q \<longleftrightarrow> (\<exists>k<64. sq_max_size q = 2 ^ k) \<and> sq_mask q = sq_max_size q - 1 \<and>
     unat (sq_max_size q) \<le> length (sq_ring_buffer q)"

definition sq_inv :: "SrswQueue \<Rightarrow> bool" where
  "sq_inv q \<longleftrightarrow> sq_shape q \<and> sq_push_offset q < sq_max_size q \<and> sq_pop_offset q < sq_max_size q"

definition sq_count :: "SrswQueue \<Rightarrow> nat" where
  "sq_count q = ring_dist (unat (sq_max_size q)) (unat (sq_pop_offset q)) (unat (sq_push_offset q))"

definition sq_items :: "SrswQueue \<Rightarrow> pointer list" where
  "sq_items q = ring_items (sq_ring_buffer q) (unat (sq_max_size q)) (unat (sq_pop_offset q)) (sq_count q)"

definition sq_capacity :: "SrswQueue \<Rightarrow> nat" where
  "sq_capacity q = unat (sq_max_size q) - 1"

definition sq_notified :: "SrswQueue \<Rightarrow> nat" where
  "sq_notified q = unat (sq_add_event q)"

declare sq_inv_def [wf_defs] sq_shape_def [wf_defs]

lemmas sq_abs_defs = sq_items_def sq_capacity_def sq_notified_def sq_count_def

lemma unat_pow2: "k < 64 \<Longrightarrow> unat (2 ^ k :: size_t) = 2 ^ k"
  using unat_of_nat_size [of "2 ^ k"] power_strict_increasing [of k 64 "2::nat"] by simp

lemma and_mask_mod:
  assumes "sq_shape q"
  shows "unat (x AND sq_mask q) = unat x mod unat (sq_max_size q)"
proof -
  obtain k where k: "k < 64" "sq_max_size q = 2 ^ k" "sq_mask q = mask k"
    using assms by (auto simp: sq_shape_def mask_eq_exp_minus_1)
  have "unat (2 ^ k :: size_t) = 2 ^ k" using k(1) by (rule unat_pow2)
  then show ?thesis
    using k by (simp add: take_bit_eq_mod unat_mod_distrib flip: take_bit_eq_mask)
qed

lemma next_offset:
  assumes "sq_shape q" and "x < sq_max_size q"
  shows "unat ((x + 1) AND sq_mask q) = Suc (unat x) mod unat (sq_max_size q)"
proof -
  have "Suc (unat x) < 2 ^ 64"
    using assms(2) unat_less_size [of "sq_max_size q"] unfolding word_less_nat_alt
    by (simp del: unat_less_size)
  then have "unat (x + 1) = Suc (unat x)" using unat_add_of_nat [of x 1] by simp
  then show ?thesis using and_mask_mod [OF assms(1), of "x + 1"] by simp
qed

lemma sq_invD:
  assumes "sq_inv q"
  shows "sq_shape q" "unat (sq_push_offset q) < unat (sq_max_size q)"
    "unat (sq_pop_offset q) < unat (sq_max_size q)" "unat (sq_max_size q) \<le> length (sq_ring_buffer q)"
    "unat ((sq_push_offset q + 1) AND sq_mask q) = Suc (unat (sq_push_offset q)) mod unat (sq_max_size q)"
    "unat ((sq_pop_offset q + 1) AND sq_mask q) = Suc (unat (sq_pop_offset q)) mod unat (sq_max_size q)"
  using assms next_offset [of q] by (simp_all add: sq_inv_def sq_shape_def word_less_nat_alt)

lemma sq_bounded: "sq_inv q \<Longrightarrow> length (sq_items q) \<le> sq_capacity q"
  using ring_dist_less [OF sq_invD(3,2), of q] by (simp add: sq_abs_defs)

lemma sq_full_iff:
  "sq_inv q \<Longrightarrow> (sq_push_offset q + 1) AND sq_mask q = sq_pop_offset q \<longleftrightarrow> length (sq_items q) = sq_capacity q"
  using ring_dist_full [OF sq_invD(3,2), of q] ring_dist_less [OF sq_invD(3,2), of q]
  by (auto simp: sq_abs_defs word_unat_eq_iff sq_invD)

lemma sq_push_room:
  assumes inv: "sq_inv q" and room: "length (sq_items q) < sq_capacity q" and ev: "sq_notified q < unat EVENTFD_MAX"
  shows "\<exists>q'. srsw_queue_push q p = Inr (QUEUE_SUCCESS, q') \<and> sq_inv q' \<and> sq_items q' = sq_items q @ [p] \<and>
     sq_capacity q' = sq_capacity q \<and> sq_notified q' = Suc (sq_notified q)"
proof -
  let ?n = "unat (sq_max_size q)" and ?a = "unat (sq_pop_offset q)" and ?b = "unat (sq_push_offset q)"
  note D = sq_invD [OF inv]
  have nf: "(sq_push_offset q + 1) AND sq_mask q \<noteq> sq_pop_offset q"
    using sq_full_iff [OF inv] room by simp
  have b: "?b < length (sq_ring_buffer q)" "(?a + ring_dist ?n ?a ?b) mod ?n = ?b"
    using D(2,4) ring_dist_add [OF D(3,2)] by simp_all
  have d: "ring_dist ?n ?a ?b < ?n" "Suc (ring_dist ?n ?a ?b) < ?n"
    using room by (simp_all add: sq_abs_defs)
  have ev1: "eventfd_write (sq_add_event q) 1 = (0, sq_add_event q + 1)"
    "unat (sq_add_event q + 1) = Suc (unat (sq_add_event q))"
    using ev eventfd_write_one [of "sq_add_event q"] by (simp_all add: sq_notified_def)
  have "ring_items ((sq_ring_buffer q)[?b := p]) ?n ?a (Suc (ring_dist ?n ?a ?b)) =
      ring_items (sq_ring_buffer q) ?n ?a (ring_dist ?n ?a ?b) @ [p]"
    using D(4) b(2) by (intro ring_items_push [OF d(1)]) simp_all
  then show ?thesis
    using inv nf b(1) ev1 D(5) ring_dist_push [OF D(3,2) d(2)] D(2)
    by (auto simp: srsw_queue_push_def sq_inv_def sq_shape_def sq_abs_defs Let_def word_less_nat_alt)
qed

lemma sq_push_full:
  "\<lbrakk>sq_inv q; length (sq_items q) = sq_capacity q\<rbrakk> \<Longrightarrow> srsw_queue_push q p = Inr (QUEUE_FAILURE, q)"
  using sq_full_iff [of q] by (simp add: srsw_queue_push_def)

lemma sq_empty_iff: "sq_inv q \<Longrightarrow> sq_items q = [] \<longleftrightarrow> sq_pop_offset q = sq_push_offset q"
  using ring_dist_0 [OF sq_invD(3,2), of q] ring_dist_less [OF sq_invD(3,2), of q]
  by (simp add: sq_abs_defs word_unat_eq_iff flip: length_0_conv)

lemma sq_pop_item:
  assumes inv: "sq_inv q" and it: "sq_items q = x # xs"
  shows "\<exists>q'. srsw_queue_pop q = Inr (x, q') \<and> sq_inv q' \<and> sq_items q' = xs \<and>
     sq_capacity q' = sq_capacity q \<and> sq_notified q' = sq_notified q"
proof -
  let ?n = "unat (sq_max_size q)" and ?a = "unat (sq_pop_offset q)" and ?b = "unat (sq_push_offset q)"
  note D = sq_invD [OF inv]
  have ne: "sq_pop_offset q \<noteq> sq_push_offset q" using sq_empty_iff [OF inv] it by simp
  obtain c where c: "ring_dist ?n ?a ?b = Suc c"
    using ne ring_dist_0 [OF D(3,2)] by (cases "ring_dist ?n ?a ?b") (auto simp: word_unat_eq_iff)
  have c1: "ring_dist ?n (Suc ?a mod ?n) ?b = c"
    using ring_dist_pop [OF D(3,2)] ne c by (simp add: word_unat_eq_iff)
  have "ring_items (sq_ring_buffer q) ?n ?a (Suc c) =
      sq_ring_buffer q ! ?a # ring_items (sq_ring_buffer q) ?n (Suc ?a mod ?n) c"
    using D(3) ring_items_pop [of ?n "sq_ring_buffer q" ?a c] by simp
  then show ?thesis
    using inv it ne D(2,3,4,6) c c1
    by (auto simp: srsw_queue_pop_def sq_inv_def sq_shape_def sq_abs_defs Let_def word_less_nat_alt)
qed

lemma sq_pop_empty: "\<lbrakk>sq_inv q; sq_items q = []\<rbrakk> \<Longrightarrow> srsw_queue_pop q = Inr (NULL, q)"
  using sq_empty_iff [of q] by (simp add: srsw_queue_pop_def)

interpretation sq: bounded_queue srsw_queue_push srsw_queue_pop sq_items sq_capacity sq_notified sq_inv
  by unfold_locales (fact sq_bounded sq_push_room sq_push_full sq_pop_item sq_pop_empty)+

lemma srsw_queue_size_items: "sq_inv q \<Longrightarrow> unat (srsw_queue_size q) = length (sq_items q)"
  using sq_invD(2,3) [of q] ring_dist_less [OF sq_invD(3,2), of q] unat_less_size [of "sq_max_size q"]
  by (auto simp: srsw_queue_size_def sq_abs_defs ring_dist_def word_le_nat_alt unat_sub
      unat_word_ariths Let_def simp del: unat_less_size)

section \<open>Interleaving of producer and consumer\<close>

text \<open>
  The atomic accesses of \<^verbatim>\<open>queue_push\<close> and \<^verbatim>\<open>queue_pop\<close> one by one. The program counters keep
  the local variables each thread has read so far; between two accesses of one thread the
  other may make any number of its own. \<open>P_Fault\<close> and \<open>C_Fault\<close> are accesses outside the
  ring, \<open>P_Exit\<close> is the failed CHECK on the event descriptor. \<open>cs_pushed\<close> and \<open>cs_popped\<close>
  record the values whose push was published and whose pop was completed.
\<close>

datatype producer_pc =
    P_Idle
  | P_Loaded size_t pointer
  | P_Both size_t size_t pointer
  | P_Wrote size_t pointer
  | P_Stored
  | P_Fault
  | P_Exit

datatype consumer_pc =
    C_Idle
  | C_Loaded size_t
  | C_Both size_t size_t
  | C_Read size_t pointer
  | C_Fault

record conc_state =
  cs_queue :: SrswQueue
  cs_producer :: producer_pc
  cs_consumer :: consumer_pc
  cs_pushed :: "pointer list"
  cs_popped :: "pointer list"

inductive push_step :: "conc_state \<Rightarrow> conc_state \<Rightarrow> bool" where
  load_push: "cs_producer s = P_Idle \<Longrightarrow>
     push_step s (s\<lparr>cs_producer := P_Loaded (sq_push_offset (cs_queue s)) p\<rparr>)"
| load_pop: "cs_producer s = P_Loaded i p \<Longrightarrow>
     push_step s (s\<lparr>cs_producer := P_Both i (sq_pop_offset (cs_queue s)) p\<rparr>)"
| full: "\<lbrakk>cs_producer s = P_Both i j p; (i + 1) AND sq_mask (cs_queue s) = j\<rbrakk> \<Longrightarrow>
     push_step s (s\<lparr>cs_producer := P_Idle\<rparr>)"
| write_slot: "\<lbrakk>cs_producer s = P_Both i j p; (i + 1) AND sq_mask (cs_queue s) \<noteq> j;
       unat i < length (sq_ring_buffer (cs_queue s))\<rbrakk> \<Longrightarrow>
     push_step s (s\<lparr>cs_queue := (cs_queue s)\<lparr>sq_ring_buffer := (sq_ring_buffer (cs_queue s))[unat i := p]\<rparr>,
       cs_producer := P_Wrote i p\<rparr>)"
| write_outside: "\<lbrakk>cs_producer s = P_Both i j p; (i + 1) AND sq_mask (cs_queue s) \<noteq> j;
       \<not> unat i < length (sq_ring_buffer (cs_queue s))\<rbrakk> \<Longrightarrow>
     push_step s (s\<lparr>cs_producer := P_Fault\<rparr>)"
| store_push: "cs_producer s = P_Wrote i p \<Longrightarrow>
     push_step s (s\<lparr>cs_queue := (cs_queue s)\<lparr>sq_push_offset := (i + 1) AND sq_mask (cs_queue s)\<rparr>,
       cs_producer := P_Stored, cs_pushed := cs_pushed s @ [p]\<rparr>)"
| notify: "\<lbrakk>cs_producer s = P_Stored; eventfd_write (sq_add_event (cs_queue s)) 1 = (r, ev)\<rbrakk> \<Longrightarrow>
     push_step s (s\<lparr>cs_queue := (cs_queue s)\<lparr>sq_add_event := ev\<rparr>,
       cs_producer := (if r \<noteq> 0 then P_Exit else P_Idle)\<rparr>)"

inductive pop_step :: "conc_state \<Rightarrow> conc_state \<Rightarrow> bool" where
  pop_load_pop: "cs_consumer s = C_Idle \<Longrightarrow>
     pop_step s (s\<lparr>cs_consumer := C_Loaded (sq_pop_offset (cs_queue s))\<rparr>)"
| pop_load_push: "cs_consumer s = C_Loaded j \<Longrightarrow>
     pop_step s (s\<lparr>cs_consumer := C_Both j (sq_push_offset (cs_queue s))\<rparr>)"
| pop_none: "\<lbrakk>cs_consumer s = C_Both j i; j = i\<rbrakk> \<Longrightarrow> pop_step s (s\<lparr>cs_consumer := C_Idle\<rparr>)"
| read_slot: "\<lbrakk>cs_consumer s = C_Both j i; j \<noteq> i; unat j < length (sq_ring_buffer (cs_queue s))\<rbrakk> \<Longrightarrow>
     pop_step s (s\<lparr>cs_consumer := C_Read j (sq_ring_buffer (cs_queue s) ! unat j)\<rparr>)"
| read_outside: "\<lbrakk>cs_consumer s = C_Both j i; j \<noteq> i; \<not> unat j < length (sq_ring_buffer (cs_queue s))\<rbrakk> \<Longrightarrow>
     pop_step s (s\<lparr>cs_consumer := C_Fault\<rparr>)"
| store_pop: "cs_consumer s = C_Read j p \<Longrightarrow>
     pop_step s (s\<lparr>cs_queue := (cs_queue s)\<lparr>sq_pop_offset := (j + 1) AND sq_mask (cs_queue s)\<rparr>,
       cs_consumer := C_Idle, cs_popped := cs_popped s @ [p]\<rparr>)"

definition conc_start :: "SrswQueue \<Rightarrow> conc_state" where
  "conc_start q = \<lparr>cs_queue = q, cs_producer = P_Idle, cs_consumer = C_Idle, cs_pushed = [], cs_popped = []\<rparr>"

inductive conc_reachable :: "SrswQueue \<Rightarrow> conc_state \<Rightarrow> bool" for q where
  conc_init: "conc_reachable q (conc_start q)"
| conc_push: "\<lbrakk>conc_reachable q s; push_step s s'\<rbrakk> \<Longrightarrow> conc_reachable q s'"
| conc_pop: "\<lbrakk>conc_reachable q s; pop_step s s'\<rbrakk> \<Longrightarrow> conc_reachable q s'"

text \<open>
  The invariant: what each thread remembers is the truth or lags behind it in the safe
  direction. The producer's copy of the pop offset can only make the ring look fuller, the
  consumer's copy of the push offset can only make it look emptier.
\<close>

abbreviation "rd q a b \<equiv> ring_dist (unat (sq_max_size q)) (unat a) (unat b)"

definition producer_ok :: "SrswQueue \<Rightarrow> producer_pc \<Rightarrow> bool" where
  "producer_ok q pc = (case pc of
     P_Loaded i p \<Rightarrow> i = sq_push_offset q
   | P_Both i j p \<Rightarrow> i = sq_push_offset q \<and> j < sq_max_size q \<and> rd q (sq_pop_offset q) i \<le> rd q j i
   | P_Wrote i p \<Rightarrow> i = sq_push_offset q \<and> Suc (sq_count q) < unat (sq_max_size q) \<and>
       sq_ring_buffer q ! unat i = p
   | P_Fault \<Rightarrow> False
   | _ \<Rightarrow> True)"

definition consumer_ok :: "SrswQueue \<Rightarrow> consumer_pc \<Rightarrow> bool" where
  "consumer_ok q pc = (case pc of
     C_Loaded j \<Rightarrow> j = sq_pop_offset q
   | C_Both j i \<Rightarrow> j = sq_pop_offset q \<and> i < sq_max_size q \<and> rd q j i \<le> rd q j (sq_push_offset q)
   | C_Read j p \<Rightarrow> j = sq_pop_offset q \<and> 0 < sq_count q \<and> sq_ring_buffer q ! unat j = p
   | C_Fault \<Rightarrow> False
   | _ \<Rightarrow> True)"

definition conc_inv :: "conc_state \<Rightarrow> bool" where
  "conc_inv s \<longleftrightarrow> sq_inv (cs_queue s) \<and> cs_pushed s = cs_popped s @ sq_items (cs_queue s) \<and>
     producer_ok (cs_queue s) (cs_producer s) \<and> consumer_ok (cs_queue s) (cs_consumer s)"

lemma items_write_slot:
  assumes "sq_inv q" and "Suc (sq_count q) < unat (sq_max_size q)"
  shows "sq_items (q\<lparr>sq_ring_buffer := (sq_ring_buffer q)[unat (sq_push_offset q) := p]\<rparr>) = sq_items q"
proof -
  let ?n = "unat (sq_max_size q)" and ?a = "unat (sq_pop_offset q)" and ?b = "unat (sq_push_offset q)"
  have "(?a + k) mod ?n \<noteq> ?b" if "k < sq_count q" for k
    using ring_slot_distinct [OF that, of ?n ?a] ring_dist_add [OF sq_invD(3,2), of q] assms
    by (simp add: sq_count_def)
  then show ?thesis by (auto simp: sq_items_def sq_count_def ring_items_def
      intro!: nth_list_update_neq [OF not_sym])
qed

lemma items_store_push:
  assumes "sq_inv q" and "Suc (sq_count q) < unat (sq_max_size q)"
    and "sq_ring_buffer q ! unat (sq_push_offset q) = p"
  shows "sq_inv (q\<lparr>sq_push_offset := (sq_push_offset q + 1) AND sq_mask q\<rparr>) \<and>
     sq_count (q\<lparr>sq_push_offset := (sq_push_offset q + 1) AND sq_mask q\<rparr>) = Suc (sq_count q) \<and>
     sq_items (q\<lparr>sq_push_offset := (sq_push_offset q + 1) AND sq_mask q\<rparr>) = sq_items q @ [p]"
proof -
  note D = sq_invD [OF assms(1)]
  let ?n = "unat (sq_max_size q)" and ?a = "unat (sq_pop_offset q)" and ?b = "unat (sq_push_offset q)"
  have c: "ring_dist ?n ?a (Suc ?b mod ?n) = Suc (ring_dist ?n ?a ?b)"
    using ring_dist_push [OF D(3,2)] assms(2) by (simp add: sq_count_def)
  have "ring_items ((sq_ring_buffer q)[?b := p]) ?n ?a (Suc (sq_count q)) =
      ring_items (sq_ring_buffer q) ?n ?a (sq_count q) @ [p]"
    using assms(2) D(4) ring_dist_add [OF D(3,2)] by (intro ring_items_push) (simp_all add: sq_count_def)
  moreover have "(sq_ring_buffer q)[?b := p] = sq_ring_buffer q"
    using assms(3) by (metis list_update_id)
  ultimately show ?thesis
    using assms(1) D(2,3,5) c by (simp add: sq_inv_def sq_shape_def sq_items_def sq_count_def word_less_nat_alt)
qed

lemma items_store_pop:
  assumes "sq_inv q" and "0 < sq_count q" and "sq_ring_buffer q ! unat (sq_pop_offset q) = p"
  shows "sq_inv (q\<lparr>sq_pop_offset := (sq_pop_offset q + 1) AND sq_mask q\<rparr>) \<and>
     sq_count (q\<lparr>sq_pop_offset := (sq_pop_offset q + 1) AND sq_mask q\<rparr>) = sq_count q - 1 \<and>
     sq_items q = p # sq_items (q\<lparr>sq_pop_offset := (sq_pop_offset q + 1) AND sq_mask q\<rparr>)"
proof -
  have ne: "sq_items q \<noteq> []" using assms(2) by (simp add: sq_items_def flip: length_0_conv)
  then obtain x xs where it: "sq_items q = x # xs" by (cases "sq_items q") auto
  have "sq_pop_offset q \<noteq> sq_push_offset q" using sq_empty_iff [OF assms(1)] ne by simp
  then have pop: "srsw_queue_pop q = Inr (p, q\<lparr>sq_pop_offset := (sq_pop_offset q + 1) AND sq_mask q\<rparr>)"
    using sq_invD(3,4) [OF assms(1)] assms(3) by (simp add: srsw_queue_pop_def)
  from sq_pop_item [OF assms(1) it] pop it show ?thesis
    by (auto simp: sq_items_def dest!: arg_cong [of _ _ length])
qed

lemma producer_room:
  assumes "sq_inv q" and "producer_ok q (P_Both i j p)" and "(i + 1) AND sq_mask q \<noteq> j"
  shows "i = sq_push_offset q" "Suc (sq_count q) < unat (sq_max_size q)" "unat i < length (sq_ring_buffer q)"
proof -
  note D = sq_invD [OF assms(1)]
  show i: "i = sq_push_offset q" using assms(2) by (simp add: producer_ok_def)
  have j: "unat j < unat (sq_max_size q)" "sq_count q \<le> rd q j i"
    using assms(2) by (auto simp: producer_ok_def sq_count_def word_less_nat_alt)
  have "Suc (rd q j i) \<noteq> unat (sq_max_size q)"
    using ring_dist_full [OF j(1) D(2)] assms(3) i D(5) by (auto simp: word_unat_eq_iff)
  moreover have "rd q j i < unat (sq_max_size q)" using ring_dist_less [OF j(1) D(2)] i by simp
  ultimately show "Suc (sq_count q) < unat (sq_max_size q)" using j(2) by simp
  show "unat i < length (sq_ring_buffer q)" using D(2,4) i by simp
qed

lemma consumer_item:
  assumes "sq_inv q" and "consumer_ok q (C_Both j i)" and "j \<noteq> i"
  shows "j = sq_pop_offset q" "0 < sq_count q" "unat j < length (sq_ring_buffer q)"
proof -
  note D = sq_invD [OF assms(1)]
  show j: "j = sq_pop_offset q" using assms(2) by (simp add: consumer_ok_def)
  have i: "unat i < unat (sq_max_size q)" "rd q j i \<le> sq_count q"
    using assms(2) by (auto simp: consumer_ok_def sq_count_def word_less_nat_alt)
  have "rd q j i \<noteq> 0" using ring_dist_0 [OF D(3) i(1)] j assms(3) by (simp add: word_unat_eq_iff)
  then show "0 < sq_count q" using i(2) by simp
  show "unat j < length (sq_ring_buffer q)" using D(3,4) j by simp
qed

lemma conc_inv_push:
  assumes "push_step s s'" and "conc_inv s"
  shows "conc_inv s'"
  using assms
proof (induction rule: push_step.induct)
  case (load_push s p)
  then show ?case by (simp add: conc_inv_def producer_ok_def)
next
  case (load_pop s i p)
  then show ?case by (simp add: conc_inv_def producer_ok_def sq_inv_def)
next
  case (full s i j p)
  then show ?case by (simp add: conc_inv_def producer_ok_def)
next
  case (write_slot s i j p)
  let ?q = "cs_queue s"
  have inv: "sq_inv ?q" "producer_ok ?q (P_Both i j p)" using write_slot by (simp_all add: conc_inv_def)
  note room = producer_room [OF inv write_slot(2)]
  have "unat (sq_pop_offset ?q) \<noteq> unat (sq_push_offset ?q)" if "0 < sq_count ?q"
    using that by (auto simp: sq_count_def ring_dist_def)
  then show ?case
    using write_slot.prems room items_write_slot [OF inv(1) room(2), of p]
    by (auto simp: conc_inv_def producer_ok_def consumer_ok_def sq_inv_def sq_shape_def sq_count_def
        split: consumer_pc.splits)
next
  case (write_outside s i j p)
  then have "unat i < length (sq_ring_buffer (cs_queue s))"
    by (intro producer_room(3) [of "cs_queue s" i j p]) (simp_all add: conc_inv_def)
  with write_outside show ?case by simp
next
  case (store_push s i p)
  let ?q = "cs_queue s"
  have ok: "sq_inv ?q" "i = sq_push_offset ?q" "Suc (sq_count ?q) < unat (sq_max_size ?q)"
    "sq_ring_buffer ?q ! unat (sq_push_offset ?q) = p"
    using store_push by (auto simp: conc_inv_def producer_ok_def)
  note st = items_store_push [OF ok(1,3,4)]
  have "consumer_ok (?q\<lparr>sq_push_offset := (i + 1) AND sq_mask ?q\<rparr>) (cs_consumer s)"
    using store_push(2) st ok(2)
    by (auto simp: conc_inv_def consumer_ok_def sq_count_def split: consumer_pc.splits)
  then show ?case
    using store_push(2) st ok(2) by (simp add: conc_inv_def producer_ok_def)
next
  case (notify s r ev)
  then show ?case
    by (auto simp: conc_inv_def producer_ok_def consumer_ok_def sq_inv_def sq_shape_def sq_items_def sq_count_def
        split: consumer_pc.splits)
qed

lemma conc_inv_pop:
  assumes "pop_step s s'" and "conc_inv s"
  shows "conc_inv s'"
  using assms
proof (induction rule: pop_step.induct)
  case (pop_load_pop s)
  then show ?case by (simp add: conc_inv_def consumer_ok_def)
next
  case (pop_load_push s j)
  then show ?case by (simp add: conc_inv_def consumer_ok_def sq_inv_def)
next
  case (pop_none s j i)
  then show ?case by (simp add: conc_inv_def consumer_ok_def)
next
  case (read_slot s j i)
  then have "sq_inv (cs_queue s)" "consumer_ok (cs_queue s) (C_Both j i)" by (simp_all add: conc_inv_def)
  from consumer_item [OF this read_slot(2)] show ?case
    using read_slot.prems by (simp add: conc_inv_def consumer_ok_def)
next
  case (read_outside s j i)
  then have "unat j < length (sq_ring_buffer (cs_queue s))"
    by (intro consumer_item(3) [of "cs_queue s" j i]) (simp_all add: conc_inv_def)
  with read_outside show ?case by simp
next
  case (store_pop s j p)
  let ?q = "cs_queue s" and ?q' = "(cs_queue s)\<lparr>sq_pop_offset := (j + 1) AND sq_mask (cs_queue s)\<rparr>"
  have ok: "sq_inv ?q" "j = sq_pop_offset ?q" "0 < sq_count ?q" "sq_ring_buffer ?q ! unat (sq_pop_offset ?q) = p"
    using store_pop by (auto simp: conc_inv_def consumer_ok_def)
  note st = items_store_pop [OF ok(1,3,4)]
  have "producer_ok ?q' (cs_producer s)"
    using store_pop(2) st ok(2)
    by (auto simp: conc_inv_def producer_ok_def sq_count_def split: producer_pc.splits)
  then show ?case
    using store_pop(2) st ok(2) by (simp add: conc_inv_def consumer_ok_def)
qed

lemma conc_inv_reachable:
  assumes "conc_reachable q s" and "sq_inv q" and "sq_items q = []"
  shows "conc_inv s"
  using assms
  by (induction rule: conc_reachable.induct)
    (auto simp: conc_start_def conc_inv_def producer_ok_def consumer_ok_def dest: conc_inv_push conc_inv_pop)

section \<open>Properties\<close>

text \<open>
  For a requested size from 1 to \<open>2^32\<close>, the rounded size is the least power
  of two that is not below it.
\<close>

lemma pow_2_size_least:
  assumes "0 < v" and "unat v \<le> 2 ^ 32"
  shows "\<exists>k\<le>32. pow_2_size v = 2 ^ k \<and> unat v \<le> 2 ^ k \<and> (\<forall>j. unat v \<le> 2 ^ j \<longrightarrow> k \<le> j)"
proof -
  obtain k where k: "k \<le> 32" "pow_2_size v = 2 ^ k" "unat v \<le> 2 ^ k" "k = 0 \<or> 2 ^ (k - 1) < unat v"
    using pow_2_size_power [of v] assms by auto
  have "k \<le> j" if "unat v \<le> 2 ^ j" for j
  proof (rule ccontr)
    assume "\<not> k \<le> j"
    then have "(2::nat) ^ j \<le> 2 ^ (k - 1)" by (intro power_increasing) auto
    with k(4) that \<open>\<not> k \<le> j\<close> show False by (metis le0 not_le order_trans)
  qed
  with k show ?thesis by blast
qed

lemma pow_2_size_least_example:
  "unat (1000 :: size_t) \<le> 2 ^ 32 \<and> pow_2_size 1000 = 2 ^ 10 \<and>
   (\<exists>k\<le>32. pow_2_size 1000 = 2 ^ k \<and> unat (1000 :: size_t) \<le> 2 ^ k \<and> (\<forall>j. unat (1000 :: size_t) \<le> 2 ^ j \<longrightarrow> k \<le> j))"
proof -
  have "pow_2_size 1000 = 2 ^ 10" by code_simp
  then show ?thesis using pow_2_size_least [of 1000] by simp
qed

text \<open>Above that the missing shift by 32 shows: the result is no power of two, so the mask has holes.\<close>

lemma pow_2_size_large: "pow_2_size 0x10000000001 = 0x1FFFFFFFE01"
  by code_simp

text \<open>
  Property C19: run by one thread on a ring with a slot for each of the \<open>max_size\<close> offsets,
  the masked ring is a FIFO list of at most \<open>max_size - 1\<close> items, and \<^verbatim>\<open>queue_size\<close> is the
  number of items in it.
\<close>

theorem srsw_queue_refines_fifo:
  assumes "sq_inv q" and "sq_notified q + count_pushes ops \<le> unat EVENTFD_MAX"
  shows "\<exists>outs q'. queue_run srsw_queue_push srsw_queue_pop q ops = Inr (outs, q') \<and>
     fifo_run (unat (sq_max_size q) - 1) (sq_items q) ops = (outs, sq_items q') \<and>
     unat (srsw_queue_size q') = length (sq_items q')"
  using sq.run_refines [OF assms] srsw_queue_size_items by (fastforce simp: sq_capacity_def)

definition sq_sample :: SrswQueue where
  "sq_sample = \<lparr>sq_max_size = 4, sq_mask = 3, sq_push_offset = 3, sq_pop_offset = 3,
     sq_ring_buffer = [0, 0, 0, 0], sq_add_event = 0\<rparr>"

lemma slot_3: "[0, 0, 0, 0 :: pointer][3 := 5] = [0, 0, 0, 5]"
  by code_simp

lemma sq_sample_inv: "sq_inv sq_sample" "sq_items sq_sample = []" "sq_notified sq_sample = 0"
  by (auto simp: sq_sample_def sq_inv_def sq_shape_def sq_items_def sq_count_def sq_notified_def
      ring_dist_def intro!: exI [of _ 2])

theorem srsw_queue_refines_fifo_witness:
  "sq_inv sq_sample \<and>
   (\<exists>q'. queue_run srsw_queue_push srsw_queue_pop sq_sample [Push 5, Push 6, Push 7, Push 8, Pop, Push 9, Pop] =
      Inr ([Pushed QUEUE_SUCCESS, Pushed QUEUE_SUCCESS, Pushed QUEUE_SUCCESS, Pushed QUEUE_FAILURE,
            Popped 5, Pushed QUEUE_SUCCESS, Popped 6], q') \<and>
      unat (srsw_queue_size q') = 2)"
proof -
  let ?ops = "[Push 5, Push 6, Push 7, Push 8, Pop, Push 9, Pop]"
  have ev: "sq_notified sq_sample + count_pushes ?ops \<le> unat EVENTFD_MAX"
    by (simp add: sq_sample_inv count_pushes_def EVENTFD_MAX_def)
  have m: "unat (sq_max_size sq_sample) - 1 = 3" by (simp add: sq_sample_def)
  obtain outs q' where r: "queue_run srsw_queue_push srsw_queue_pop sq_sample ?ops = Inr (outs, q')"
    "fifo_run 3 [] ?ops = (outs, sq_items q')" "unat (srsw_queue_size q') = length (sq_items q')"
    using srsw_queue_refines_fifo [OF sq_sample_inv(1) ev] unfolding sq_sample_inv m by blast
  from r(2) have "outs = [Pushed QUEUE_SUCCESS, Pushed QUEUE_SUCCESS, Pushed QUEUE_SUCCESS, Pushed QUEUE_FAILURE,
            Popped 5, Pushed QUEUE_SUCCESS, Popped 6]" "sq_items q' = [7, 9]" by simp_all
  with r sq_sample_inv show ?thesis by auto
qed


text \<open>
  A run of two pushes and the beginning of a pop on the sample queue: the first item is
  published while the consumer already reads, and both threads stand before their slots.
\<close>

definition sq_published :: SrswQueue where
  "sq_published = sq_sample\<lparr>sq_push_offset := 0, sq_ring_buffer := [0, 0, 0, 5], sq_add_event := 1\<rparr>"

definition conc_sample :: conc_state where
  "conc_sample = \<lparr>cs_queue = sq_published, cs_producer = P_Both 0 3 6, cs_consumer = C_Both 3 0,
     cs_pushed = [5], cs_popped = []\<rparr>"

lemma conc_sample_reachable: "conc_reachable sq_sample conc_sample"
proof -
  let ?s = "conc_start sq_sample"
  note d = conc_start_def sq_sample_def
  have "conc_reachable sq_sample (?s\<lparr>cs_producer := P_Loaded 3 5\<rparr>)"
    using conc_push [OF conc_init load_push, of sq_sample 5] by (simp add: d)
  from conc_push [OF this load_pop [of _ 3 5]]
  have "conc_reachable sq_sample (?s\<lparr>cs_producer := P_Both 3 3 5\<rparr>)" by (simp add: d)
  from conc_push [OF this write_slot [of _ 3 3 5]]
  have "conc_reachable sq_sample (?s\<lparr>cs_producer := P_Wrote 3 5, cs_queue := sq_sample\<lparr>sq_ring_buffer := [0, 0, 0, 5]\<rparr>\<rparr>)"
    by (simp add: d slot_3)
  from conc_push [OF this store_push [of _ 3 5]]
  have "conc_reachable sq_sample (?s\<lparr>cs_producer := P_Stored, cs_pushed := [5],
      cs_queue := sq_sample\<lparr>sq_push_offset := 0, sq_ring_buffer := [0, 0, 0, 5]\<rparr>\<rparr>)"
    by (simp add: d)
  from conc_push [OF this notify [of _ 0 1]]
  have "conc_reachable sq_sample (?s\<lparr>cs_pushed := [5], cs_queue := sq_published\<rparr>)"
    using eventfd_write_one [of 0] by (simp add: d sq_published_def EVENTFD_MAX_def)
  from conc_pop [OF this pop_load_pop]
  have "conc_reachable sq_sample (?s\<lparr>cs_pushed := [5], cs_queue := sq_published, cs_consumer := C_Loaded 3\<rparr>)"
    by (simp add: d sq_published_def)
  from conc_push [OF this load_push [of _ 6]]
  have "conc_reachable sq_sample (?s\<lparr>cs_pushed := [5], cs_queue := sq_published, cs_consumer := C_Loaded 3,
      cs_producer := P_Loaded 0 6\<rparr>)"
    by (simp add: d sq_published_def)
  from conc_pop [OF this pop_load_push [of _ 3]]
  have "conc_reachable sq_sample (?s\<lparr>cs_pushed := [5], cs_queue := sq_published, cs_consumer := C_Both 3 0,
      cs_producer := P_Loaded 0 6\<rparr>)"
    by (simp add: d sq_published_def)
  from conc_push [OF this load_pop [of _ 0 6]]
  show ?thesis by (simp add: d sq_published_def conc_sample_def)
qed




lemma srsw_push_overflow:
  assumes "sq_mask q = 2 ^ k - 1" and "0 < k" and "k \<le> 32" and "sq_pop_offset q = 0"
    and "length (sq_ring_buffer q) = 2 ^ k div 8"
    and "unat (sq_push_offset q) + length ps > 2 ^ k div 8" and "unat (sq_push_offset q) \<le> 2 ^ k div 8"
    and "sq_add_event q = sq_push_offset q"
  shows "queue_run srsw_queue_push srsw_queue_pop q (map Push ps) = Inl Out_Of_Bounds"
  using assms
proof (induction ps arbitrary: q)
  case (Cons p ps)
  let ?i = "sq_push_offset q"
  have i: "unat ?i < 2 ^ k - 1" "(2::nat) ^ k \<le> 2 ^ 32"
  proof -
    have "(2::nat) ^ 1 \<le> 2 ^ k" using Cons.prems(2) by (intro power_increasing) auto
    then show "unat ?i < 2 ^ k - 1" using Cons.prems(7) by auto
    show "(2::nat) ^ k \<le> 2 ^ 32" using Cons.prems(3) by (intro power_increasing) auto
  qed
  have i1: "unat (?i + 1) = Suc (unat ?i)" using unat_add_of_nat [of ?i 1] i by simp
  have "unat ((?i + 1) AND sq_mask q) = Suc (unat ?i)"
    using i1 i Cons.prems(1,3)
    by (simp add: take_bit_eq_mod unat_mod_distrib unat_pow2 flip: mask_eq_exp_minus_1 take_bit_eq_mask)
  then have nxt: "(?i + 1) AND sq_mask q = ?i + 1" "?i + 1 \<noteq> 0"
    using i1 by (auto simp: word_unat_eq_iff)
  have ev: "eventfd_write (sq_add_event q) 1 = (0, ?i + 1)"
    using Cons.prems(8) i eventfd_write_one [of ?i] by (simp add: EVENTFD_MAX_def)
  show ?case
  proof (cases "unat ?i < 2 ^ k div 8")
    case True
    let ?q' = "q\<lparr>sq_ring_buffer := (sq_ring_buffer q)[unat ?i := p], sq_push_offset := ?i + 1, sq_add_event := ?i + 1\<rparr>"
    have "srsw_queue_push q p = Inr (QUEUE_SUCCESS, ?q')"
      using True Cons.prems(4,5) nxt ev by (simp add: srsw_queue_push_def Let_def)
    moreover have "queue_run srsw_queue_push srsw_queue_pop ?q' (map Push ps) = Inl Out_Of_Bounds"
      using True Cons.prems i1 by (intro Cons.IH) simp_all
    ultimately show ?thesis by simp
  next
    case False
    then show ?thesis using Cons.prems nxt by (simp add: srsw_queue_push_def)
  qed
qed simp



end
