(* ===== verification/Log_Lines.thy ===== *)
theory Log_Lines
  imports Request_Context Srsw_Queue
begin

text \<open>
  What the program prints: the macros of src/logging.h, \<^verbatim>\<open>http_request_print\<close> of src/http_request.c,
  \<^verbatim>\<open>context_print_finish\<close> of src/request_context.c and \<^verbatim>\<open>queue_print\<close> of src/srsw_queue.c. A line is the
  bytes that go to the standard error stream. The name of the thread and of the source file are those
  of the place of the call, \<^verbatim>\<open>strerror\<close> is an argument.
\<close>

section \<open>The macros\<close>

definition ansi :: "string \<Rightarrow> byte list" where
  "ansi code = 27 # ascii code"

definition ANSI_COLOR_RESET :: "byte list" where "ANSI_COLOR_RESET = ansi ''[0m''"
definition DEBUG_COLOR :: "byte list" where "DEBUG_COLOR = ansi ''[36m''"
definition INFO_COLOR :: "byte list" where "INFO_COLOR = ansi ''[32m''"
definition WARN_COLOR :: "byte list" where "WARN_COLOR = ansi ''[33m''"
definition ERROR_COLOR :: "byte list" where "ERROR_COLOR = ansi ''[31m''"
definition FATAL_COLOR :: "byte list" where "FATAL_COLOR = ansi ''[1;31m''"

record log_site =
  ls_thread :: "byte list"
  ls_file :: "byte list"
  ls_line :: nat

definition log_prefix :: "log_site \<Rightarrow> string \<Rightarrow> byte list \<Rightarrow> byte list" where
  "log_prefix site level_name level_color =
     ascii ''['' @ level_color @ ascii level_name @ ANSI_COLOR_RESET @ ascii ''] ['' @ ls_thread site @ ascii ''] ('' @
     ls_file site @ ascii '':'' @ format_d (int (ls_line site)) @ ascii '') ''"

definition LOG :: "log_site \<Rightarrow> string \<Rightarrow> byte list \<Rightarrow> byte list \<Rightarrow> byte list" where
  "LOG site level_name level_color M = log_prefix site level_name level_color @ M @ [10]"

text \<open>\<^verbatim>\<open>CLEAN_ERRNO\<close> is only reached with an error number other than zero.\<close>

definition CLEAN_ERRNO :: "(int \<Rightarrow> byte list) \<Rightarrow> int \<Rightarrow> byte list" where
  "CLEAN_ERRNO strerror errno = (if errno = 0 then ascii ''None'' else strerror errno)"

definition ERR_LOG :: "(int \<Rightarrow> byte list) \<Rightarrow> int \<Rightarrow> log_site \<Rightarrow> string \<Rightarrow> byte list \<Rightarrow> byte list \<Rightarrow> byte list" where
  "ERR_LOG strerror errno site level_name level_color M =
     (if errno = 0 then log_prefix site level_name level_color @ M @ [10]
      else log_prefix site level_name level_color @ ascii ''(errno: '' @ format_d errno @ ascii '' '' @
        CLEAN_ERRNO strerror errno @ ascii '') '' @ M @ [10])"

definition LOG_INFO :: "log_site \<Rightarrow> byte list \<Rightarrow> byte list" where
  "LOG_INFO site M = LOG site ''INFO '' INFO_COLOR M"

definition LOG_DEBUG :: "log_site \<Rightarrow> byte list \<Rightarrow> byte list" where
  "LOG_DEBUG site M = LOG site ''DEBUG'' DEBUG_COLOR M"

definition LOG_WARN :: "(int \<Rightarrow> byte list) \<Rightarrow> int \<Rightarrow> log_site \<Rightarrow> byte list \<Rightarrow> byte list" where
  "LOG_WARN strerror errno site M = ERR_LOG strerror errno site ''WARN '' WARN_COLOR M"

definition LOG_ERROR :: "(int \<Rightarrow> byte list) \<Rightarrow> int \<Rightarrow> log_site \<Rightarrow> byte list \<Rightarrow> byte list" where
  "LOG_ERROR strerror errno site M = ERR_LOG strerror errno site ''ERROR'' ERROR_COLOR M"

definition LOG_FATAL :: "(int \<Rightarrow> byte list) \<Rightarrow> int \<Rightarrow> log_site \<Rightarrow> byte list \<Rightarrow> byte list" where
  "LOG_FATAL strerror errno site M = ERR_LOG strerror errno site ''FATAL'' FATAL_COLOR M"

section \<open>Requests\<close>

text \<open>
  \<open>site k\<close> is the place of the k-th log call of the function. The conversion \<^verbatim>\<open>%.*s\<close> with \<^verbatim>\<open>(int) len\<close> and a pointer into the buffer. The name of a continued
  header is NULL with length 0; glibc prints \<^verbatim>\<open>(null)\<close> for NULL when the precision leaves room for it.
\<close>

definition format_slice :: "byte list \<Rightarrow> nat option \<Rightarrow> nat \<Rightarrow> byte list res" where
  "format_slice mem p len =
     (case p of
        None \<Rightarrow> Inr (if 0 \<le> to_int32 len \<and> to_int32 len < 6 then [] else ascii ''(null)'')
      | Some i \<Rightarrow> if i \<le> length mem then format_s (of_nat len) (drop i mem) else Inl Out_Of_Bounds)"

fun print_headers_loop :: "(nat \<Rightarrow> log_site) \<Rightarrow> byte list \<Rightarrow> phr_header list \<Rightarrow> nat \<Rightarrow> byte list list res" where
  "print_headers_loop site mem headers 0 = Inr []"
| "print_headers_loop site mem [] (Suc n) = Inl Out_Of_Bounds"
| "print_headers_loop site mem (h # headers) (Suc n) =
     bind_res (format_slice mem (hdr_name h) (hdr_name_len h)) (\<lambda>name.
     bind_res (format_slice mem (hdr_value h) (hdr_value_len h)) (\<lambda>val.
     bind_res (print_headers_loop site mem headers n) (\<lambda>rest.
       Inr (LOG_INFO (site 4) ([9] @ name @ ascii '' = '' @ val) # rest))))"

definition http_request_print :: "(nat \<Rightarrow> log_site) \<Rightarrow> byte list \<Rightarrow> HttpRequest \<Rightarrow> byte list list res" where
  "http_request_print site mem rq =
     bind_res (format_slice mem (req_method rq) (req_method_len rq)) (\<lambda>method.
     bind_res (format_slice mem (req_path rq) (req_path_len rq)) (\<lambda>path.
     bind_res (print_headers_loop site mem (req_headers rq) (req_num_headers rq)) (\<lambda>headers.
       Inr ([LOG_INFO (site 0) (ascii ''method  : '' @ method),
             LOG_INFO (site 1) (ascii ''path    : '' @ path),
             LOG_INFO (site 2) (ascii ''version : 1.'' @ format_d (req_minor_version rq)),
             LOG_INFO (site 3) (ascii ''headers :'')] @ headers))))"

section \<open>Contexts and queues\<close>

definition format_zu :: "size_t \<Rightarrow> byte list" where
  "format_zu n = dec (uint n)"

definition context_print_finish :: "log_site \<Rightarrow> RequestContext \<Rightarrow> RequestResult \<Rightarrow> byte list" where
  "context_print_finish site rc result =
     (let micros = \<lambda>t. format_d (per_request_get_time (rc_time_stats rc) t)
      in LOG_DEBUG site ([10] @
           ascii ''Request Stats : result='' @ ascii (request_result_name result) @ ascii '' fd='' @ format_d (rc_fd rc) @
           ascii '' remote_host='' @ ascii (rc_remote_host rc) @ ascii '' actor='' @ format_d (rc_actor_id rc) @
           ascii '' bytes_read='' @ format_zu (ib_offset (rc_input_buffer rc)) @
           ascii '' bytes_written='' @ format_zu (write_into_offset (rc_output_buffer rc)) @ [10] @
           ascii ''Time Stats    : total_micros='' @ micros TOTAL_TIME @
           ascii '' client_read_micros='' @ micros CLIENT_READ_TIME @ ascii '' actor_micros='' @ micros ACTOR_TIME @
           ascii '' client_write_micros='' @ micros CLIENT_WRITE_TIME @ ascii '' queue_micros='' @ micros QUEUE_TIME))"

definition queue_print :: "log_site \<Rightarrow> SrswQueue \<Rightarrow> byte list" where
  "queue_print site q = LOG_INFO site (ascii ''Queue: size='' @ format_zu (srsw_queue_size q))"

section \<open>Printing stays inside the buffer\<close>

text \<open>What of a slice is printed: up to its first NUL byte.\<close>

definition shown :: "byte list \<Rightarrow> nat option \<Rightarrow> nat \<Rightarrow> byte list" where
  "shown mem p len = takeWhile (\<lambda>b. b \<noteq> 0) (bytes_at mem p len)"

lemma takeWhile_take_swap: "takeWhile P (take n xs) = take n (takeWhile P xs)"
  by (induction xs arbitrary: n) (auto simp: take_Cons split: nat.splits)

lemma format_slice_within:
  assumes "within (length mem) p len" and "length mem < 2 ^ 31"
  shows "format_slice mem p len = Inr (shown mem p len)"
proof (cases p)
  case None
  then show ?thesis using assms(1) by (simp add: format_slice_def shown_def within_def bytes_at_def to_int32_def)
next
  case (Some i)
  then have i: "i + len \<le> length mem" using assms(1) by (simp add: within_def)
  then have n: "sint (ucast (of_nat len :: size_t) :: 32 word) = int len"
    using to_int32_small [of len] assms(2) by (simp add: to_int32_def unsigned_of_nat take_bit_nat_eq_self)
  then show ?thesis using Some i by (simp add: format_slice_def format_s_def Let_def shown_def bytes_at_def takeWhile_take_swap)
qed

lemma print_headers_within:
  assumes "\<forall>i<n. hdr_within (length mem) (hs ! i)" and "n \<le> length hs" and "length mem < 2 ^ 31"
  shows "print_headers_loop site mem hs n = Inr (map (\<lambda>h. LOG_INFO (site 4)
     ([9] @ shown mem (hdr_name h) (hdr_name_len h) @ ascii '' = '' @ shown mem (hdr_value h) (hdr_value_len h))) (take n hs))"
  using assms
proof (induction site mem hs n rule: print_headers_loop.induct)
  case (3 site mem h hs n)
  then have "hdr_within (length mem) h" "\<forall>i<n. hdr_within (length mem) (hs ! i)" by (auto simp: nth_Cons split: nat.splits)
  with 3 show ?case by (simp add: hdr_within_def format_slice_within)
qed simp_all

section \<open>Properties\<close>

text \<open>
  Printing a parsed request is safe and complete. When its parts lie inside the input buffer, as
  \<^verbatim>\<open>http_request_parse\<close> leaves them, \<^verbatim>\<open>http_request_print\<close> reads nothing outside the buffer, although no part ends in a NUL byte, and
  prints four lines and one for each header, with the parts cut at their first NUL byte.
\<close>

lemma http_request_print_correct:
  assumes "request_within (length mem) rq" and "length mem < 2 ^ 31"
  shows "http_request_print site mem rq = Inr (
     [LOG_INFO (site 0) (ascii ''method  : '' @ shown mem (req_method rq) (req_method_len rq)),
      LOG_INFO (site 1) (ascii ''path    : '' @ shown mem (req_path rq) (req_path_len rq)),
      LOG_INFO (site 2) (ascii ''version : 1.'' @ format_d (req_minor_version rq)),
      LOG_INFO (site 3) (ascii ''headers :'')] @
     map (\<lambda>h. LOG_INFO (site 4)
       ([9] @ shown mem (hdr_name h) (hdr_name_len h) @ ascii '' = '' @ shown mem (hdr_value h) (hdr_value_len h)))
       (take (req_num_headers rq) (req_headers rq)))"
  using assms print_headers_within [of "req_num_headers rq" mem "req_headers rq" site]
  by (simp add: http_request_print_def request_within_def format_slice_within)

lemma http_request_print_correct_example:
  "\<exists>lines. http_request_print (\<lambda>k. \<lparr>ls_thread = ascii ''app-0'', ls_file = ascii ''http_request.c'', ls_line = 31 + k\<rparr>) (ascii ''GET /x'')
     (zero_request\<lparr>req_method := Some 0, req_method_len := 3, req_path := Some 4, req_path_len := 2\<rparr>) = Inr lines \<and> length lines = 4"
proof -
  let ?rq = "zero_request\<lparr>req_method := Some 0, req_method_len := 3, req_path := Some 4, req_path_len := 2\<rparr>"
  have "request_within (length (ascii ''GET /x'')) ?rq" by (simp add: request_within_def within_def zero_request_def ascii_def)
  from http_request_print_correct [OF this] show ?thesis by (simp add: ascii_def zero_request_def)
qed

end
