(* ===== verification/Lifetimes.thy ===== *)
theory Lifetimes
  imports Posix
begin

text \<open>
  The constructors and destructors of the program as operations on the heap and the table of descriptors:
  \<^verbatim>\<open>input_buffer_init/destroy\<close>, \<^verbatim>\<open>output_buffer_init/destroy\<close>, \<^verbatim>\<open>init_request_context\<close> and
  \<^verbatim>\<open>context_finalize_destroy\<close>, \<^verbatim>\<open>queue_init/destroy\<close> of both queues, \<^verbatim>\<open>epoll_info_init/destroy\<close> and
  \<^verbatim>\<open>server_stats_init/destroy\<close>. The other theories keep the contents of these objects; here an
  object is the addresses it is made of, so that a leak, a double free and a use after free can be
  seen. The locale \<open>resource\<close> is the contract of a constructor and its destructor.
\<close>

section \<open>Heap and descriptors\<close>

record memory =
  mem_blocks :: "pointer set"
  mem_fds :: "int set"

text \<open>The addresses and descriptors the next calls will return; when they run out, the calls fail.\<close>

record stock =
  sp_blocks :: "pointer list"
  sp_fds :: "int list"

definition stock_ok :: "stock \<Rightarrow> memory \<Rightarrow> bool" where
  "stock_ok sp m \<longleftrightarrow> distinct (sp_blocks sp) \<and> NULL \<notin> set (sp_blocks sp) \<and> set (sp_blocks sp) \<inter> mem_blocks m = {} \<and>
     distinct (sp_fds sp) \<and> (\<forall>fd\<in>set (sp_fds sp) \<union> mem_fds m. 0 \<le> fd) \<and> set (sp_fds sp) \<inter> mem_fds m = {}"

definition new_block :: "stock \<Rightarrow> memory \<Rightarrow> (pointer \<times> stock \<times> memory) res" where
  "new_block sp m =
     (case sp_blocks sp of [] \<Rightarrow> Inl OOM
      | p # ps \<Rightarrow> Inr (p, sp\<lparr>sp_blocks := ps\<rparr>, m\<lparr>mem_blocks := insert p (mem_blocks m)\<rparr>))"

definition new_fd :: "stock \<Rightarrow> memory \<Rightarrow> int \<times> stock \<times> memory" where
  "new_fd sp m =
     (case sp_fds sp of [] \<Rightarrow> (- 1, sp, m)
      | fd # fds \<Rightarrow> (fd, sp\<lparr>sp_fds := fds\<rparr>, m\<lparr>mem_fds := insert fd (mem_fds m)\<rparr>))"

definition free :: "pointer \<Rightarrow> memory \<Rightarrow> memory res" where
  "free p m =
     (if p = NULL then Inr m
      else if p \<in> mem_blocks m then Inr (m\<lparr>mem_blocks := mem_blocks m - {p}\<rparr>)
      else Inl Dangling)"

text \<open>\<^verbatim>\<open>p->field\<close>\<close>

definition arrow :: "pointer \<Rightarrow> 'a \<Rightarrow> memory \<Rightarrow> 'a res" where
  "arrow p field m = (if p \<in> mem_blocks m then Inr field else Inl Dangling)"

definition close_desc :: "int \<Rightarrow> memory \<Rightarrow> int \<times> memory" where
  "close_desc fd m = (if fd \<in> mem_fds m then (0, m\<lparr>mem_fds := mem_fds m - {fd}\<rparr>) else (- 1, m))"

text \<open>What an object is made of: blocks and descriptors.\<close>

type_synonym parts = "pointer list \<times> int list"

definition plus_parts :: "parts \<Rightarrow> parts \<Rightarrow> parts" where
  "plus_parts a b = (fst a @ fst b, snd a @ snd b)"

definition holds :: "parts \<Rightarrow> memory \<Rightarrow> bool" where
  "holds a m \<longleftrightarrow> distinct (fst a) \<and> NULL \<notin> set (fst a) \<and> set (fst a) \<subseteq> mem_blocks m \<and>
     distinct (snd a) \<and> set (snd a) \<subseteq> mem_fds m \<and> (\<forall>fd\<in>mem_fds m. 0 \<le> fd)"

definition release :: "parts \<Rightarrow> memory \<Rightarrow> memory" where
  "release a m = m\<lparr>mem_blocks := mem_blocks m - set (fst a), mem_fds := mem_fds m - set (snd a)\<rparr>"

text \<open>The parts \<open>a\<close> are what \<open>m'\<close> has more than \<open>m\<close>.\<close>

definition acquired :: "parts \<Rightarrow> memory \<Rightarrow> memory \<Rightarrow> bool" where
  "acquired a m m' \<longleftrightarrow> holds a m' \<and> release a m' = m"

lemma release_plus: "release (plus_parts a b) m = release b (release a m)" "release (plus_parts a b) m = release a (release b m)"
  by (auto simp: release_def plus_parts_def intro!: memory.equality)

lemma acquired_trans:
  assumes "acquired a m0 m1" and "acquired b m1 m2"
  shows "acquired (plus_parts a b) m0 m2"
proof -
  have m1: "m1 = release b m2" and m0: "m0 = release a (release b m2)" using assms by (simp_all add: acquired_def)
  then have "set (fst a) \<inter> set (fst b) = {}" "set (snd a) \<inter> set (snd b) = {}"
    using assms(1) by (auto simp: acquired_def holds_def release_def)
  then have "holds (plus_parts a b) m2" using assms by (auto simp: acquired_def m1 holds_def release_def plus_parts_def)
  then show ?thesis by (simp add: acquired_def release_plus(2) m0)
qed

lemma holds_plus:
  "holds (plus_parts a b) m \<longleftrightarrow> holds a m \<and> holds b (release a m)"
  by (auto simp: holds_def release_def plus_parts_def)

lemma new_block_acquired:
  "\<lbrakk>new_block sp m = Inr (p, sp', m'); stock_ok sp m\<rbrakk> \<Longrightarrow> acquired ([p], []) m m' \<and> stock_ok sp' m'"
  by (auto simp: new_block_def stock_ok_def acquired_def holds_def release_def split: list.splits)

definition fd_parts :: "int \<Rightarrow> parts" where
  "fd_parts fd = ([], if fd = - 1 then [] else [fd])"

lemma new_fd_acquired:
  "\<lbrakk>new_fd sp m = (fd, sp', m'); stock_ok sp m\<rbrakk> \<Longrightarrow> acquired (fd_parts fd) m m' \<and> stock_ok sp' m'"
  by (auto simp: new_fd_def stock_ok_def acquired_def holds_def release_def fd_parts_def split: list.splits)

lemma free_held: "holds ([p], []) m \<Longrightarrow> free p m = Inr (release ([p], []) m)"
  by (simp add: holds_def free_def release_def)

lemma arrow_held: "p \<in> mem_blocks m \<Longrightarrow> arrow p x m = Inr x"
  by (simp add: arrow_def)

lemma close_held: "holds (fd_parts fd) m \<Longrightarrow> snd (close_desc fd m) = release (fd_parts fd) m \<or> fd = - 1"
  by (auto simp: holds_def close_desc_def release_def fd_parts_def)

section \<open>The contract\<close>

text \<open>
  A constructor acquires exactly the parts of its object. The destructor gives them back, as long as the
  object is \<open>ready\<close>; called on an object that has been freed, it is caught.
\<close>

locale resource =
  fixes create :: "stock \<Rightarrow> memory \<Rightarrow> ('h \<times> stock \<times> memory) res"
    and destroy :: "'h \<Rightarrow> memory \<Rightarrow> memory res"
    and parts :: "'h \<Rightarrow> parts" and self :: "'h \<Rightarrow> pointer" and ready :: "'h \<Rightarrow> bool"
  assumes create_acquires: "\<lbrakk>create sp m = Inr (h, sp', m'); stock_ok sp m\<rbrakk> \<Longrightarrow>
      acquired (parts h) m m' \<and> stock_ok sp' m' \<and> ready h"
    and destroy_releases: "\<lbrakk>holds (parts h) m; ready h\<rbrakk> \<Longrightarrow> destroy h m = Inr (release (parts h) m)"
    and self_part: "self h \<in> set (fst (parts h))"
    and destroy_freed: "\<lbrakk>self h \<noteq> NULL; self h \<notin> mem_blocks m\<rbrakk> \<Longrightarrow> destroy h m = Inl Dangling"
begin

lemma lifetime:
  assumes "create sp m = Inr (h, sp', m')" and "stock_ok sp m"
  shows "destroy h m' = Inr m \<and> destroy h m = Inl Dangling"
proof
  note a = create_acquires [OF assms]
  then have h: "holds (parts h) m'" "release (parts h) m' = m" by (simp_all add: acquired_def)
  then show "destroy h m' = Inr m" using destroy_releases a by metis
  have "self h \<noteq> NULL" "self h \<notin> mem_blocks m" using self_part [of h] h by (auto simp: holds_def release_def)
  then show "destroy h m = Inl Dangling" by (rule destroy_freed)
qed

text \<open>What was acquired in between is not touched.\<close>

lemma lifetime_nested:
  assumes "create sp m = Inr (h, sp', m1)" and "stock_ok sp m" and "acquired b m1 m2"
  shows "\<exists>m3. destroy h m2 = Inr m3 \<and> acquired b m m3"
proof -
  note a = create_acquires [OF assms(1,2)]
  then have "acquired (plus_parts (parts h) b) m m2" using assms(3) acquired_trans by blast
  then have h: "holds (parts h) m2" "acquired b m (release (parts h) m2)"
    by (auto simp: acquired_def holds_plus release_plus(1))
  then show ?thesis using destroy_releases a by blast
qed

end

section \<open>Buffers\<close>

record BufferPtrs =
  bp_self :: pointer
  bp_region :: pointer

definition buffer_parts :: "BufferPtrs \<Rightarrow> parts" where
  "buffer_parts h = ([bp_self h, bp_region h], [])"

definition input_buffer_new :: "stock \<Rightarrow> memory \<Rightarrow> (BufferPtrs \<times> stock \<times> memory) res" where
  "input_buffer_new sp m =
     bind_res (new_block sp m) (\<lambda>(buffer, sp, m).
     bind_res (new_block sp m) (\<lambda>(region, sp, m). Inr (\<lparr>bp_self = buffer, bp_region = region\<rparr>, sp, m)))"

definition input_buffer_destroy :: "BufferPtrs \<Rightarrow> memory \<Rightarrow> memory res" where
  "input_buffer_destroy h m =
     bind_res (arrow (bp_self h) (bp_region h) m) (\<lambda>region.
     bind_res (free region m) (\<lambda>m. free (bp_self h) m))"

definition output_buffer_new :: "stock \<Rightarrow> memory \<Rightarrow> (BufferPtrs \<times> stock \<times> memory) res" where
  "output_buffer_new sp m =
     bind_res (new_block sp m) (\<lambda>(buffer, sp, m).
     bind_res (new_block sp m) (\<lambda>(region, sp, m). Inr (\<lparr>bp_self = buffer, bp_region = region\<rparr>, sp, m)))"

definition output_buffer_destroy :: "BufferPtrs \<Rightarrow> memory \<Rightarrow> memory res" where
  "output_buffer_destroy h m =
     bind_res (arrow (bp_self h) (bp_region h) m) (\<lambda>region.
     bind_res (free region m) (\<lambda>m. free (bp_self h) m))"

lemma two_blocks_acquired:
  assumes "new_block sp m = Inr (p, sp1, m1)" and "new_block sp1 m1 = Inr (q, sp2, m2)" and "stock_ok sp m"
  shows "acquired ([p, q], []) m m2 \<and> stock_ok sp2 m2"
proof -
  have "acquired ([p], []) m m1" "stock_ok sp1 m1" using new_block_acquired [OF assms(1,3)] by simp_all
  with new_block_acquired [OF assms(2)] acquired_trans [of "([p], [])" m m1 "([q], [])" m2] show ?thesis
    by (simp add: plus_parts_def)
qed

lemma free_two: "holds ([p, q], []) m \<Longrightarrow> bind_res (free q m) (free p) = Inr (release ([p, q], []) m)"
  by (auto simp: holds_def free_def release_def intro!: memory.equality)

lemma holds_member: "\<lbrakk>holds a m; p \<in> set (fst a)\<rbrakk> \<Longrightarrow> p \<in> mem_blocks m"
  by (auto simp: holds_def)

interpretation ibuf: resource input_buffer_new input_buffer_destroy buffer_parts bp_self "\<lambda>_. True"
proof
  show "acquired (buffer_parts h) m m' \<and> stock_ok sp' m' \<and> True"
    if "input_buffer_new sp m = Inr (h, sp', m')" "stock_ok sp m" for sp m h sp' m'
    using that two_blocks_acquired by (fastforce simp: input_buffer_new_def buffer_parts_def res_simps)
  show "input_buffer_destroy h m = Inr (release (buffer_parts h) m)" if "holds (buffer_parts h) m" for h m
    using that free_two holds_member [OF that] by (simp add: input_buffer_destroy_def buffer_parts_def arrow_def)
qed (simp_all add: buffer_parts_def input_buffer_destroy_def arrow_def)

interpretation obuf: resource output_buffer_new output_buffer_destroy buffer_parts bp_self "\<lambda>_. True"
proof
  show "acquired (buffer_parts h) m m' \<and> stock_ok sp' m' \<and> True"
    if "output_buffer_new sp m = Inr (h, sp', m')" "stock_ok sp m" for sp m h sp' m'
    using that two_blocks_acquired by (fastforce simp: output_buffer_new_def buffer_parts_def res_simps)
  show "output_buffer_destroy h m = Inr (release (buffer_parts h) m)" if "holds (buffer_parts h) m" for h m
    using that free_two holds_member [OF that] by (simp add: output_buffer_destroy_def buffer_parts_def arrow_def)
qed (simp_all add: buffer_parts_def output_buffer_destroy_def arrow_def)

section \<open>Statistics, event loops and queues\<close>

definition server_stats_new :: "stock \<Rightarrow> memory \<Rightarrow> (pointer \<times> stock \<times> memory) res" where
  "server_stats_new sp m = new_block sp m"

definition server_stats_destroy :: "pointer \<Rightarrow> memory \<Rightarrow> memory res" where
  "server_stats_destroy stats m = free stats m"

interpretation stt: resource server_stats_new server_stats_destroy "\<lambda>p. ([p], [])" "\<lambda>p. p" "\<lambda>_. True"
  by unfold_locales (auto simp: server_stats_new_def server_stats_destroy_def free_held new_block_acquired, simp add: free_def)

record EpollPtrs =
  ep_self :: pointer
  ep_fd :: int

definition epoll_parts :: "EpollPtrs \<Rightarrow> parts" where
  "epoll_parts h = ([ep_self h], [ep_fd h])"

definition epoll_info_new :: "stock \<Rightarrow> memory \<Rightarrow> (EpollPtrs \<times> stock \<times> memory) res" where
  "epoll_info_new sp m =
     bind_res (new_block sp m) (\<lambda>(epoll_info, sp, m).
       let (fd, sp, m) = new_fd sp m
       in bind_res (CHECK (fd = - 1) ''Failed to create epoll file descriptor'') (\<lambda>_.
            Inr (\<lparr>ep_self = epoll_info, ep_fd = fd\<rparr>, sp, m)))"

definition epoll_info_destroy :: "EpollPtrs \<Rightarrow> memory \<Rightarrow> memory res" where
  "epoll_info_destroy h m =
     bind_res (arrow (ep_self h) (ep_fd h) m) (\<lambda>fd.
       let (_, m) = close_desc fd m in free (ep_self h) m)"

lemma block_fd_acquired:
  assumes "acquired (ps, []) m m1" and "new_fd sp1 m1 = (fd, sp2, m2)" and "stock_ok sp1 m1"
  shows "acquired (ps, snd (fd_parts fd)) m m2 \<and> stock_ok sp2 m2"
  using new_fd_acquired [OF assms(2,3)] acquired_trans [OF assms(1), of "fd_parts fd" m2]
  by (simp add: plus_parts_def fd_parts_def)

interpretation epi: resource epoll_info_new epoll_info_destroy epoll_parts ep_self "\<lambda>_. True"
proof
  show "acquired (epoll_parts h) m m' \<and> stock_ok sp' m' \<and> True"
    if new: "epoll_info_new sp m = Inr (h, sp', m')" and sp: "stock_ok sp m" for sp m h sp' m'
  proof -
    obtain p sp1 m1 fd where p: "new_block sp m = Inr (p, sp1, m1)" "new_fd sp1 m1 = (fd, sp', m')"
        "fd \<noteq> - 1" "h = \<lparr>ep_self = p, ep_fd = fd\<rparr>"
      using new by (auto simp: epoll_info_new_def Let_def res_simps case_prod_beta prod_eq_iff)
    from block_fd_acquired [OF _ p(2), of "[p]" m] new_block_acquired [OF p(1) sp] p(3,4) show ?thesis
      by (simp add: epoll_parts_def fd_parts_def)
  qed
  show "epoll_info_destroy h m = Inr (release (epoll_parts h) m)" if "holds (epoll_parts h) m" for h m
    using that by (auto simp: epoll_info_destroy_def epoll_parts_def arrow_def close_desc_def free_def holds_def release_def
        intro!: memory.equality)
qed (simp_all add: epoll_parts_def epoll_info_destroy_def arrow_def)

record QueuePtrs =
  qp_self :: pointer
  qp_ring :: pointer
  qp_event :: int
  qp_lock :: mutex

definition queue_parts :: "QueuePtrs \<Rightarrow> parts" where
  "queue_parts h = ([qp_self h, qp_ring h], snd (fd_parts (qp_event h)))"

text \<open>The result of \<^verbatim>\<open>pthread_mutex_init\<close> is an argument; that of \<^verbatim>\<open>eventfd\<close> is not tested.\<close>

definition mrmw_queue_new :: "int \<Rightarrow> stock \<Rightarrow> memory \<Rightarrow> (QueuePtrs \<times> stock \<times> memory) res" where
  "mrmw_queue_new r sp m =
     bind_res (new_block sp m) (\<lambda>(queue, sp, m).
     bind_res (new_block sp m) (\<lambda>(ring_buffer, sp, m).
     bind_res (CHECK (r \<noteq> 0) ''Failed to create mutex'') (\<lambda>_.
       let (add_event, sp, m) = new_fd sp m
       in Inr (\<lparr>qp_self = queue, qp_ring = ring_buffer, qp_event = add_event, qp_lock = Unlocked\<rparr>, sp, m))))"

text \<open>Destroying a mutex that is held fails with EBUSY.\<close>

fun pthread_mutex_destroy :: "mutex \<Rightarrow> int" where
  "pthread_mutex_destroy Unlocked = 0"
| "pthread_mutex_destroy Locked = 16"

definition mrmw_queue_destroy :: "QueuePtrs \<Rightarrow> memory \<Rightarrow> memory res" where
  "mrmw_queue_destroy h m =
     bind_res (arrow (qp_self h) (qp_ring h) m) (\<lambda>ring_buffer.
     bind_res (free ring_buffer m) (\<lambda>m.
     bind_res (CHECK (pthread_mutex_destroy (qp_lock h) \<noteq> 0) ''Failed to destory mutex'') (\<lambda>_.
       let (_, m) = close_desc (qp_event h) m in free (qp_self h) m)))"

text \<open>\<^verbatim>\<open>posix_memalign\<close> returns an error code when there is no memory.\<close>

definition srsw_queue_new :: "stock \<Rightarrow> memory \<Rightarrow> (QueuePtrs \<times> stock \<times> memory) res" where
  "srsw_queue_new sp m =
     bind_res (new_block sp m) (\<lambda>(queue, sp, m).
     bind_res (CHECK (sp_blocks sp = []) ''Failed to malloc an aligned memory region'') (\<lambda>_.
     bind_res (new_block sp m) (\<lambda>(ring_buffer, sp, m).
       let (add_event, sp, m) = new_fd sp m
       in Inr (\<lparr>qp_self = queue, qp_ring = ring_buffer, qp_event = add_event, qp_lock = Unlocked\<rparr>, sp, m))))"

definition srsw_queue_destroy :: "QueuePtrs \<Rightarrow> memory \<Rightarrow> memory res" where
  "srsw_queue_destroy h m =
     bind_res (arrow (qp_self h) (qp_ring h) m) (\<lambda>ring_buffer.
     bind_res (free ring_buffer m) (\<lambda>m.
       let (_, m) = close_desc (qp_event h) m in free (qp_self h) m))"

lemma queue_acquired:
  assumes "new_block sp m = Inr (p, sp1, m1)" and "new_block sp1 m1 = Inr (q, sp2, m2)" and "new_fd sp2 m2 = (fd, sp3, m3)"
    and "stock_ok sp m"
  shows "acquired (queue_parts \<lparr>qp_self = p, qp_ring = q, qp_event = fd, qp_lock = l\<rparr>) m m3 \<and> stock_ok sp3 m3"
  using two_blocks_acquired [OF assms(1,2,4)] block_fd_acquired [OF _ assms(3), of "[p, q]" m] by (simp add: queue_parts_def)

text \<open>Closing the descriptor \<open>-1\<close> of a queue without an event counter fails and changes nothing.\<close>

lemma free_close_free:
  assumes "holds (queue_parts h) m"
  shows "bind_res (free (qp_ring h) m) (\<lambda>m. let (_, m) = close_desc (qp_event h) m in free (qp_self h) m) =
     Inr (release (queue_parts h) m)"
  using assms
  by (auto simp: queue_parts_def fd_parts_def close_desc_def free_def holds_def release_def intro!: memory.equality split: if_splits)

interpretation mrq: resource "mrmw_queue_new r" mrmw_queue_destroy queue_parts qp_self "\<lambda>h. qp_lock h = Unlocked"
proof
  show "acquired (queue_parts h) m m' \<and> stock_ok sp' m' \<and> qp_lock h = Unlocked"
    if new: "mrmw_queue_new r sp m = Inr (h, sp', m')" and sp: "stock_ok sp m" for sp m h sp' m'
  proof -
    obtain p q sp1 m1 sp2 m2 fd where p: "new_block sp m = Inr (p, sp1, m1)" "new_block sp1 m1 = Inr (q, sp2, m2)"
        "new_fd sp2 m2 = (fd, sp', m')" "h = \<lparr>qp_self = p, qp_ring = q, qp_event = fd, qp_lock = Unlocked\<rparr>"
      using new by (auto simp: mrmw_queue_new_def Let_def res_simps case_prod_beta prod_eq_iff)
    from queue_acquired [OF p(1-3) sp] show ?thesis unfolding p(4) by simp
  qed
  show "mrmw_queue_destroy h m = Inr (release (queue_parts h) m)" if "holds (queue_parts h) m" "qp_lock h = Unlocked" for h m
    using free_close_free [OF that(1)] holds_member [OF that(1), of "qp_self h"] that(2)
    by (simp add: mrmw_queue_destroy_def arrow_def queue_parts_def)
qed (simp_all add: queue_parts_def mrmw_queue_destroy_def arrow_def)

interpretation srq: resource srsw_queue_new srsw_queue_destroy queue_parts qp_self "\<lambda>h. True"
proof
  show "acquired (queue_parts h) m m' \<and> stock_ok sp' m' \<and> True"
    if new: "srsw_queue_new sp m = Inr (h, sp', m')" and sp: "stock_ok sp m" for sp m h sp' m'
  proof -
    obtain p q sp1 m1 sp2 m2 fd where p: "new_block sp m = Inr (p, sp1, m1)" "new_block sp1 m1 = Inr (q, sp2, m2)"
        "new_fd sp2 m2 = (fd, sp', m')" "h = \<lparr>qp_self = p, qp_ring = q, qp_event = fd, qp_lock = Unlocked\<rparr>"
      using new by (auto simp: srsw_queue_new_def Let_def res_simps case_prod_beta prod_eq_iff)
    from queue_acquired [OF p(1-3) sp] show ?thesis unfolding p(4) by simp
  qed
  show "srsw_queue_destroy h m = Inr (release (queue_parts h) m)" if "holds (queue_parts h) m" for h m
    using free_close_free [OF that] holds_member [OF that, of "qp_self h"]
    by (simp add: srsw_queue_destroy_def arrow_def queue_parts_def)
qed (simp_all add: queue_parts_def srsw_queue_destroy_def arrow_def)

section \<open>Connections\<close>

record ContextPtrs =
  cx_self :: pointer
  cx_input :: BufferPtrs
  cx_output :: BufferPtrs
  cx_host :: pointer
  cx_fd :: int

definition request_context_new :: "int \<Rightarrow> pointer \<Rightarrow> stock \<Rightarrow> memory \<Rightarrow> (ContextPtrs \<times> stock \<times> memory) res" where
  "request_context_new fd host_name sp m =
     bind_res (new_block sp m) (\<lambda>(context, sp, m).
     bind_res (input_buffer_new sp m) (\<lambda>(input_buffer, sp, m).
     bind_res (output_buffer_new sp m) (\<lambda>(output_buffer, sp, m).
       Inr (\<lparr>cx_self = context, cx_input = input_buffer, cx_output = output_buffer, cx_host = host_name, cx_fd = fd\<rparr>, sp, m))))"

definition context_destroy :: "ContextPtrs \<Rightarrow> memory \<Rightarrow> memory res" where
  "context_destroy h m =
     bind_res (arrow (cx_self h) (cx_input h) m) (\<lambda>input_buffer.
     bind_res (input_buffer_destroy input_buffer m) (\<lambda>m.
     bind_res (arrow (cx_self h) (cx_output h) m) (\<lambda>output_buffer.
     bind_res (output_buffer_destroy output_buffer m) (\<lambda>m.
     bind_res (arrow (cx_self h) (cx_host h) m) (\<lambda>remote_host.
     bind_res (free remote_host m) (\<lambda>m.
     bind_res (arrow (cx_self h) (cx_fd h) m) (\<lambda>fd.
       let (r, m) = close_desc fd m
       in bind_res (CHECK (r \<noteq> 0) ''Failed to close client connection'') (\<lambda>_. free (cx_self h) m))))))))"

text \<open>
  A connection: its request context and the socket context it is registered with. \<open>connection_new\<close> is
  what a turn of \<^verbatim>\<open>handle_accept_read\<close> allocates once \<^verbatim>\<open>accept\<close> has returned a descriptor,
  \<open>connection_close\<close> what \<^verbatim>\<open>client_close_connection\<close> frees.
\<close>

record ConnectionPtrs =
  cn_context :: ContextPtrs
  cn_socket :: pointer

definition connection_parts :: "ConnectionPtrs \<Rightarrow> parts" where
  "connection_parts h =
     (let c = cn_context h
      in ([cx_host c, cx_self c, bp_self (cx_input c), bp_region (cx_input c), bp_self (cx_output c), bp_region (cx_output c),
           cn_socket h], [cx_fd c]))"

definition connection_new :: "stock \<Rightarrow> memory \<Rightarrow> (ConnectionPtrs \<times> stock \<times> memory) res" where
  "connection_new sp m =
     (let (conn_sock, sp, m) = new_fd sp m
      in bind_res (CHECK (conn_sock = - 1) ''Failed to accept connection'') (\<lambda>_.
         bind_res (new_block sp m) (\<lambda>(hbuf, sp, m).
         bind_res (request_context_new conn_sock hbuf sp m) (\<lambda>(request_context, sp, m).
         bind_res (new_block sp m) (\<lambda>(connection_context, sp, m).
           Inr (\<lparr>cn_context = request_context, cn_socket = connection_context\<rparr>, sp, m))))))"

definition connection_close :: "ConnectionPtrs \<Rightarrow> memory \<Rightarrow> memory res" where
  "connection_close h m =
     bind_res (arrow (cn_socket h) (cn_context h) m) (\<lambda>request_context.
     bind_res (context_destroy request_context m) (\<lambda>m. free (cn_socket h) m))"

lemma context_acquired:
  assumes "request_context_new fd host sp m = Inr (c, sp', m')" and "stock_ok sp m"
  shows "acquired ([cx_self c, bp_self (cx_input c), bp_region (cx_input c), bp_self (cx_output c), bp_region (cx_output c)], []) m m' \<and>
     stock_ok sp' m' \<and> cx_host c = host \<and> cx_fd c = fd"
proof -
  obtain p sp1 m1 ib sp2 m2 ob where c: "new_block sp m = Inr (p, sp1, m1)" "input_buffer_new sp1 m1 = Inr (ib, sp2, m2)"
      "output_buffer_new sp2 m2 = Inr (ob, sp', m')"
      "c = \<lparr>cx_self = p, cx_input = ib, cx_output = ob, cx_host = host, cx_fd = fd\<rparr>"
    using assms(1) by (auto simp: request_context_new_def res_simps)
  have 1: "acquired ([p], []) m m1" "stock_ok sp1 m1" using new_block_acquired [OF c(1) assms(2)] by simp_all
  have 2: "acquired (buffer_parts ib) m1 m2" "stock_ok sp2 m2" using ibuf.create_acquires [OF c(2) 1(2)] by simp_all
  have 3: "acquired (buffer_parts ob) m2 m'" "stock_ok sp' m'" using obuf.create_acquires [OF c(3) 2(2)] by simp_all
  from acquired_trans [OF acquired_trans [OF 1(1) 2(1)] 3(1)] 3(2) show ?thesis
    by (simp add: c(4) plus_parts_def buffer_parts_def)
qed

lemma connection_acquired:
  assumes "connection_new sp m = Inr (h, sp', m')" and "stock_ok sp m"
  shows "acquired (connection_parts h) m m' \<and> stock_ok sp' m'"
proof -
  obtain fd sp1 m1 host sp2 m2 c sp3 m3 p where h: "new_fd sp m = (fd, sp1, m1)" "fd \<noteq> - 1" "new_block sp1 m1 = Inr (host, sp2, m2)"
      "request_context_new fd host sp2 m2 = Inr (c, sp3, m3)" "new_block sp3 m3 = Inr (p, sp', m')" "h = \<lparr>cn_context = c, cn_socket = p\<rparr>"
    using assms(1) by (cases "new_fd sp m") (auto simp: connection_new_def Let_def res_simps)
  have 1: "acquired ([], [fd]) m m1" "stock_ok sp1 m1" using new_fd_acquired [OF h(1) assms(2)] h(2) by (simp_all add: fd_parts_def)
  have 2: "acquired ([host], []) m1 m2" "stock_ok sp2 m2" using new_block_acquired [OF h(3) 1(2)] by simp_all
  note 3 = context_acquired [OF h(4) 2(2)]
  have 4: "acquired ([p], []) m3 m'" "stock_ok sp' m'" using new_block_acquired [OF h(5)] 3 by simp_all
  from acquired_trans [OF acquired_trans [OF acquired_trans [OF 1(1) 2(1)] conjunct1 [OF 3]] 4(1)] 3 4(2) show ?thesis
    by (simp add: h(6) connection_parts_def plus_parts_def Let_def)
qed

lemma connection_released:
  assumes "holds (connection_parts h) m"
  shows "connection_close h m = Inr (release (connection_parts h) m)"
  using assms
  by (auto simp: connection_close_def context_destroy_def input_buffer_destroy_def output_buffer_destroy_def connection_parts_def Let_def
      arrow_def free_def close_desc_def holds_def release_def intro!: memory.equality)

interpretation conn: resource connection_new connection_close connection_parts cn_socket "\<lambda>_. True"
  by unfold_locales (simp_all add: connection_acquired connection_released, simp_all add: connection_parts_def connection_close_def arrow_def Let_def)

section \<open>Every destructor undoes its constructor\<close>

text \<open>For the objects that do not belong to a connection. A queue whose lock is held is not destroyed: the process ends.\<close>

lemma destructors_balanced:
  assumes "stock_ok sp m"
  shows "mrmw_queue_new r sp m = Inr (q, sp', m') \<Longrightarrow> mrmw_queue_destroy q m' = Inr m \<and> mrmw_queue_destroy q m = Inl Dangling \<and>
      mrmw_queue_destroy (q\<lparr>qp_lock := Locked\<rparr>) m' = Inl (Exit_Failure ''Failed to destory mutex'')"
    and "srsw_queue_new sp m = Inr (q, sp', m') \<Longrightarrow> srsw_queue_destroy q m' = Inr m \<and> srsw_queue_destroy q m = Inl Dangling"
    and "epoll_info_new sp m = Inr (e, sp', m') \<Longrightarrow> epoll_info_destroy e m' = Inr m \<and> epoll_info_destroy e m = Inl Dangling"
    and "server_stats_new sp m = Inr (t, sp', m') \<Longrightarrow> server_stats_destroy t m' = Inr m \<and> server_stats_destroy t m = Inl Dangling"
proof -
  assume new: "mrmw_queue_new r sp m = Inr (q, sp', m')"
  have "holds (queue_parts q) m'" using mrq.create_acquires [OF new assms] by (simp add: acquired_def)
  then have "qp_self q \<in> mem_blocks m'" "qp_ring q \<in> mem_blocks m'" "qp_ring q \<noteq> NULL" by (auto simp: holds_def queue_parts_def)
  then have "mrmw_queue_destroy (q\<lparr>qp_lock := Locked\<rparr>) m' = Inl (Exit_Failure ''Failed to destory mutex'')"
    by (simp add: mrmw_queue_destroy_def arrow_def free_def)
  with mrq.lifetime [OF new assms] show "mrmw_queue_destroy q m' = Inr m \<and> mrmw_queue_destroy q m = Inl Dangling \<and>
      mrmw_queue_destroy (q\<lparr>qp_lock := Locked\<rparr>) m' = Inl (Exit_Failure ''Failed to destory mutex'')" by simp
qed (use assms srq.lifetime epi.lifetime stt.lifetime in blast)+

section \<open>The life of a connection\<close>

text \<open>
  Between its creation and its end the memory of a connection changes in three ways: \<^verbatim>\<open>resize\<close> of
  either buffer reallocates its region, in place or elsewhere, and the hand-over to an actor frees the
  socket context in \<^verbatim>\<open>client_handle_read\<close> and allocates another one in \<^verbatim>\<open>process_epoll_event\<close>. The address
  is what the allocator returns; one that is in use or NULL stands for a call that fails.
\<close>

datatype life_event = Grow_Input pointer | Grow_Output pointer | Hand_Over pointer

definition malloc_at :: "pointer \<Rightarrow> memory \<Rightarrow> memory res" where
  "malloc_at q m = (if q = NULL \<or> q \<in> mem_blocks m then Inl OOM else Inr (m\<lparr>mem_blocks := insert q (mem_blocks m)\<rparr>))"

definition realloc_at :: "pointer \<Rightarrow> pointer \<Rightarrow> memory \<Rightarrow> memory res" where
  "realloc_at p q m =
     (if p \<notin> mem_blocks m then Inl Dangling
      else if q = p then Inr m
      else bind_res (malloc_at q m) (free p))"

definition regrow :: "pointer \<Rightarrow> BufferPtrs \<Rightarrow> memory \<Rightarrow> (BufferPtrs \<times> memory) res" where
  "regrow q h m =
     bind_res (arrow (bp_self h) (bp_region h) m) (\<lambda>region.
     bind_res (realloc_at region q m) (\<lambda>m. Inr (h\<lparr>bp_region := q\<rparr>, m)))"

fun life_step :: "life_event \<Rightarrow> ConnectionPtrs \<Rightarrow> memory \<Rightarrow> (ConnectionPtrs \<times> memory) res" where
  "life_step (Grow_Input q) h m =
     bind_res (arrow (cx_self (cn_context h)) (cx_input (cn_context h)) m) (\<lambda>input_buffer.
     bind_res (regrow q input_buffer m) (\<lambda>(b, m). Inr (h\<lparr>cn_context := (cn_context h)\<lparr>cx_input := b\<rparr>\<rparr>, m)))"
| "life_step (Grow_Output q) h m =
     bind_res (arrow (cx_self (cn_context h)) (cx_output (cn_context h)) m) (\<lambda>output_buffer.
     bind_res (regrow q output_buffer m) (\<lambda>(b, m). Inr (h\<lparr>cn_context := (cn_context h)\<lparr>cx_output := b\<rparr>\<rparr>, m)))"
| "life_step (Hand_Over q) h m =
     bind_res (free (cn_socket h) m) (\<lambda>m.
     bind_res (malloc_at q m) (\<lambda>m. Inr (h\<lparr>cn_socket := q\<rparr>, m)))"

fun life :: "life_event list \<Rightarrow> ConnectionPtrs \<Rightarrow> memory \<Rightarrow> (ConnectionPtrs \<times> memory) res" where
  "life [] h m = Inr (h, m)"
| "life (e # es) h m = bind_res (life_step e h m) (\<lambda>(h, m). life es h m)"

text \<open>One block of an object is replaced by another.\<close>

lemma acquired_replace:
  assumes "acquired (xs @ p # ys, fds) m0 m" and "q \<noteq> NULL" and "q = p \<or> q \<notin> mem_blocks m"
  shows "acquired (xs @ q # ys, fds) m0 (m\<lparr>mem_blocks := insert q (mem_blocks m - {p})\<rparr>)"
  using assms by (auto simp: acquired_def holds_def release_def intro!: memory.equality)

definition life_ok :: "memory \<Rightarrow> (ConnectionPtrs \<times> memory) res \<Rightarrow> bool" where
  "life_ok m0 r \<longleftrightarrow> (case r of Inl e \<Rightarrow> e = OOM | Inr (h', m') \<Rightarrow> acquired (connection_parts h') m0 m')"

lemma life_step_acquired:
  assumes "acquired (connection_parts h) m0 m"
  shows "life_ok m0 (life_step e h m)"
proof -
  obtain c k where h: "h = \<lparr>cn_context = c, cn_socket = k\<rparr>" by (cases h)
  obtain s ib ob host fd where c: "c = \<lparr>cx_self = s, cx_input = ib, cx_output = ob, cx_host = host, cx_fd = fd\<rparr>" by (cases c)
  obtain i ir o' or where b: "ib = \<lparr>bp_self = i, bp_region = ir\<rparr>" "ob = \<lparr>bp_self = o', bp_region = or\<rparr>"
    by (cases ib; cases ob) blast
  have a: "acquired ([host, s, i, ir, o', or, k], [fd]) m0 m" using assms by (simp add: connection_parts_def h c b)
  then have live: "{host, s, i, ir, o', or, k} \<subseteq> mem_blocks m" "NULL \<notin> {host, s, i, ir, o', or, k}"
    by (auto simp: acquired_def holds_def)
  have moved: "m\<lparr>mem_blocks := insert q (mem_blocks m - {p})\<rparr> =
      (if q = p then m else m\<lparr>mem_blocks := insert q (mem_blocks m) - {p}\<rparr>)" if "p \<in> mem_blocks m" for p q
    using that by (auto intro!: memory.equality)
  show ?thesis
  proof (cases e)
    case (Grow_Input q)
    from acquired_replace [of "[host, s, i]" ir "[o', or, k]" "[fd]" m0 m q] a live show ?thesis
      by (auto simp: Grow_Input h c b regrow_def arrow_def realloc_at_def malloc_at_def free_def life_ok_def connection_parts_def moved)
  next
    case (Grow_Output q)
    from acquired_replace [of "[host, s, i, ir, o']" or "[k]" "[fd]" m0 m q] a live show ?thesis
      by (auto simp: Grow_Output h c b regrow_def arrow_def realloc_at_def malloc_at_def free_def life_ok_def connection_parts_def moved)
  next
    case (Hand_Over q)
    from acquired_replace [of "[host, s, i, ir, o', or]" k "[]" "[fd]" m0 m q] a live show ?thesis
      by (auto simp: Hand_Over h c b malloc_at_def free_def life_ok_def connection_parts_def)
  qed
qed

lemma life_acquired:
  assumes "acquired (connection_parts h) m0 m"
  shows "life_ok m0 (life es h m)"
  using assms
proof (induction es arbitrary: h m)
  case (Cons e es)
  from life_step_acquired [OF Cons.prems, of e] Cons.IH show ?case
    by (cases "life_step e h m") (auto simp: life_ok_def)
qed (simp add: life_ok_def)

section \<open>Properties\<close>

text \<open>
  Property C9: a connection gives back all its memory. After it has been accepted, its buffers may grow
  any number of times and it may be handed to actors any number of times; closing it frees each of its
  seven blocks and its descriptor exactly once and leaves the heap and the descriptors as they were
  before it was accepted. A second close is a use after free. Only a lack of memory comes in between.
\<close>

theorem connection_memory_balanced:
  assumes "connection_new sp m = Inr (h, sp', m1)" and "stock_ok sp m"
  shows "case life es h m1 of Inl e \<Rightarrow> e = OOM
     | Inr (h', m2) \<Rightarrow> connection_close h' m2 = Inr m \<and> connection_close h' m = Inl Dangling"
proof -
  have "life_ok m (life es h m1)" using connection_acquired [OF assms] life_acquired by blast
  moreover have "connection_close h' m2 = Inr m \<and> connection_close h' m = Inl Dangling"
    if "acquired (connection_parts h') m m2" for h' m2
  proof -
    have h: "holds (connection_parts h') m2" "release (connection_parts h') m2 = m" using that by (simp_all add: acquired_def)
    have "cn_socket h' \<noteq> NULL" "cn_socket h' \<notin> mem_blocks m"
      using conn.self_part [of h'] h by (auto simp: holds_def release_def)
    with h conn.destroy_freed connection_released show ?thesis by metis
  qed
  ultimately show ?thesis by (auto simp: life_ok_def split: sum.splits)
qed

theorem connection_memory_balanced_witness:
  "\<exists>h sp' m1 h' m2. connection_new \<lparr>sp_blocks = [16, 32, 48, 64, 80, 96, 112], sp_fds = [5]\<rparr> \<lparr>mem_blocks = {8}, mem_fds = {3}\<rparr> =
       Inr (h, sp', m1) \<and> life [Grow_Input 128, Hand_Over 64, Grow_Output 144, Hand_Over 112] h m1 = Inr (h', m2) \<and>
     connection_close h' m2 = Inr \<lparr>mem_blocks = {8}, mem_fds = {3}\<rparr>"
proof -
  let ?sp = "\<lparr>sp_blocks = [16, 32, 48, 64, 80, 96, 112], sp_fds = [5]\<rparr>" and ?m = "\<lparr>mem_blocks = {8}, mem_fds = {3}\<rparr>"
  let ?es = "[Grow_Input 128, Hand_Over 64, Grow_Output 144, Hand_Over 112]"
  have sp: "stock_ok ?sp ?m" by (simp add: stock_ok_def)
  obtain h sp' m1 h' m2 where n: "connection_new ?sp ?m = Inr (h, sp', m1)" and l: "life ?es h m1 = Inr (h', m2)"
    by (simp add: connection_new_def request_context_new_def input_buffer_new_def output_buffer_new_def new_fd_def new_block_def
        regrow_def arrow_def realloc_at_def malloc_at_def free_def)
  from connection_memory_balanced [OF n sp, of ?es] n l show ?thesis by auto
qed

end
