(* ===== verification/Mrmw_Queue.thy ===== *)
theory Mrmw_Queue
  imports Queue_Interface
begin

text \<open>
  src/mrmw_queue.c: the queue the server is linked with, a ring buffer under a mutex. Every
  operation takes the lock first and gives it back on each path, so an operation is one
  atomic step for the other threads.
\<close>

section \<open>Data and operations\<close>

record MrmwQueue =
  mq_max_size :: size_t
  mq_current_size :: size_t
  mq_ring_buffer :: "pointer list"
  enqueue_offset :: size_t
  dequeue_offset :: size_t
  mq_lock :: mutex
  mq_add_event :: eventfd

definition mq_is_full :: "MrmwQueue \<Rightarrow> bool" where
  "mq_is_full q \<longleftrightarrow> mq_current_size q = mq_max_size q"

definition mq_is_empty :: "MrmwQueue \<Rightarrow> bool" where
  "mq_is_empty q \<longleftrightarrow> mq_current_size q = 0"

text \<open>\<^verbatim>\<open>calloc(n, sizeof(void*))\<close>: zeroed slots, or NULL when the product is too large.\<close>

definition calloc_slots :: "allocator \<Rightarrow> size_t \<Rightarrow> pointer list option" where
  "calloc_slots al n =
     (if n \<le> PTRDIFF_MAX div 8 \<and> al (n * 8) \<noteq> None then Some (replicate (unat n) NULL) else None)"

definition SIZEOF_MrmwQueue :: size_t where
  "SIZEOF_MrmwQueue = 88"

definition mrmw_queue_init :: "allocator \<Rightarrow> size_t \<Rightarrow> MrmwQueue res" where
  "mrmw_queue_init al max_size =
     bind_res (CHECK_MEM (malloc al SIZEOF_MrmwQueue)) (\<lambda>_.
     bind_res (CHECK_MEM (calloc_slots al max_size)) (\<lambda>ring.
       Inr \<lparr>mq_max_size = max_size, mq_current_size = 0, mq_ring_buffer = ring,
            enqueue_offset = 0, dequeue_offset = 0, mq_lock = Unlocked, mq_add_event = 0\<rparr>))"

definition mq_acquire :: "MrmwQueue \<Rightarrow> MrmwQueue res" where
  "mq_acquire q =
     bind_res (pthread_mutex_lock (mq_lock q)) (\<lambda>(r, l).
       bind_res (CHECK (r \<noteq> 0) ''Failed to lock mutex'') (\<lambda>_. Inr (q\<lparr>mq_lock := l\<rparr>)))"

definition mq_release :: "MrmwQueue \<Rightarrow> MrmwQueue res" where
  "mq_release q =
     (let (r, l) = pthread_mutex_unlock (mq_lock q)
      in bind_res (CHECK (r \<noteq> 0) ''Failed to unlock mutex'') (\<lambda>_. Inr (q\<lparr>mq_lock := l\<rparr>)))"

definition mrmw_queue_size :: "MrmwQueue \<Rightarrow> (size_t \<times> MrmwQueue) res" where
  "mrmw_queue_size q =
     bind_res (mq_acquire q) (\<lambda>q.
       let sz = mq_current_size q
       in bind_res (mq_release q) (\<lambda>q. Inr (sz, q)))"

definition mrmw_queue_push :: "MrmwQueue \<Rightarrow> pointer \<Rightarrow> (QueueResult \<times> MrmwQueue) res" where
  "mrmw_queue_push q ptr =
     bind_res (mq_acquire q) (\<lambda>q.
       if mq_is_full q then bind_res (mq_release q) (\<lambda>q. Inr (QUEUE_FAILURE, q))
       else if unat (enqueue_offset q) < length (mq_ring_buffer q) then
         let q = q\<lparr>mq_ring_buffer := (mq_ring_buffer q)[unat (enqueue_offset q) := ptr]\<rparr>;
             q = q\<lparr>enqueue_offset := (enqueue_offset q + 1) mod mq_max_size q\<rparr>;
             q = q\<lparr>mq_current_size := mq_current_size q + 1\<rparr>;
             (r, ev) = eventfd_write (mq_add_event q) 1
         in bind_res (CHECK (r \<noteq> 0) ''Failed to send event notification'') (\<lambda>_.
              bind_res (mq_release (q\<lparr>mq_add_event := ev\<rparr>)) (\<lambda>q. Inr (QUEUE_SUCCESS, q)))
       else Inl Out_Of_Bounds)"

definition mrmw_queue_pop :: "MrmwQueue \<Rightarrow> (pointer \<times> MrmwQueue) res" where
  "mrmw_queue_pop q =
     bind_res (mq_acquire q) (\<lambda>q.
       if mq_is_empty q then bind_res (mq_release q) (\<lambda>q. Inr (NULL, q))
       else if unat (dequeue_offset q) < length (mq_ring_buffer q) then
         let ptr = mq_ring_buffer q ! unat (dequeue_offset q);
             q = q\<lparr>dequeue_offset := (dequeue_offset q + 1) mod mq_max_size q\<rparr>;
             q = q\<lparr>mq_current_size := mq_current_size q - 1\<rparr>
         in bind_res (mq_release q) (\<lambda>q. Inr (ptr, q))
       else Inl Out_Of_Bounds)"

text \<open>The consumer's \<^verbatim>\<open>eventfd_read(queue_add_event_fd(queue), &n)\<close>.\<close>

definition mrmw_queue_event_read :: "MrmwQueue \<Rightarrow> (64 word) option \<times> MrmwQueue" where
  "mrmw_queue_event_read q =
     (let (v, ev) = eventfd_read (mq_add_event q) in (v, q\<lparr>mq_add_event := ev\<rparr>))"

section \<open>Invariant and abstraction\<close>

definition mq_inv :: "MrmwQueue \<Rightarrow> bool" where
  "mq_inv q \<longleftrightarrow> length (mq_ring_buffer q) = unat (mq_max_size q) \<and> unat (mq_max_size q) < 2 ^ 60 \<and>
     mq_current_size q \<le> mq_max_size q \<and> mq_lock q = Unlocked \<and>
     (mq_max_size q \<noteq> 0 \<longrightarrow> dequeue_offset q < mq_max_size q) \<and>
     unat (enqueue_offset q) = (unat (dequeue_offset q) + unat (mq_current_size q)) mod unat (mq_max_size q)"

definition mq_items :: "MrmwQueue \<Rightarrow> pointer list" where
  "mq_items q = ring_items (mq_ring_buffer q) (unat (mq_max_size q)) (unat (dequeue_offset q))
     (unat (mq_current_size q))"

definition mq_capacity :: "MrmwQueue \<Rightarrow> nat" where
  "mq_capacity q = unat (mq_max_size q)"

definition mq_notified :: "MrmwQueue \<Rightarrow> nat" where
  "mq_notified q = unat (mq_add_event q)"

declare mq_inv_def [wf_defs]

lemmas mq_abs_defs = mq_items_def mq_capacity_def mq_notified_def

lemma mq_acquire_free [simp]: "mq_lock q = Unlocked \<Longrightarrow> mq_acquire q = Inr (q\<lparr>mq_lock := Locked\<rparr>)"
  by (simp add: mq_acquire_def)

lemma mq_acquire_held [simp]: "mq_lock q = Locked \<Longrightarrow> mq_acquire q = Inl Blocks_Forever"
  by (simp add: mq_acquire_def)

lemma mq_release_eq [simp]: "mq_release q = Inr (q\<lparr>mq_lock := Unlocked\<rparr>)"
  by (simp add: mq_release_def pthread_mutex_unlock_def)

lemma mq_unlocked_id: "mq_lock q = Unlocked \<Longrightarrow> q\<lparr>mq_lock := Unlocked\<rparr> = q"
  by simp

lemma unat_succ_mod:
  "\<lbrakk>a < m; unat m < 2 ^ 60\<rbrakk> \<Longrightarrow> unat ((a + 1) mod m) = (unat a + 1) mod unat (m :: size_t)"
  by (simp add: unat_mod_distrib unat_word_ariths word_less_nat_alt)

lemma calloc_slots_eq_Some:
  "calloc_slots al n = Some ring \<Longrightarrow> ring = replicate (unat n) NULL \<and> unat n < 2 ^ 60"
  by (auto simp: calloc_slots_def PTRDIFF_MAX_def word_le_nat_alt split: if_splits)

lemma mrmw_queue_init_inv:
  "mrmw_queue_init al n = Inr q \<Longrightarrow>
     mq_inv q \<and> mq_items q = [] \<and> mq_capacity q = unat n \<and> mq_notified q = 0"
  by (auto simp: mrmw_queue_init_def res_simps mq_inv_def mq_abs_defs word_neq_0_conv
      dest!: calloc_slots_eq_Some)

lemma mq_push_room:
  assumes inv: "mq_inv q" and room: "length (mq_items q) < mq_capacity q" and ev: "mq_notified q < unat EVENTFD_MAX"
  shows "\<exists>q'. mrmw_queue_push q p = Inr (QUEUE_SUCCESS, q') \<and> mq_inv q' \<and> mq_items q' = mq_items q @ [p] \<and>
     mq_capacity q' = mq_capacity q \<and> mq_notified q' = Suc (mq_notified q)"
proof -
  let ?m = "unat (mq_max_size q)" and ?c = "unat (mq_current_size q)"
  let ?d = "unat (dequeue_offset q)" and ?e = "unat (enqueue_offset q)"
  have c: "?c < ?m" using room by (simp add: mq_abs_defs)
  have m: "mq_max_size q \<noteq> 0" "0 < ?m" using c by (auto simp: unat_gt_0)
  have e: "?e = (?d + ?c) mod ?m" "?e < ?m" "?e < length (mq_ring_buffer q)" "enqueue_offset q < mq_max_size q"
    using inv m(2) by (simp_all add: mq_inv_def word_less_nat_alt)
  have notfull: "mq_current_size q \<noteq> mq_max_size q" using c by auto
  have c1: "unat (mq_current_size q + 1) = Suc ?c"
    using c inv unat_add_of_nat [of "mq_current_size q" 1] by (simp add: mq_inv_def)
  have e1: "unat ((enqueue_offset q + 1) mod mq_max_size q) = (?d + Suc ?c) mod ?m"
    using unat_succ_mod [OF e(4)] inv by (simp add: mq_inv_def e(1) mod_simps)
  have ev1: "eventfd_write (mq_add_event q) 1 = (0, mq_add_event q + 1)"
    "unat (mq_add_event q + 1) = Suc (unat (mq_add_event q))"
    using ev eventfd_write_one [of "mq_add_event q"] by (simp_all add: mq_notified_def)
  have "ring_items ((mq_ring_buffer q)[?e := p]) ?m ?d (Suc ?c) = ring_items (mq_ring_buffer q) ?m ?d ?c @ [p]"
    using inv by (intro ring_items_push [OF c _ e(1)]) (simp add: mq_inv_def)
  then show ?thesis
    using inv m e(3) notfull c c1 e1 ev1
    by (simp add: mrmw_queue_push_def mq_is_full_def mq_inv_def mq_abs_defs Let_def word_le_nat_alt)
qed

lemma mq_push_full:
  "\<lbrakk>mq_inv q; length (mq_items q) = mq_capacity q\<rbrakk> \<Longrightarrow> mrmw_queue_push q p = Inr (QUEUE_FAILURE, q)"
  by (simp add: mrmw_queue_push_def mq_inv_def mq_is_full_def mq_abs_defs flip: word_unat_eq_iff)

lemma mq_pop_item:
  assumes inv: "mq_inv q" and it: "mq_items q = x # xs"
  shows "\<exists>q'. mrmw_queue_pop q = Inr (x, q') \<and> mq_inv q' \<and> mq_items q' = xs \<and>
     mq_capacity q' = mq_capacity q \<and> mq_notified q' = mq_notified q"
proof -
  let ?m = "unat (mq_max_size q)" and ?d = "unat (dequeue_offset q)"
  obtain c where c: "unat (mq_current_size q) = Suc c"
    using it by (cases "unat (mq_current_size q)") (auto simp: mq_items_def)
  have m: "Suc c \<le> ?m" "0 < ?m" "mq_max_size q \<noteq> 0" "mq_current_size q \<noteq> 0"
    using inv c by (auto simp: mq_inv_def word_le_nat_alt)
  have d: "?d < ?m" "?d mod ?m = ?d" "dequeue_offset q < mq_max_size q" "?d < length (mq_ring_buffer q)"
    using inv m by (auto simp: mq_inv_def word_less_nat_alt)
  have c1: "unat (mq_current_size q - 1) = c"
    using c m(4) by (simp add: unat_minus_one)
  have d1: "unat ((dequeue_offset q + 1) mod mq_max_size q) = (?d + 1) mod ?m"
    using unat_succ_mod [OF d(3)] inv by (simp add: mq_inv_def)
  have ring: "ring_items (mq_ring_buffer q) ?m ?d (Suc c) =
      mq_ring_buffer q ! ?d # ring_items (mq_ring_buffer q) ?m ((?d + 1) mod ?m) c"
    using ring_items_pop [OF m(2), of "mq_ring_buffer q" ?d c] d(2) by simp
  have "(dequeue_offset q + 1) mod mq_max_size q < mq_max_size q"
    using m(2) d1 by (simp add: word_less_nat_alt)
  moreover have "((?d + 1) mod ?m + c) mod ?m = (?d + Suc c) mod ?m" by (simp add: mod_simps)
  ultimately show ?thesis
    using inv it m d(4) c c1 d1 ring
    by (simp add: mrmw_queue_pop_def mq_is_empty_def mq_inv_def mq_abs_defs Let_def word_le_nat_alt)
qed

lemma mq_pop_empty: "\<lbrakk>mq_inv q; mq_items q = []\<rbrakk> \<Longrightarrow> mrmw_queue_pop q = Inr (NULL, q)"
  by (auto simp: mrmw_queue_pop_def mq_inv_def mq_is_empty_def mq_items_def unat_eq_0
      dest!: arg_cong [of _ _ length])

text \<open>Reading the event counter takes all notifications and leaves the items.\<close>

lemma mq_event_read:
  assumes "mq_inv q"
  obtains q' where "mrmw_queue_event_read q = (if mq_notified q = 0 then None else Some (mq_add_event q), q')"
    "mq_inv q'" "mq_items q' = mq_items q" "mq_capacity q' = mq_capacity q" "mq_notified q' = 0"
proof (rule that [of "q\<lparr>mq_add_event := 0\<rparr>"])
  show "mrmw_queue_event_read q = (if mq_notified q = 0 then None else Some (mq_add_event q), q\<lparr>mq_add_event := 0\<rparr>)"
    by (simp add: mrmw_queue_event_read_def eventfd_read_def mq_notified_def unat_eq_0)
qed (use assms in \<open>simp_all add: mq_inv_def mq_abs_defs\<close>)

interpretation mq: bounded_queue mrmw_queue_push mrmw_queue_pop mq_items mq_capacity mq_notified mq_inv
proof unfold_locales
  show "mq_inv q \<Longrightarrow> length (mq_items q) \<le> mq_capacity q" for q
    by (simp add: mq_inv_def mq_abs_defs word_le_nat_alt)
qed (fact mq_push_room mq_push_full mq_pop_item mq_pop_empty)+


section \<open>Properties\<close>

text \<open>
  Property C12: the locked queue is a FIFO list of at most \<open>max_size\<close> items. From
  \<^verbatim>\<open>queue_init(n)\<close> on, every sequence of pushes and pops returns, answers as the list does
  (a push to a full queue QUEUE_FAILURE, a pop of an empty one NULL) and leaves the items
  of the list in the ring, for every position of the wrapped offsets.
\<close>

theorem mrmw_queue_refines_fifo:
  assumes "mrmw_queue_init al n = Inr q" and "count_pushes ops \<le> unat EVENTFD_MAX"
  shows "\<exists>outs q'. queue_run mrmw_queue_push mrmw_queue_pop q ops = Inr (outs, q') \<and> mq_inv q' \<and>
     fifo_run (unat n) [] ops = (outs, mq_items q')"
  using mrmw_queue_init_inv [OF assms(1)] mq.run_refines [of q ops] assms(2) by auto

theorem mrmw_queue_refines_fifo_witness:
  "\<exists>q outs q'. mrmw_queue_init (\<lambda>_. Some (\<lambda>_. 0)) 2 = Inr q \<and>
     queue_run mrmw_queue_push mrmw_queue_pop q [Push 5, Push 6, Push 7, Pop, Push 8, Pop, Pop, Pop] = Inr (outs, q') \<and>
     outs = [Pushed QUEUE_SUCCESS, Pushed QUEUE_SUCCESS, Pushed QUEUE_FAILURE, Popped 5,
             Pushed QUEUE_SUCCESS, Popped 6, Popped 8, Popped NULL]"
proof -
  obtain q where q: "mrmw_queue_init (\<lambda>_. Some (\<lambda>_. 0)) 2 = Inr q"
    by (simp add: mrmw_queue_init_def calloc_slots_def CHECK_MEM_def malloc_def PTRDIFF_MAX_def
        SIZEOF_MrmwQueue_def)
  have "count_pushes [Push 5, Push 6, Push 7, Pop, Push 8, Pop, Pop, Pop] \<le> unat EVENTFD_MAX"
    by (simp add: count_pushes_def EVENTFD_MAX_def)
  from mrmw_queue_refines_fifo [OF q this] q show ?thesis by auto
qed

text \<open>
  The event descriptor counts the items pushed since the last read. After any
  sequence of calls from \<^verbatim>\<open>queue_init\<close> on, \<^verbatim>\<open>eventfd_read\<close> delivers exactly the number of
  successful pushes and clears it, and fails when there was none.
\<close>

lemma mrmw_queue_event_count:
  assumes "mrmw_queue_init al n = Inr q" and "count_pushes ops \<le> unat EVENTFD_MAX"
    and "queue_run mrmw_queue_push mrmw_queue_pop q ops = Inr (outs, q')"
  shows "(let k = count_list outs (Pushed QUEUE_SUCCESS) in
     mrmw_queue_event_read q' =
       (if k = 0 then None else Some (of_nat k), q'\<lparr>mq_add_event := 0\<rparr>))"
proof -
  note i = mrmw_queue_init_inv [OF assms(1)]
  have "unat (mq_add_event q') = count_list outs (Pushed QUEUE_SUCCESS)"
    using mq.run_notifies [of q ops outs q'] i assms(2,3) by (simp add: mq_notified_def)
  then have "mq_add_event q' = of_nat (count_list outs (Pushed QUEUE_SUCCESS))"
    "mq_add_event q' = 0 \<longleftrightarrow> count_list outs (Pushed QUEUE_SUCCESS) = 0"
    by (auto simp flip: unat_eq_0 dest: arg_cong [of _ _ "word_of_nat :: nat \<Rightarrow> 64 word"])
  then show ?thesis
    by (simp add: mrmw_queue_event_read_def eventfd_read_def Let_def)
qed

lemma mrmw_queue_event_count_example:
  "\<exists>q outs q'. mrmw_queue_init (\<lambda>_. Some (\<lambda>_. 0)) 5 = Inr q \<and>
     queue_run mrmw_queue_push mrmw_queue_pop q [Push 1, Push 2, Push 3] = Inr (outs, q') \<and>
     mrmw_queue_event_read q' = (Some 3, q'\<lparr>mq_add_event := 0\<rparr>)"
proof -
  obtain q where q: "mrmw_queue_init (\<lambda>_. Some (\<lambda>_. 0)) 5 = Inr q"
    by (simp add: mrmw_queue_init_def calloc_slots_def CHECK_MEM_def malloc_def PTRDIFF_MAX_def
        SIZEOF_MrmwQueue_def)
  have ops: "count_pushes [Push 1, Push 2, Push 3] \<le> unat EVENTFD_MAX"
    by (simp add: count_pushes_def EVENTFD_MAX_def)
  obtain outs q' where run: "queue_run mrmw_queue_push mrmw_queue_pop q [Push 1, Push 2, Push 3] = Inr (outs, q')"
    "fifo_run 5 [] [Push 1, Push 2, Push 3] = (outs, mq_items q')"
    using mq.run_refines [of q "[Push 1, Push 2, Push 3]"] mrmw_queue_init_inv [OF q] ops by auto
  from mrmw_queue_event_count [OF q ops run(1)] run q show ?thesis by (auto simp: Let_def)
qed

text \<open>
  \<^verbatim>\<open>queue_size\<close> returns the number of items and changes nothing; on a queue whose lock is
  held by another thread every operation waits.
\<close>

lemma mrmw_queue_size_result:
  "mq_inv q \<Longrightarrow> mrmw_queue_size q = Inr (of_nat (length (mq_items q)), q)"
  by (simp add: mrmw_queue_size_def mq_inv_def mq_items_def)

lemma mrmw_queue_locked:
  assumes "mq_lock q = Locked"
  shows "mrmw_queue_push q p = Inl Blocks_Forever \<and> mrmw_queue_pop q = Inl Blocks_Forever \<and>
     mrmw_queue_size q = Inl Blocks_Forever"
  using assms by (simp add: mrmw_queue_size_def mrmw_queue_push_def mrmw_queue_pop_def)

end
