(* ===== verification/Server_Stats.thy ===== *)
theory Server_Stats
  imports Request_Stats "HOL-Library.Multiset"
begin

text \<open>
  src/server_stats.c: the counters all threads share. They are C11 atomics of type
  \<^verbatim>\<open>atomic_long\<close>, whose additions wrap, so they are 64-bit words. Every update is one
  relaxed \<^verbatim>\<open>atomic_fetch_add\<close>; \<open>apply_add\<close> is its effect, and the order in which the
  additions of several threads reach a counter is the order of a list of them.
\<close>

record ServerWideStats =
  avg_micros :: "64 word list"
  active_connections :: "64 word"
  total_requests_processed :: "64 word"

definition SIZEOF_ServerWideStats :: size_t where
  "SIZEOF_ServerWideStats = 56"

definition server_stats_init :: "allocator \<Rightarrow> ServerWideStats res" where
  "server_stats_init al =
     bind_res (CHECK_MEM (malloc al SIZEOF_ServerWideStats)) (\<lambda>_.
       Inr \<lparr>avg_micros = replicate 5 0, active_connections = 0, total_requests_processed = 0\<rparr>)"

definition ATOMIC_ADD :: "TimeType \<Rightarrow> int \<Rightarrow> ServerWideStats \<Rightarrow> ServerWideStats" where
  "ATOMIC_ADD t v s =
     s\<lparr>avg_micros := (avg_micros s)[time_index t := avg_micros s ! time_index t + word_of_int v]\<rparr>"

definition server_stats_record_request :: "ServerWideStats \<Rightarrow> PerRequestStats \<Rightarrow> ServerWideStats" where
  "server_stats_record_request s r =
     (let total_time = per_request_get_time r TOTAL_TIME;
          s = ATOMIC_ADD TOTAL_TIME total_time s;
          client_read = per_request_get_time r CLIENT_READ_TIME;
          s = ATOMIC_ADD CLIENT_READ_TIME client_read s;
          client_write = per_request_get_time r CLIENT_WRITE_TIME;
          s = ATOMIC_ADD CLIENT_WRITE_TIME client_write s;
          actor_time = per_request_get_time r ACTOR_TIME;
          s = ATOMIC_ADD ACTOR_TIME actor_time s;
          queue_time = per_request_get_time r QUEUE_TIME;
          s = ATOMIC_ADD QUEUE_TIME queue_time s
      in s)"

definition server_stats_incr_active_requests :: "ServerWideStats \<Rightarrow> ServerWideStats" where
  "server_stats_incr_active_requests s = s\<lparr>active_connections := active_connections s + 1\<rparr>"

definition server_stats_decr_active_requests :: "ServerWideStats \<Rightarrow> ServerWideStats" where
  "server_stats_decr_active_requests s = s\<lparr>active_connections := active_connections s + (- 1)\<rparr>"

definition server_stats_get_active_requests :: "ServerWideStats \<Rightarrow> int" where
  "server_stats_get_active_requests s = sint (active_connections s)"

definition server_stats_incr_total_requests :: "ServerWideStats \<Rightarrow> ServerWideStats" where
  "server_stats_incr_total_requests s = s\<lparr>total_requests_processed := total_requests_processed s + 1\<rparr>"

definition server_stats_decr_total_requests :: "ServerWideStats \<Rightarrow> ServerWideStats" where
  "server_stats_decr_total_requests s = s\<lparr>total_requests_processed := total_requests_processed s + (- 1)\<rparr>"

definition server_stats_get_total_requests :: "ServerWideStats \<Rightarrow> int" where
  "server_stats_get_total_requests s = sint (total_requests_processed s)"

section \<open>Atomic updates\<close>

text \<open>One atomic addition, and the additions \<^verbatim>\<open>server_stats_record_request\<close> issues in order.\<close>

datatype stat_add = Add_Time TimeType int | Incr_Active | Decr_Active | Incr_Total | Decr_Total

fun apply_add :: "stat_add \<Rightarrow> ServerWideStats \<Rightarrow> ServerWideStats" where
  "apply_add (Add_Time t v) s = ATOMIC_ADD t v s"
| "apply_add Incr_Active s = server_stats_incr_active_requests s"
| "apply_add Decr_Active s = server_stats_decr_active_requests s"
| "apply_add Incr_Total s = server_stats_incr_total_requests s"
| "apply_add Decr_Total s = server_stats_decr_total_requests s"

definition record_adds :: "PerRequestStats \<Rightarrow> stat_add list" where
  "record_adds r =
     map (\<lambda>t. Add_Time t (per_request_get_time r t))
       [TOTAL_TIME, CLIENT_READ_TIME, CLIENT_WRITE_TIME, ACTOR_TIME, QUEUE_TIME]"

definition sws_wf :: "ServerWideStats \<Rightarrow> bool" where
  "sws_wf s \<longleftrightarrow> length (avg_micros s) = 5"

declare sws_wf_def [wf_defs]

lemmas stat_defs = ATOMIC_ADD_def server_stats_incr_active_requests_def server_stats_decr_active_requests_def
  server_stats_incr_total_requests_def server_stats_decr_total_requests_def

lemma record_request_adds: "server_stats_record_request s r = fold apply_add (record_adds r) s"
  by (simp add: server_stats_record_request_def record_adds_def Let_def)

lemma apply_add_commute: "apply_add a (apply_add b s) = apply_add b (apply_add a s)"
proof (cases "(a, b)" rule: prod.exhaust)
  case (Pair x y)
  show ?thesis
  proof (cases "\<exists>t v u w. a = Add_Time t v \<and> b = Add_Time u w")
    case True
    then obtain t v u w where "a = Add_Time t v" "b = Add_Time u w" by blast
    then show ?thesis
      by (cases "t = u"; cases "time_index u < length (avg_micros s)")
        (simp_all add: stat_defs list_update_swap ac_simps list_update_beyond)
  next
    case False
    then show ?thesis by (cases a; cases b) (auto simp: stat_defs)
  qed
qed

lemma apply_add_wf [simp]: "sws_wf (apply_add a s) = sws_wf s"
  by (cases a) (simp_all add: stat_defs sws_wf_def)

lemma fold_apply_add_wf [simp]: "sws_wf (fold apply_add as s) = sws_wf s"
  by (induction as arbitrary: s) auto

text \<open>What a list of additions adds up to, per counter.\<close>

fun time_of :: "TimeType \<Rightarrow> stat_add \<Rightarrow> int" where
  "time_of t (Add_Time u v) = (if u = t then v else 0)"
| "time_of t _ = 0"

fun active_of :: "stat_add \<Rightarrow> int" where
  "active_of Incr_Active = 1"
| "active_of Decr_Active = - 1"
| "active_of _ = 0"

fun total_of :: "stat_add \<Rightarrow> int" where
  "total_of Incr_Total = 1"
| "total_of Decr_Total = - 1"
| "total_of _ = 0"

lemma apply_add_counters:
  assumes "sws_wf s"
  shows "avg_micros (apply_add a s) ! time_index t = avg_micros s ! time_index t + word_of_int (time_of t a)"
    "active_connections (apply_add a s) = active_connections s + word_of_int (active_of a)"
    "total_requests_processed (apply_add a s) = total_requests_processed s + word_of_int (total_of a)"
  using assms by (cases a; auto simp: stat_defs sws_wf_def)+

lemma fold_apply_add_counters:
  "sws_wf s \<Longrightarrow>
     avg_micros (fold apply_add as s) ! time_index t = avg_micros s ! time_index t + word_of_int (sum_list (map (time_of t) as)) \<and>
     active_connections (fold apply_add as s) = active_connections s + word_of_int (sum_list (map active_of as)) \<and>
     total_requests_processed (fold apply_add as s) = total_requests_processed s + word_of_int (sum_list (map total_of as))"
  by (induction as arbitrary: s) (simp_all add: apply_add_counters wi_hom_add [symmetric] add_ac)

lemma fold_record_request:
  "fold (\<lambda>r s. server_stats_record_request s r) rs s = fold apply_add (concat (map record_adds rs)) s"
  by (induction rs arbitrary: s) (simp_all add: record_request_adds)

lemma sum_time_record_adds: "sum_list (map (time_of t) (record_adds r)) = per_request_get_time r t"
  by (cases t) (simp_all add: record_adds_def)

section \<open>Properties\<close>

text \<open>
  Property C39: recording without locks is exact. Let several threads record the finished
  requests \<open>rs\<close> at the same time, so that the atomic additions of the calls reach memory in
  any interleaving \<open>as\<close>. The counters end up as if the calls had run one after the other:
  each time counter has grown by the sum of the requests' times.
\<close>

theorem server_stats_record_concurrent:
  assumes "sws_wf s" and "mset as = mset (concat (map record_adds rs))"
  shows "fold apply_add as s = fold (\<lambda>r s. server_stats_record_request s r) rs s \<and>
     avg_micros (fold apply_add as s) ! time_index t =
       avg_micros s ! time_index t + word_of_int (\<Sum>r\<leftarrow>rs. per_request_get_time r t) \<and>
     active_connections (fold apply_add as s) = active_connections s \<and>
     total_requests_processed (fold apply_add as s) = total_requests_processed s"
proof -
  have eq: "fold apply_add as s = fold apply_add (concat (map record_adds rs)) s"
    using fold_multiset_equiv [OF _ assms(2), of apply_add] apply_add_commute by (simp add: fun_eq_iff)
  have sums: "sum_list (map (time_of t) (concat (map record_adds rs))) = (\<Sum>r\<leftarrow>rs. per_request_get_time r t)"
    "sum_list (map active_of (concat (map record_adds rs))) = 0"
    "sum_list (map total_of (concat (map record_adds rs))) = 0"
    by (induction rs) (simp_all add: sum_time_record_adds, simp_all add: record_adds_def)
  show ?thesis
    using fold_apply_add_counters [OF assms(1), of "concat (map record_adds rs)" t] eq
    unfolding sums fold_record_request by simp
qed

lemma hundred_plus_twenty: "(100 :: 64 word) + word_of_int 20 = 120"
  by simp

theorem server_stats_record_concurrent_witness:
  "(let r = \<lparr>prs_start = [], prs_total_micros = [10, 4, 3, 2, 1], prs_is_time_set = 0\<rparr>;
        s = \<lparr>avg_micros = [100, 0, 0, 0, 0], active_connections = 2, total_requests_processed = 7\<rparr> in
    sws_wf s \<and> avg_micros (fold apply_add (rev (record_adds r @ record_adds r)) s) ! time_index TOTAL_TIME = 120)"
proof -
  let ?r = "\<lparr>prs_start = [], prs_total_micros = [10, 4, 3, 2, 1], prs_is_time_set = 0\<rparr>"
  let ?s = "\<lparr>avg_micros = [100, 0, 0, 0, 0], active_connections = 2, total_requests_processed = 7\<rparr>"
  have "sws_wf ?s" by (simp add: sws_wf_def)
  moreover have "mset (rev (record_adds ?r @ record_adds ?r)) = mset (concat (map record_adds [?r, ?r]))"
    by simp
  moreover have "(\<Sum>r\<leftarrow>[?r, ?r]. per_request_get_time r TOTAL_TIME) = 20" by code_simp
  ultimately show ?thesis
    using server_stats_record_concurrent [of ?s "rev (record_adds ?r @ record_adds ?r)" "[?r, ?r]" TOTAL_TIME]
    unfolding Let_def by (metis (no_types, lifting) nth_Cons_0 ServerWideStats.select_convs(1) time_index.simps(1)
        hundred_plus_twenty)
qed

end
