(* ===== verification/Server.thy ===== *)
theory Server
  imports Request_Context Mrmw_Queue Server_Stats
begin

text \<open>
  The server as a whole: src/server.h, src/epoll_info.c, src/client.c, src/actor.c and
  src/io_worker.c. Its memory is explicit: request contexts and socket contexts live in
  maps from addresses, descriptors in a map to sockets, the registrations of the event
  loops in a map per IO worker. Using an address or a descriptor that is not there is the
  fault \<open>Dangling\<close>. Everything the environment decides is an argument: the clock
  (\<open>clk i\<close> is the i-th reading of a call), the addresses \<^verbatim>\<open>malloc\<close> returns (\<open>fr\<close>), the
  connections \<^verbatim>\<open>accept\<close> delivers and the events \<^verbatim>\<open>epoll_wait\<close> reports.
\<close>

section \<open>Event loops\<close>

definition EPOLLIN :: "32 word" where "EPOLLIN = 0x1"
definition EPOLLPRI :: "32 word" where "EPOLLPRI = 0x2"
definition EPOLLOUT :: "32 word" where "EPOLLOUT = 0x4"
definition EPOLLERR :: "32 word" where "EPOLLERR = 0x8"
definition EPOLLHUP :: "32 word" where "EPOLLHUP = 0x10"
definition EPOLLRDHUP :: "32 word" where "EPOLLRDHUP = 0x2000"

lemmas epoll_flags = EPOLLIN_def EPOLLPRI_def EPOLLOUT_def EPOLLERR_def EPOLLHUP_def EPOLLRDHUP_def

record EpollInfo =
  epoll_fd :: int
  epoll_name :: string
  epoll_id :: nat

definition SIZEOF_EpollInfo :: size_t where
  "SIZEOF_EpollInfo = 24"

definition epoll_info_init :: "allocator \<Rightarrow> int \<Rightarrow> string \<Rightarrow> nat \<Rightarrow> EpollInfo res" where
  "epoll_info_init al fd name n =
     bind_res (CHECK_MEM (malloc al SIZEOF_EpollInfo)) (\<lambda>_.
     bind_res (CHECK (fd = - 1) ''Failed to create epoll file descriptor'') (\<lambda>_.
       Inr \<lparr>epoll_fd = fd, epoll_name = name, epoll_id = n\<rparr>))"

section \<open>The memory of the server\<close>

text \<open>The functions a socket context may point to.\<close>

datatype handler = H_accept_read | H_accept_error | H_client_read | H_client_write | H_client_error

record SocketContext =
  input_handler :: "handler option"
  output_handler :: "handler option"
  error_handler :: "handler option"
  data_ptr :: pointer
  sc_epoll_info :: nat

record server =
  sv_stats :: ServerWideStats
  sv_io_worker_count :: nat
  sv_actor_count :: nat
  sv_queues :: "nat \<Rightarrow> nat \<Rightarrow> MrmwQueue"
  sv_contexts :: "pointer \<Rightarrow> RequestContext option"
  sv_sockets :: "pointer \<Rightarrow> SocketContext option"
  sv_epolls :: "nat \<Rightarrow> int \<Rightarrow> (32 word \<times> pointer) option"
  sv_fds :: "int \<Rightarrow> socket option"
  sv_count :: size_t

definition get_context :: "server \<Rightarrow> pointer \<Rightarrow> RequestContext res" where
  "get_context s p = (case sv_contexts s p of None \<Rightarrow> Inl Dangling | Some rc \<Rightarrow> Inr rc)"

definition put_context :: "pointer \<Rightarrow> RequestContext \<Rightarrow> server \<Rightarrow> server" where
  "put_context p rc s = s\<lparr>sv_contexts := (sv_contexts s)(p \<mapsto> rc)\<rparr>"

definition get_socket :: "server \<Rightarrow> pointer \<Rightarrow> SocketContext res" where
  "get_socket s cp = (case sv_sockets s cp of None \<Rightarrow> Inl Dangling | Some sc \<Rightarrow> Inr sc)"

definition put_socket :: "pointer \<Rightarrow> SocketContext \<Rightarrow> server \<Rightarrow> server" where
  "put_socket cp sc s = s\<lparr>sv_sockets := (sv_sockets s)(cp \<mapsto> sc)\<rparr>"

definition free_socket :: "pointer \<Rightarrow> server \<Rightarrow> server res" where
  "free_socket cp s =
     (case sv_sockets s cp of None \<Rightarrow> Inl Dangling
      | Some _ \<Rightarrow> Inr (s\<lparr>sv_sockets := (sv_sockets s)(cp := None)\<rparr>))"

definition get_fd :: "server \<Rightarrow> int \<Rightarrow> socket res" where
  "get_fd s fd = (case sv_fds s fd of None \<Rightarrow> Inl Dangling | Some k \<Rightarrow> Inr k)"

definition put_fd :: "int \<Rightarrow> socket \<Rightarrow> server \<Rightarrow> server" where
  "put_fd fd k s = s\<lparr>sv_fds := (sv_fds s)(fd \<mapsto> k)\<rparr>"

definition put_queue :: "nat \<Rightarrow> nat \<Rightarrow> MrmwQueue \<Rightarrow> server \<Rightarrow> server" where
  "put_queue a w q s = s\<lparr>sv_queues := (sv_queues s)(a := (sv_queues s a)(w := q))\<rparr>"

text \<open>\<^verbatim>\<open>close\<close>: the descriptor also leaves every event loop.\<close>

definition close_fd :: "int \<Rightarrow> server \<Rightarrow> int \<times> server" where
  "close_fd fd s =
     (case sv_fds s fd of None \<Rightarrow> (- 1, s)
      | Some _ \<Rightarrow> (0, s\<lparr>sv_fds := (sv_fds s)(fd := None), sv_epolls := \<lambda>w. (sv_epolls s w)(fd := None)\<rparr>))"

section \<open>Registrations\<close>

definition set_epoll :: "nat \<Rightarrow> int \<Rightarrow> (32 word \<times> pointer) option \<Rightarrow> server \<Rightarrow> server" where
  "set_epoll w fd r s = s\<lparr>sv_epolls := (sv_epolls s)(w := (sv_epolls s w)(fd := r))\<rparr>"

datatype epoll_op = EPOLL_CTL_ADD | EPOLL_CTL_MOD | EPOLL_CTL_DEL

text \<open>\<^verbatim>\<open>epoll_ctl\<close> fails on a closed descriptor, ADD on a registered one, MOD and DEL on an unregistered one.\<close>

definition epoll_ctl :: "nat \<Rightarrow> epoll_op \<Rightarrow> int \<Rightarrow> 32 word \<times> pointer \<Rightarrow> server \<Rightarrow> int \<times> server" where
  "epoll_ctl w op1 fd ev s =
     (if sv_fds s fd = None then (- 1, s)
      else case op1 of
        EPOLL_CTL_ADD \<Rightarrow> if sv_epolls s w fd = None then (0, set_epoll w fd (Some ev) s) else (- 1, s)
      | EPOLL_CTL_MOD \<Rightarrow> if sv_epolls s w fd = None then (- 1, s) else (0, set_epoll w fd (Some ev) s)
      | EPOLL_CTL_DEL \<Rightarrow> if sv_epolls s w fd = None then (- 1, s) else (0, set_epoll w fd None s))"

definition INPUT_EVENTS :: "32 word" where
  "INPUT_EVENTS = EPOLLIN OR EPOLLERR OR EPOLLRDHUP OR EPOLLHUP OR EPOLLPRI"

definition OUTPUT_EVENTS :: "32 word" where
  "OUTPUT_EVENTS = EPOLLOUT OR EPOLLERR OR EPOLLRDHUP OR EPOLLHUP OR EPOLLPRI"

definition add_input_epoll_event :: "nat \<Rightarrow> int \<Rightarrow> pointer \<Rightarrow> server \<Rightarrow> server res" where
  "add_input_epoll_event w fd ptr s =
     (let (r, s) = epoll_ctl w EPOLL_CTL_ADD fd (INPUT_EVENTS, ptr) s
      in bind_res (CHECK (r = - 1) ''Failed to add input epoll event for IO-Thread'') (\<lambda>_. Inr s))"

definition add_output_epoll_event :: "nat \<Rightarrow> int \<Rightarrow> pointer \<Rightarrow> server \<Rightarrow> server res" where
  "add_output_epoll_event w fd ptr s =
     (let (r, s) = epoll_ctl w EPOLL_CTL_ADD fd (OUTPUT_EVENTS, ptr) s
      in bind_res (CHECK (r = - 1) ''Failed to add output epoll event for IO-Thread'') (\<lambda>_. Inr s))"

definition mod_input_epoll_event :: "nat \<Rightarrow> int \<Rightarrow> pointer \<Rightarrow> server \<Rightarrow> server res" where
  "mod_input_epoll_event w fd ptr s =
     (let (r, s) = epoll_ctl w EPOLL_CTL_MOD fd (INPUT_EVENTS, ptr) s
      in bind_res (CHECK (r = - 1) ''Failed to modify input epoll event for IO-Thread'') (\<lambda>_. Inr s))"

definition mod_output_epoll_event :: "nat \<Rightarrow> int \<Rightarrow> pointer \<Rightarrow> server \<Rightarrow> server res" where
  "mod_output_epoll_event w fd ptr s =
     (let (r, s) = epoll_ctl w EPOLL_CTL_MOD fd (OUTPUT_EVENTS, ptr) s
      in bind_res (CHECK (r = - 1) ''Failed to modify output event for IO-Thread'') (\<lambda>_. Inr s))"

definition delete_epoll_event :: "nat \<Rightarrow> int \<Rightarrow> server \<Rightarrow> server res" where
  "delete_epoll_event w fd s =
     (let (r, s) = epoll_ctl w EPOLL_CTL_DEL fd (0, NULL) s
      in bind_res (CHECK (r = - 1) ''Failed to delete event for IO-Thread'') (\<lambda>_. Inr s))"

section \<open>Clients\<close>

definition try_parse_http_request ::
  "allocator \<Rightarrow> RequestContext \<Rightarrow> socket \<Rightarrow> (ReadState \<times> RequestContext \<times> socket) res" where
  "try_parse_http_request al rc k =
     (let prev_len = ib_offset (rc_input_buffer rc)
      in bind_res (input_buffer_read_into al (rc_input_buffer rc) k) (\<lambda>(read_state, ib, k).
           let rc = rc\<lparr>rc_input_buffer := ib\<rparr>
           in case read_state of
                READ_ERROR \<Rightarrow> Inr (read_state, rc, k)
              | CLIENT_DISCONNECT \<Rightarrow> Inr (read_state, rc, k)
              | _ \<Rightarrow>
                  bind_res (http_request_parse ib prev_len (rc_http_request rc)) (\<lambda>(parse_state, rq).
                    let rc = rc\<lparr>rc_http_request := rq\<rparr>
                    in Inr (case parse_state of
                              PARSE_FINISH \<Rightarrow> READ_FINISH
                            | PARSE_ERROR \<Rightarrow> READ_ERROR
                            | PARSE_INCOMPLETE \<Rightarrow> READ_BUSY, rc, k))))"

definition context_finalize_destroy :: "pointer \<Rightarrow> server \<Rightarrow> server res" where
  "context_finalize_destroy p s =
     bind_res (get_context s p) (\<lambda>rc.
       let (r, s) = close_fd (rc_fd rc) s
       in bind_res (CHECK (r \<noteq> 0) ''Failed to close client connection'') (\<lambda>_.
            Inr (s\<lparr>sv_contexts := (sv_contexts s)(p := None)\<rparr>)))"

definition client_close_connection :: "timespec \<Rightarrow> pointer \<Rightarrow> RequestResult \<Rightarrow> server \<Rightarrow> server res" where
  "client_close_connection now cp result s =
     bind_res (get_socket s cp) (\<lambda>context.
     bind_res (get_context s (data_ptr context)) (\<lambda>rc.
     bind_res (per_request_record_end now (rc_time_stats rc) TOTAL_TIME) (\<lambda>ts.
       let rc = rc\<lparr>rc_time_stats := ts\<rparr>;
           s = put_context (data_ptr context) rc s;
           s = s\<lparr>sv_stats := server_stats_decr_active_requests (sv_stats s)\<rparr>;
           s = s\<lparr>sv_stats := server_stats_incr_total_requests (sv_stats s)\<rparr>;
           s = s\<lparr>sv_stats := server_stats_record_request (sv_stats s) (rc_time_stats rc)\<rparr>
       in bind_res (delete_epoll_event (sc_epoll_info context) (rc_fd rc) s) (\<lambda>s.
          bind_res (context_finalize_destroy (data_ptr context) s) (free_socket cp)))))"

definition client_reset_connection :: "timespec \<Rightarrow> timespec \<Rightarrow> pointer \<Rightarrow> RequestResult \<Rightarrow> server \<Rightarrow> server res" where
  "client_reset_connection now now' cp result s =
     bind_res (get_socket s cp) (\<lambda>context.
     bind_res (get_context s (data_ptr context)) (\<lambda>rc.
     bind_res (per_request_record_end now (rc_time_stats rc) TOTAL_TIME) (\<lambda>ts.
       let rc = rc\<lparr>rc_time_stats := ts\<rparr>;
           s = s\<lparr>sv_stats := server_stats_incr_total_requests (sv_stats s)\<rparr>;
           s = s\<lparr>sv_stats := server_stats_record_request (sv_stats s) (rc_time_stats rc)\<rparr>;
           rc = context_finalize_reset rc
       in bind_res (per_request_record_start now' (rc_time_stats rc) TOTAL_TIME) (\<lambda>ts.
            let s = put_context (data_ptr context) (rc\<lparr>rc_time_stats := ts\<rparr>) s;
                context = context\<lparr>input_handler := Some H_client_read, output_handler := None,
                                  error_handler := Some H_client_error\<rparr>;
                s = put_socket cp context s
            in mod_input_epoll_event (sc_epoll_info context) (rc_fd rc) cp s))))"

definition enqueue_request :: "timespec \<Rightarrow> nat \<Rightarrow> pointer \<Rightarrow> server \<Rightarrow> server res" where
  "enqueue_request now w p s =
     (let actor_id = unat (sv_count s mod of_nat (sv_actor_count s));
          s = s\<lparr>sv_count := sv_count s + 1\<rparr>
      in if actor_id < sv_actor_count s \<and> w < sv_io_worker_count s then
           bind_res (get_context s p) (\<lambda>rc.
           bind_res (per_request_record_start now (rc_time_stats rc) QUEUE_TIME) (\<lambda>ts.
             let s = put_context p (rc\<lparr>rc_time_stats := ts\<rparr>) s
             in bind_res (mrmw_queue_push (sv_queues s actor_id w) p) (\<lambda>(queue_result, q).
                  let s = put_queue actor_id w q s
                  in bind_res (CHECK (queue_result \<noteq> QUEUE_SUCCESS) ''Failed to send message'') (\<lambda>_. Inr s))))
         else Inl Out_Of_Bounds)"

definition client_handle_read :: "allocator \<Rightarrow> (nat \<Rightarrow> timespec) \<Rightarrow> pointer \<Rightarrow> server \<Rightarrow> server res" where
  "client_handle_read al clk cp s =
     bind_res (get_socket s cp) (\<lambda>context.
     bind_res (get_context s (data_ptr context)) (\<lambda>rc.
     bind_res (per_request_record_start (clk 0) (rc_time_stats rc) CLIENT_READ_TIME) (\<lambda>ts.
     bind_res (get_fd s (rc_fd rc)) (\<lambda>k.
     bind_res (try_parse_http_request al (rc\<lparr>rc_time_stats := ts\<rparr>) k) (\<lambda>(state, rc, k).
     bind_res (per_request_record_end (clk 1) (rc_time_stats rc) CLIENT_READ_TIME) (\<lambda>ts.
       let s = put_fd (rc_fd rc) k (put_context (data_ptr context) (rc\<lparr>rc_time_stats := ts\<rparr>) s)
       in case state of
            READ_FINISH \<Rightarrow>
              bind_res (delete_epoll_event (sc_epoll_info context) (rc_fd rc) s) (\<lambda>s.
              bind_res (enqueue_request (clk 2) (sc_epoll_info context) (data_ptr context) s) (free_socket cp))
          | READ_ERROR \<Rightarrow> client_close_connection (clk 2) cp REQUEST_READ_ERROR s
          | CLIENT_DISCONNECT \<Rightarrow> client_close_connection (clk 2) cp REQUEST_CLIENT_ERROR s
          | READ_BUSY \<Rightarrow> Inr s))))))"

definition client_handle_write :: "(nat \<Rightarrow> timespec) \<Rightarrow> pointer \<Rightarrow> server \<Rightarrow> server res" where
  "client_handle_write clk cp s =
     bind_res (get_socket s cp) (\<lambda>context.
     bind_res (get_context s (data_ptr context)) (\<lambda>rc.
     bind_res (per_request_record_start (clk 0) (rc_time_stats rc) CLIENT_WRITE_TIME) (\<lambda>ts.
     bind_res (get_fd s (rc_fd rc)) (\<lambda>k.
     bind_res (output_buffer_write_to (rc_output_buffer rc) k) (\<lambda>(state, ob, k).
     bind_res (per_request_record_end (clk 1) ts CLIENT_WRITE_TIME) (\<lambda>ts.
       let rc = rc\<lparr>rc_output_buffer := ob, rc_time_stats := ts\<rparr>;
           s = put_fd (rc_fd rc) k (put_context (data_ptr context) rc s)
       in case state of
            WRITE_BUSY \<Rightarrow> Inr s
          | WRITE_ERROR \<Rightarrow> client_close_connection (clk 2) cp REQUEST_WRITE_ERROR s
          | WRITE_FINISH \<Rightarrow>
              bind_res (context_keep_alive rc) (\<lambda>alive.
                if alive = 1 then client_reset_connection (clk 2) (clk 3) cp REQUEST_SUCCESS s
                else client_close_connection (clk 2) cp REQUEST_SUCCESS s)))))))"

definition client_handle_error :: "timespec \<Rightarrow> pointer \<Rightarrow> 32 word \<Rightarrow> server \<Rightarrow> server res" where
  "client_handle_error now cp events s = client_close_connection now cp REQUEST_EPOLL_ERROR s"

section \<open>Actors\<close>

definition handle_request :: "allocator \<Rightarrow> RequestContext \<Rightarrow> RequestContext res" where
  "handle_request al rc =
     (let http_request = rc_http_request rc;
          text1 = dec (int (req_path_len http_request));
          size = int (length text1)
      in if length text1 + 1 > 10 then Inl Out_Of_Bounds
         else bind_res (CHECK (size \<le> 0) ''Failed to print content length string'') (\<lambda>_.
              bind_res (context_keep_alive rc) (\<lambda>alive.
                let content_length = \<lparr>hh_name = ascii ''Content-Length'' @ [0], hh_name_len = 14,
                      hh_value = text1 @ [0], hh_value_len = of_int size\<rparr>;
                    connection = (if alive = 1
                      then \<lparr>hh_name = ascii ''Connection'' @ [0], hh_name_len = 10,
                            hh_value = ascii ''keep-alive'' @ [0], hh_value_len = 10\<rparr>
                      else \<lparr>hh_name = ascii ''Connection'' @ [0], hh_name_len = 10,
                            hh_value = ascii ''close'' @ [0], hh_value_len = 5\<rparr>)
                in case req_path http_request of
                     None \<Rightarrow> Inl Dangling
                   | Some i \<Rightarrow>
                       bind_res (http_response_init al (rc_output_buffer rc) 200 [content_length, connection] 2
                                   (drop i (ib_buffer (rc_input_buffer rc))) (of_nat (req_path_len http_request)))
                         (\<lambda>ob. Inr (rc\<lparr>rc_output_buffer := ob\<rparr>)))))"

definition SIZEOF_SocketContext :: size_t where
  "SIZEOF_SocketContext = 48"

text \<open>
  \<^verbatim>\<open>init_context\<close>: \<^verbatim>\<open>malloc\<close> leaves the handlers and the data uninitialised; every caller
  assigns all of them before the context is registered.
\<close>

definition init_context :: "allocator \<Rightarrow> nat \<Rightarrow> SocketContext res" where
  "init_context al w =
     bind_res (CHECK_MEM (malloc al SIZEOF_SocketContext)) (\<lambda>_.
       Inr \<lparr>input_handler = None, output_handler = None, error_handler = None, data_ptr = NULL, sc_epoll_info = w\<rparr>)"

text \<open>The body of the loop of \<^verbatim>\<open>process_epoll_event\<close> over the announced requests; \<open>False\<close> is its early return.\<close>

definition actor_handle_one ::
  "allocator \<Rightarrow> (nat \<Rightarrow> timespec) \<Rightarrow> pointer list \<Rightarrow> nat \<Rightarrow> nat \<Rightarrow> server \<Rightarrow> (bool \<times> pointer list \<times> server) res" where
  "actor_handle_one al clk fr a w s =
     bind_res (mrmw_queue_pop (sv_queues s a w)) (\<lambda>(p, q).
       let s = put_queue a w q s
       in if p = NULL then Inr (False, fr, s)
          else bind_res (get_context s p) (\<lambda>rc.
               bind_res (per_request_record_end (clk 0) (rc_time_stats rc) QUEUE_TIME) (\<lambda>ts.
               bind_res (per_request_record_start (clk 1) ts ACTOR_TIME) (\<lambda>ts.
               bind_res (handle_request al (rc\<lparr>rc_actor_id := int a, rc_time_stats := ts\<rparr>)) (\<lambda>rc.
               bind_res (per_request_record_end (clk 2) (rc_time_stats rc) ACTOR_TIME) (\<lambda>ts.
                 let rc = rc\<lparr>rc_time_stats := ts\<rparr>;
                     s = put_context p rc s
                 in bind_res (init_context al (rc_epoll_info rc)) (\<lambda>output_context.
                      case fr of
                        [] \<Rightarrow> Inl OOM
                      | cp # fr \<Rightarrow>
                          let s = put_socket cp (output_context\<lparr>data_ptr := p, input_handler := None,
                                     output_handler := Some H_client_write, error_handler := Some H_client_error\<rparr>) s
                          in bind_res (add_output_epoll_event (rc_epoll_info rc) (rc_fd rc) cp s)
                               (\<lambda>s. Inr (True, fr, s)))))))))"

fun actor_loop ::
  "allocator \<Rightarrow> (nat \<Rightarrow> nat \<Rightarrow> timespec) \<Rightarrow> nat \<Rightarrow> nat \<Rightarrow> nat \<Rightarrow> pointer list \<Rightarrow> server \<Rightarrow>
     (bool \<times> pointer list \<times> server) res" where
  "actor_loop al clk a w 0 fr s = Inr (True, fr, s)"
| "actor_loop al clk a w (Suc n) fr s =
     bind_res (actor_handle_one al (clk n) fr a w s) (\<lambda>(continue, fr, s).
       if continue then actor_loop al clk a w n fr s else Inr (False, fr, s))"

text \<open>The \<^verbatim>\<open>while (1)\<close> around it, with fuel; running out of fuel is the outer \<open>None\<close>.\<close>

fun process_epoll_event ::
  "nat \<Rightarrow> allocator \<Rightarrow> (nat \<Rightarrow> nat \<Rightarrow> nat \<Rightarrow> timespec) \<Rightarrow> pointer list \<Rightarrow> nat \<Rightarrow> nat \<Rightarrow> server \<Rightarrow> server res option" where
  "process_epoll_event 0 al clk fr a w s = None"
| "process_epoll_event (Suc fuel) al clk fr a w s =
     (let (num_to_read, q) = mrmw_queue_event_read (sv_queues s a w);
          s = put_queue a w q s
      in case num_to_read of
           None \<Rightarrow> Some (Inr s)
         | Some n \<Rightarrow>
             if n = 0 then Some (Inr s)
             else case actor_loop al (clk fuel) a w (unat n) fr s of
                    Inl e \<Rightarrow> Some (Inl e)
                  | Inr (continue, fr, s) \<Rightarrow>
                      if continue then process_epoll_event fuel al clk fr a w s else Some (Inr s))"

section \<open>IO workers\<close>

text \<open>
  What \<^verbatim>\<open>accept\<close> returns: a connection (with its descriptor, its socket, the name of the
  host and the results of the two \<^verbatim>\<open>setsockopt\<close> and of \<^verbatim>\<open>getnameinfo\<close>), nothing more for now,
  or an error.
\<close>

datatype accept_result =
    Accept_Conn int socket string int int int
  | Accept_Block
  | Accept_Error

definition NI_MAXHOST :: size_t where
  "NI_MAXHOST = 1025"

definition accept_connection ::
  "allocator \<Rightarrow> timespec \<Rightarrow> pointer \<Rightarrow> pointer \<Rightarrow> nat \<Rightarrow> int \<Rightarrow> socket \<Rightarrow> string \<Rightarrow> int \<Rightarrow> int \<Rightarrow> int \<Rightarrow> server \<Rightarrow> server res" where
  "accept_connection al now p cp w fd k host nodelay quickack nameinfo s =
     (let s = put_fd fd k s
      in bind_res (CHECK (nodelay = - 1) ''Failed to set options on TCP_NODELAY'') (\<lambda>_.
         bind_res (CHECK (quickack = - 1) ''Failed to set options on TCP_QUICKACK'') (\<lambda>_.
         bind_res (CHECK_MEM (malloc al NI_MAXHOST)) (\<lambda>_.
         bind_res (CHECK (nameinfo = - 1) ''Failed to get host name'') (\<lambda>_.
           let s = s\<lparr>sv_stats := server_stats_incr_active_requests (sv_stats s)\<rparr>
           in bind_res (init_request_context al fd host w) (\<lambda>rc.
              bind_res (per_request_record_start now (rc_time_stats rc) TOTAL_TIME) (\<lambda>ts.
              bind_res (init_context al w) (\<lambda>connection_context.
                let s = put_context p (rc\<lparr>rc_time_stats := ts\<rparr>) s;
                    s = put_socket cp (connection_context\<lparr>data_ptr := p, input_handler := Some H_client_read,
                          output_handler := None, error_handler := Some H_client_error\<rparr>) s
                in add_input_epoll_event w fd cp s))))))))"

fun handle_accept_read ::
  "allocator \<Rightarrow> (nat \<Rightarrow> timespec) \<Rightarrow> pointer list \<Rightarrow> nat \<Rightarrow> accept_result list \<Rightarrow> server \<Rightarrow> server res" where
  "handle_accept_read al clk fr w (Accept_Conn fd k host nodelay quickack nameinfo # accs) s =
     (case fr of
        p # cp # fr' \<Rightarrow>
          bind_res (accept_connection al (clk 0) p cp w fd k host nodelay quickack nameinfo s) (\<lambda>s.
            handle_accept_read al (\<lambda>i. clk (Suc i)) fr' w accs s)
      | _ \<Rightarrow> Inl OOM)"
| "handle_accept_read al clk fr w (Accept_Error # accs) s = Inl (Exit_Failure ''Failed to accept connection'')"
| "handle_accept_read al clk fr w _ s = Inr s"

definition handle_accept_error :: "server \<Rightarrow> server res" where
  "handle_accept_error s = bind_res (CHECK True ''this should not happen'') (\<lambda>_. Inr s)"

fun call_handler ::
  "handler \<Rightarrow> allocator \<Rightarrow> (nat \<Rightarrow> timespec) \<Rightarrow> pointer list \<Rightarrow> accept_result list \<Rightarrow> nat \<Rightarrow> pointer \<Rightarrow> 32 word \<Rightarrow>
     server \<Rightarrow> server res" where
  "call_handler H_accept_read al clk fr accs w cp events s = handle_accept_read al clk fr w accs s"
| "call_handler H_accept_error al clk fr accs w cp events s = handle_accept_error s"
| "call_handler H_client_read al clk fr accs w cp events s = client_handle_read al clk cp s"
| "call_handler H_client_write al clk fr accs w cp events s = client_handle_write clk cp s"
| "call_handler H_client_error al clk fr accs w cp events s = client_handle_error (clk 0) cp events s"

definition has :: "32 word \<Rightarrow> 32 word \<Rightarrow> bool" where
  "has events flag \<longleftrightarrow> events AND flag \<noteq> 0"

text \<open>The body of the loop of \<^verbatim>\<open>io_event_loop\<close> over the reported events.\<close>

definition io_event ::
  "allocator \<Rightarrow> (nat \<Rightarrow> timespec) \<Rightarrow> pointer list \<Rightarrow> accept_result list \<Rightarrow> nat \<Rightarrow> pointer \<Rightarrow> 32 word \<Rightarrow> server \<Rightarrow> server res" where
  "io_event al clk fr accs w cp events s =
     bind_res (get_socket s cp) (\<lambda>socket_context.
       if has events EPOLLERR \<or> has events EPOLLRDHUP \<or> has events EPOLLHUP \<or> has events EPOLLPRI then
         (case error_handler socket_context of
            Some h \<Rightarrow> call_handler h al clk fr accs w cp events s
          | None \<Rightarrow> Inr s)
       else
         bind_res
           (if has events EPOLLIN then
              (case input_handler socket_context of
                 Some h \<Rightarrow> call_handler h al clk fr accs w cp events s
               | None \<Rightarrow> Inr s)
            else Inr s) (\<lambda>s.
           if has events EPOLLOUT then
             bind_res (get_socket s cp) (\<lambda>socket_context.
               case output_handler socket_context of
                 Some h \<Rightarrow> call_handler h al clk fr accs w cp events s
               | None \<Rightarrow> Inr s)
           else Inr s))"

text \<open>The start of \<^verbatim>\<open>io_event_loop\<close>: the listening socket is registered with its own context.\<close>

definition io_event_loop_start :: "allocator \<Rightarrow> pointer \<Rightarrow> nat \<Rightarrow> int \<Rightarrow> server \<Rightarrow> server res" where
  "io_event_loop_start al cp w sock_fd s =
     bind_res (init_context al w) (\<lambda>context.
       let s = put_socket cp (context\<lparr>data_ptr := word_of_int sock_fd, input_handler := Some H_accept_read,
                 output_handler := None, error_handler := Some H_accept_error\<rparr>) s
       in add_input_epoll_event w sock_fd cp s)"

end
