(* ===== verification/Connection.thy ===== *)
theory Connection
  imports Server
begin

text \<open>
  The handlers seen from one connection: what reading a request and answering it do to the
  request context, on every outcome. The theory of the whole server rests on these lemmas.
\<close>

section \<open>Reading a request\<close>

lemma parse_headers_array:
  "\<lbrakk>parse_headers m c hs n = (r, hs', n'); n \<le> m\<rbrakk> \<Longrightarrow> length hs' = length hs \<and> n' \<le> m"
proof (induction m c hs n rule: parse_headers_induct)
  case (Nil m p hs n)
  then show ?case by (auto simp: parse_headers_Nil)
next
  case (Cons m p x rest hs n)
  show ?case
  proof (cases "x = 13 \<or> x = 10 \<or> n = m \<or> \<not> n < length hs")
    case True
    then show ?thesis using Cons.prems by (auto simp: parse_headers_Cons split: if_splits)
  next
    case False
    obtain q h where l: "parse_header_line n (hs ! n) (p, x # rest) = (q, h)" by fastforce
    show ?thesis
    proof (cases q)
      case (Ok c')
      then show ?thesis
        using Cons.IH [of c' h] Cons.prems False l by (auto simp: parse_headers_Cons)
    qed (use Cons.prems False l in \<open>auto simp: parse_headers_Cons\<close>)
  qed
qed

lemma parse_request_array:
  assumes "parse_request m c rq = (r, rq')" and "req_num_headers rq \<le> m"
  shows "length (req_headers rq') = length (req_headers rq) \<and> req_num_headers rq' \<le> m"
proof -
  obtain q rq1 where l: "request_line c rq = (q, rq1)" by fastforce
  show ?thesis
  proof (cases q)
    case (Ok c')
    obtain t hs n where h: "parse_headers m c' (req_headers rq1) (req_num_headers rq1) = (t, hs, n)"
      by (metis prod_cases3)
    then show ?thesis
      using parse_headers_array [OF h] request_line_headers [OF l] assms l Ok by (auto simp: parse_request_eq)
  qed (use assms l request_line_headers [OF l] in \<open>auto simp: parse_request_eq\<close>)
qed

lemma request_line_path: "request_line c rq = (Ok c', rq') \<Longrightarrow> req_path rq' \<noteq> None"
  by (auto simp: request_line_def Let_def split: parse.splits prod.splits)

lemma http_request_parse_outcome:
  assumes "ib_wf b" and "unat prev_len \<le> length (ib_buffer b) + 3" and "length (req_headers rq) = NUM_HEADERS"
    and "req_num_headers rq \<le> NUM_HEADERS"
  shows "\<exists>st rq'. http_request_parse b prev_len rq = Inr (st, rq') \<and> length (req_headers rq') = NUM_HEADERS \<and>
     req_num_headers rq' \<le> NUM_HEADERS \<and>
     (st = PARSE_FINISH \<longrightarrow> request_within (length (ib_buffer b)) rq' \<and> req_path rq' \<noteq> None)"
proof -
  let ?m = "req_num_headers rq"
  let ?rq = "rq\<lparr>req_method := None, req_method_len := 0, req_path := None, req_path_len := 0,
                  req_minor_version := - 1, req_num_headers := 0\<rparr>"
  obtain r rq' where p: "parse_request ?m (0, ib_buffer b) ?rq = (r, rq')" by fastforce
  have a: "length (req_headers rq') = NUM_HEADERS" "req_num_headers rq' \<le> NUM_HEADERS"
    using parse_request_array [OF p] assms(3,4) by auto
  have sf: "safe r" using safe_parse_request [of ?m ?rq "(0, ib_buffer b)"] p assms(3,4) by simp
  show ?thesis
  proof (cases "check_last_len (ib_buffer b) (unat prev_len)")
    case (Ok u)
    show ?thesis
    proof (cases r)
      case (Ok c)
      have w: "reaches (0, ib_buffer b) c" "request_within (fst c) rq'"
        using parse_request_within [of ?m "(0, ib_buffer b)" ?rq c rq'] p Ok by auto
      have "fst c \<le> length (ib_buffer b)" using reaches_length [OF w(1)] by simp
      then have "request_within (length (ib_buffer b)) rq'"
        using w(2) by (auto simp: request_within_def intro: within_mono hdr_within_mono)
      moreover have "req_path rq' \<noteq> None"
        using p Ok request_line_path by (fastforce simp: parse_request_eq Let_def split: prod.splits parse.splits)
      ultimately show ?thesis
        using a p Ok \<open>check_last_len (ib_buffer b) (unat prev_len) = Ok u\<close>
        by (auto simp: http_request_parse_wf [OF assms(1)] phr_parse_request_def Let_def parse_result_def)
    qed (use a p sf \<open>check_last_len (ib_buffer b) (unat prev_len) = Ok u\<close> in
        \<open>auto simp: http_request_parse_wf [OF assms(1)] phr_parse_request_def Let_def parse_result_def\<close>)
  qed (use safe_check_last_len [OF assms(2)] assms(3) in
      \<open>auto simp: http_request_parse_wf [OF assms(1)] phr_parse_request_def Let_def\<close>)
qed

definition same_connection :: "RequestContext \<Rightarrow> RequestContext \<Rightarrow> bool" where
  "same_connection rc rc' \<longleftrightarrow> rc_fd rc' = rc_fd rc \<and> rc_epoll_info rc' = rc_epoll_info rc"

lemma input_buffer_read_into_grows:
  "\<lbrakk>ib_wf b; input_buffer_read_into al b k = Inr (st, b', k')\<rbrakk> \<Longrightarrow>
     unat (ib_offset b) \<le> length (ib_buffer b')"
proof -
  assume wf: "ib_wf b" and r: "input_buffer_read_into al b k = Inr (st, b', k')"
  have post: "ib_wf b'" "ib_contents b' = ib_contents b @ rx_data (rx k)"
    using input_buffer_read_into_post [OF wf r] by (simp_all add: read_into_post_def)
  have "unat (ib_offset b) = length (ib_contents b)" using length_ib_contents [OF wf] by simp
  also have "\<dots> \<le> length (ib_contents b')" using post(2) by simp
  also have "\<dots> \<le> length (ib_buffer b')" by (simp add: ib_contents_def)
  finally show ?thesis .
qed

lemma try_parse_outcome:
  assumes "rc_wf rc"
  shows "try_parse_http_request al rc k = Inl OOM \<or>
     (\<exists>st rc' k'. try_parse_http_request al rc k = Inr (st, rc', k') \<and> rc_wf rc' \<and> same_connection rc rc' \<and>
        rc_time_stats rc' = rc_time_stats rc \<and> rc_output_buffer rc' = rc_output_buffer rc \<and> (st = READ_FINISH \<longrightarrow> rc_parsed rc'))"
proof (cases "input_buffer_read_into al (rc_input_buffer rc) k")
  case (Inl e)
  have "ib_wf (rc_input_buffer rc)" using assms by (simp add: rc_wf_def)
  from input_buffer_read_into_fault [OF this Inl] Inl show ?thesis by (simp add: try_parse_http_request_def)
next
  case (Inr x)
  then obtain st ib k' where r: "input_buffer_read_into al (rc_input_buffer rc) k = Inr (st, ib, k')"
    by (cases x) auto
  have wf: "ib_wf (rc_input_buffer rc)" "length (req_headers (rc_http_request rc)) = NUM_HEADERS"
      "req_num_headers (rc_http_request rc) \<le> NUM_HEADERS"
    using assms by (simp_all add: rc_wf_def)
  have ib: "ib_wf ib" using input_buffer_read_into_post [OF wf(1) r] by (simp add: read_into_post_def)
  have "unat (ib_offset (rc_input_buffer rc)) \<le> length (ib_buffer ib) + 3"
    using input_buffer_read_into_grows [OF wf(1) r] by simp
  from http_request_parse_outcome [OF ib this wf(2,3)] obtain ps rq' where
    p: "http_request_parse ib (ib_offset (rc_input_buffer rc)) (rc_http_request rc) = Inr (ps, rq')"
      "length (req_headers rq') = NUM_HEADERS" "req_num_headers rq' \<le> NUM_HEADERS"
      "ps = PARSE_FINISH \<longrightarrow> request_within (length (ib_buffer ib)) rq' \<and> req_path rq' \<noteq> None"
    by blast
  then show ?thesis
    using assms r ib
    by (cases st; cases ps)
      (auto simp: try_parse_http_request_def Let_def rc_wf_def same_connection_def rc_parsed_def)
qed

section \<open>Answering a request\<close>

lemma length_dec: "\<lbrakk>n < 10 ^ Suc k; 0 \<le> n\<rbrakk> \<Longrightarrow> length (dec n) \<le> Suc k"
proof (induction k arbitrary: n)
  case (Suc k)
  then have "n div 10 < 10 ^ Suc k" "0 \<le> n div 10" by simp_all
  with Suc.IH show ?case by (cases "n < 10") (simp_all add: dec.simps [of n])
qed (simp add: dec.simps)

lemma dec_digits: "0 \<le> n \<Longrightarrow> 0 \<notin> set (dec n) \<and> dec n \<noteq> []"
proof (induction n rule: dec.induct)
  case (1 n)
  have digit: "48 + word_of_int d \<noteq> (0 :: byte)" if "0 \<le> d" "d < 10" for d
  proof -
    have "d = 0 \<or> d = 1 \<or> d = 2 \<or> d = 3 \<or> d = 4 \<or> d = 5 \<or> d = 6 \<or> d = 7 \<or> d = 8 \<or> d = 9" using that by presburger
    then show ?thesis by (elim disjE) simp_all
  qed
  show ?case using 1 digit [of n] digit [of "n mod 10"] by (subst dec.simps) (auto simp: dec.simps [of n] dest: sym)
qed

text \<open>The headers \<^verbatim>\<open>handle_request\<close> sends.\<close>

definition answer_headers :: "nat \<Rightarrow> bool \<Rightarrow> (byte list \<times> byte list) list" where
  "answer_headers path_len alive =
     [(ascii ''Content-Length'', dec (int path_len)),
      (ascii ''Connection'', if alive then ascii ''keep-alive'' else ascii ''close'')]"

definition wants_keep_alive :: "RequestContext \<Rightarrow> bool" where
  "wants_keep_alive rc \<longleftrightarrow> context_keep_alive rc = Inr 1"

definition answer_header_array :: "nat \<Rightarrow> bool \<Rightarrow> HttpHeader list" where
  "answer_header_array path_len alive =
     [\<lparr>hh_name = ascii ''Content-Length'' @ [0], hh_name_len = 14,
       hh_value = dec (int path_len) @ [0], hh_value_len = of_int (int (length (dec (int path_len))))\<rparr>,
      if alive
      then \<lparr>hh_name = ascii ''Connection'' @ [0], hh_name_len = 10, hh_value = ascii ''keep-alive'' @ [0], hh_value_len = 10\<rparr>
      else \<lparr>hh_name = ascii ''Connection'' @ [0], hh_name_len = 10, hh_value = ascii ''close'' @ [0], hh_value_len = 5\<rparr>]"

lemma length_answer_header_array [simp]: "length (answer_header_array path_len alive) = 2"
  by (simp add: answer_header_array_def)

lemma answer_literals:
  "format_s 14 (ascii ''Content-Length'' @ [0]) = Inr (ascii ''Content-Length'')"
  "format_s 10 (ascii ''Connection'' @ [0]) = Inr (ascii ''Connection'')"
  "format_s 10 (ascii ''keep-alive'' @ [0]) = Inr (ascii ''keep-alive'')"
  "format_s 5 (ascii ''close'' @ [0]) = Inr (ascii ''close'')"
  by (rule format_s_text; simp add: ascii_def INT_MAX_def)+

lemma answer_header_formats:
  assumes "path_len < 10 ^ 9"
  shows "list_all2 header_formats (answer_header_array path_len alive) (answer_headers path_len alive)"
proof -
  have "length (dec (int path_len)) \<le> 9" using length_dec [of "int path_len" 8] assms by simp
  then have "format_s (of_int (int (length (dec (int path_len))))) (dec (int path_len) @ [0]) = Inr (dec (int path_len))"
    using dec_digits [of "int path_len"] by (intro format_s_text) (simp_all add: INT_MAX_def)
  then show ?thesis
    by (simp add: answer_header_array_def answer_headers_def header_formats_def answer_literals)
qed

lemma handle_request_eq:
  assumes "rc_parsed rc" and "req_path (rc_http_request rc) = Some i" and "req_path_len (rc_http_request rc) < 10 ^ 9"
  shows "handle_request al rc =
     bind_res (http_response_init al (rc_output_buffer rc) 200
         (answer_header_array (req_path_len (rc_http_request rc)) (wants_keep_alive rc)) 2
         (drop i (ib_buffer (rc_input_buffer rc))) (of_nat (req_path_len (rc_http_request rc))))
       (\<lambda>ob. Inr (rc\<lparr>rc_output_buffer := ob\<rparr>))"
proof -
  let ?n = "req_path_len (rc_http_request rc)"
  have "length (dec (int ?n)) \<le> 9" "dec (int ?n) \<noteq> []"
    using length_dec [of "int ?n" 8] dec_digits [of "int ?n"] assms(3) by simp_all
  moreover obtain v where "context_keep_alive rc = Inr v" using context_keep_alive_result [OF assms(1)] by blast
  ultimately show ?thesis
    using assms(2) by (auto simp: handle_request_def Let_def CHECK_def answer_header_array_def wants_keep_alive_def)
qed

lemma format_s_path:
  assumes "rc_parsed rc" and "req_path (rc_http_request rc) = Some i" and "req_path_len (rc_http_request rc) < 10 ^ 9"
  shows "\<exists>bt. format_s (of_nat (req_path_len (rc_http_request rc))) (drop i (ib_buffer (rc_input_buffer rc))) = Inr bt \<and>
     length bt \<le> req_path_len (rc_http_request rc)"
proof -
  let ?n = "req_path_len (rc_http_request rc)" and ?m = "drop i (ib_buffer (rc_input_buffer rc))"
  have w: "?n \<le> length ?m" using assms(1,2) by (auto simp: rc_parsed_def request_within_def within_def)
  have "?n < 2 ^ 31" using assms(3) by simp
  then have "sint (ucast (of_nat ?n :: size_t) :: 32 word) = int ?n"
    using to_int32_small [of ?n] by (simp add: to_int32_def unsigned_of_nat take_bit_nat_eq_self)
  with w show ?thesis by (simp add: format_s_def)
qed

lemma answer_header_lengths:
  assumes "path_len < 10 ^ 9"
  shows "\<forall>p\<in>set (answer_headers path_len alive). length (print_header p) \<le> 27"
  using length_dec [of "int path_len" 8] assms by (auto simp: answer_headers_def print_header_def ascii_def)

lemma length_status_200: "length (status_line 200) = 17"
  by (simp add: status_line_def ascii_def get_reason_def dec_three)

lemma handle_request_outcome:
  assumes "rc_wf rc" and "rc_parsed rc" and "req_path_len (rc_http_request rc) < 10 ^ 9"
  shows "handle_request al rc = Inl OOM \<or>
     (\<exists>ob. handle_request al rc = Inr (rc\<lparr>rc_output_buffer := ob\<rparr>) \<and> ob_wf ob)"
proof -
  let ?n = "req_path_len (rc_http_request rc)"
  obtain i where i: "req_path (rc_http_request rc) = Some i" using assms(2) by (auto simp: rc_parsed_def)
  obtain bt where bt: "format_s (of_nat ?n) (drop i (ib_buffer (rc_input_buffer rc))) = Inr bt" "length bt \<le> ?n"
    using format_s_path [OF assms(2) i assms(3)] by blast
  have "\<forall>p\<in>set (answer_headers ?n (wants_keep_alive rc)). int (length (print_header p)) \<le> INT_MAX"
    using answer_header_lengths [OF assms(3)] by (fastforce simp: INT_MAX_def)
  moreover have "int (length bt) + 2 \<le> INT_MAX" using bt(2) assms(3) by (simp add: INT_MAX_def)
  moreover have "ob_wf (rc_output_buffer rc)" using assms(1) by (simp add: rc_wf_def)
  ultimately show ?thesis
    using http_response_init_outcome [OF _ answer_header_formats [OF assms(3), of "wants_keep_alive rc"] _ bt(1), of "rc_output_buffer rc" 2 200 al]
      handle_request_eq [OF assms(2) i assms(3), of al] length_status_200
    by (auto simp: INT_MAX_def)
qed

lemma dec_long: "10 ^ k \<le> n \<Longrightarrow> k < length (dec n)"
proof (induction k arbitrary: n)
  case (Suc k)
  then have "10 ^ k \<le> n div 10" using zdiv_mono1 [of "10 ^ Suc k" n 10] by simp
  moreover have "\<not> n < 10" using Suc.prems one_le_power [of "10 :: int" k] unfolding power_Suc by linarith
  ultimately show ?case using Suc.IH [of "n div 10"] by (simp add: dec.simps [of n])
qed (simp add: dec_digits)

text \<open>A path of a billion bytes or more: its length does not fit \<^verbatim>\<open>content_length_value\<close>.\<close>

lemma handle_request_overflow:
  assumes "10 ^ 9 \<le> req_path_len (rc_http_request rc)"
  shows "handle_request al rc = Inl Out_Of_Bounds"
  using dec_long [of 9 "int (req_path_len (rc_http_request rc))"] assms by (simp add: handle_request_def Let_def)

lemma handle_request_room:
  assumes "rc_wf rc" and "rc_parsed rc"
    and "path = bytes_at (ib_buffer (rc_input_buffer rc)) (req_path (rc_http_request rc)) (req_path_len (rc_http_request rc))"
    and "0 \<notin> set path" and "length path < 10 ^ 9"
    and "t = response_text 200
       [(ascii ''Content-Length'', dec (int (length path))),
        (ascii ''Connection'', if context_keep_alive rc = Inr 1 then ascii ''keep-alive'' else ascii ''close'')] path"
    and "length t < ob_free (rc_output_buffer rc)"
  shows "\<exists>ob. handle_request al rc = Inr (rc\<lparr>rc_output_buffer := ob\<rparr>) \<and> ob_wf ob \<and>
     ob_pending ob = ob_pending (rc_output_buffer rc) @ t"
proof -
  let ?n = "req_path_len (rc_http_request rc)" and ?m = "ib_buffer (rc_input_buffer rc)" and ?b = "rc_output_buffer rc"
  obtain i where i: "req_path (rc_http_request rc) = Some i" "i + ?n \<le> length ?m"
    using assms(2) by (auto simp: rc_parsed_def request_within_def within_def)
  have n: "?n < 10 ^ 9" "length path = ?n" using assms(3,5) i by (auto simp: bytes_at_def)
  have t: "t = response_text 200 (answer_headers ?n (wants_keep_alive rc)) path"
    using assms(6) n(2) by (simp add: answer_headers_def wants_keep_alive_def)
  have "drop i ?m = path @ drop (i + ?n) ?m"
    using i assms(3) by (simp add: bytes_at_def) (metis append_take_drop_id drop_drop add.commute)
  then have bt: "format_s (of_nat ?n) (drop i ?m) = Inr path"
    using format_s_text [of "of_nat ?n" path] n assms(4) by (simp add: INT_MAX_def)
  have small: "int (length t) \<le> INT_MAX"
    using answer_header_lengths [OF n(1), of "wants_keep_alive rc"] n length_status_200
    by (simp add: t response_text_def print_headers_def answer_headers_def INT_MAX_def)
  have wf: "ob_wf ?b" using assms(1) by (simp add: rc_wf_def)
  obtain ob where ob: "http_response_init al ?b 200 (answer_header_array ?n (wants_keep_alive rc)) 2
        (drop i ?m) (of_nat ?n) = Inr ob" "ob_wf ob" "ob_contents ob = ob_contents ?b @ t"
        "write_from_offset ob = write_from_offset ?b"
    using http_response_init_room [OF wf answer_header_formats [OF n(1), of "wants_keep_alive rc"] _ bt, of 2 200 al]
      assms(7) small t by auto
  have "unat (write_from_offset ?b) \<le> length (ob_contents ?b)" using wf by (simp add: length_ob_contents) (simp add: ob_wf_def word_le_nat_alt)
  then have "ob_pending ob = ob_pending ?b @ t" by (simp add: ob_pending_def ob)
  then show ?thesis using handle_request_eq [OF assms(2) i(1) n(1), of al] ob by auto
qed

end
