(* ===== verification/Startup.thy ===== *)
theory Startup
  imports Connection
begin

text \<open>
  src/main.c and src/stats_thread.c: the threads and queues the program starts with, and the
  figure the statistics thread computes. Return values of the thread and socket calls are
  arguments (\<open>ret i\<close> is the i-th one a function checks). The command line and the end of
  \<^verbatim>\<open>main\<close> are in the theory \<open>Command_Line\<close>; the start barrier is only initialised.
\<close>

section \<open>Sockets and threads\<close>

text \<open>A listening socket is returned with the port it is bound to.\<close>

definition create_socket :: "16 word \<Rightarrow> (nat \<Rightarrow> int) \<Rightarrow> (int \<times> 16 word) res" where
  "create_socket port ret =
     (let sock = ret 0
      in bind_res (CHECK (sock = - 1) ''Failed to get socket'') (\<lambda>_.
         bind_res (CHECK (ret 1 = - 1) ''Failed to set options on SO_REUSEPORT | SO_REUSEADDR'') (\<lambda>_.
         bind_res (CHECK (ret 2 = - 1) ''Failed to set options on TCP_NODELAY'') (\<lambda>_.
         bind_res (CHECK (ret 3 = - 1) ''Failed to set options on TCP_QUICKACK'') (\<lambda>_.
         bind_res (CHECK (ret 4 = - 1) ''bind failure'') (\<lambda>_.
         bind_res (CHECK (ret 5 \<noteq> 0) ''socket listen'') (\<lambda>_. Inr (sock, port))))))))"

text \<open>
  The name of a thread: \<^verbatim>\<open>calloc(1, sizeof(max_name_size))\<close> reserves the 8 bytes of a
  \<^verbatim>\<open>size_t\<close>, and \<^verbatim>\<open>snprintf\<close> may store up to \<^verbatim>\<open>max_name_size = 16\<close>, the final NUL included.
\<close>

definition thread_name :: "allocator \<Rightarrow> string \<Rightarrow> nat \<Rightarrow> byte list res" where
  "thread_name al prefix n =
     bind_res (CHECK_MEM (malloc al 8)) (\<lambda>_.
       mem_store (replicate 8 0) 0 (take 15 (ascii prefix @ format_d (int n)) @ [0]))"

text \<open>The loop of \<^verbatim>\<open>create_actor\<close>: a queue of 1024 requests for every IO worker.\<close>

fun init_queues :: "allocator \<Rightarrow> nat \<Rightarrow> MrmwQueue list res" where
  "init_queues al 0 = Inr []"
| "init_queues al (Suc n) =
     bind_res (mrmw_queue_init al 1024) (\<lambda>q. bind_res (init_queues al n) (\<lambda>qs. Inr (q # qs)))"

definition create_actor :: "allocator \<Rightarrow> (nat \<Rightarrow> int) \<Rightarrow> int \<Rightarrow> nat \<Rightarrow> MrmwQueue list res" where
  "create_actor al ret io_worker_count n =
     bind_res (CHECK_MEM (malloc al (word_of_int io_worker_count * 8))) (\<lambda>_.
     bind_res (init_queues al (nat io_worker_count)) (\<lambda>input_queue.
     bind_res (CHECK (ret 0 \<noteq> 0) ''Failed to create pthread'') (\<lambda>_.
     bind_res (CHECK (ret 1 \<noteq> 0) ''Failed to detach pthread'') (\<lambda>_.
     bind_res (thread_name al ''app-'' n) (\<lambda>_.
     bind_res (CHECK (ret 2 \<noteq> 0) ''Failed to set actor name'') (\<lambda>_.
     bind_res (CHECK (ret 3 \<noteq> 0) ''Failed to set cpu infinity'') (\<lambda>_. Inr input_queue)))))))"

definition SIZEOF_IoWorkerArgs :: size_t where
  "SIZEOF_IoWorkerArgs = 16"

definition create_io_worker :: "allocator \<Rightarrow> (nat \<Rightarrow> int) \<Rightarrow> nat \<Rightarrow> unit res" where
  "create_io_worker al ret n =
     bind_res (CHECK_MEM (malloc al SIZEOF_IoWorkerArgs)) (\<lambda>_.
     bind_res (CHECK (ret 0 \<noteq> 0) ''Failed to create input actor thread'') (\<lambda>_.
     bind_res (thread_name al ''io-'' n) (\<lambda>_.
     bind_res (CHECK (ret 1 \<noteq> 0) ''Failed to set input actor name'') (\<lambda>_. Inr ()))))"

definition create_stats :: "(nat \<Rightarrow> int) \<Rightarrow> unit res" where
  "create_stats ret =
     bind_res (CHECK (ret 0 \<noteq> 0) ''Failed to create stats thread'') (\<lambda>_.
     bind_res (CHECK (ret 1 \<noteq> 0) ''Failed to set stats thread name'') (\<lambda>_. Inr ()))"

text \<open>The two loops of \<^verbatim>\<open>main\<close>, from thread \<open>i\<close> on.\<close>

fun create_actors :: "allocator \<Rightarrow> (nat \<Rightarrow> nat \<Rightarrow> int) \<Rightarrow> int \<Rightarrow> nat \<Rightarrow> nat \<Rightarrow> MrmwQueue list list res" where
  "create_actors al ret io_worker_count i 0 = Inr []"
| "create_actors al ret io_worker_count i (Suc n) =
     bind_res (create_actor al (ret i) io_worker_count i) (\<lambda>qs.
     bind_res (create_actors al ret io_worker_count (Suc i) n) (\<lambda>qss. Inr (qs # qss)))"

fun create_io_workers :: "allocator \<Rightarrow> (nat \<Rightarrow> nat \<Rightarrow> int) \<Rightarrow> (nat \<Rightarrow> nat \<Rightarrow> int) \<Rightarrow> 16 word \<Rightarrow> nat \<Rightarrow> nat \<Rightarrow> (int \<times> 16 word) list res" where
  "create_io_workers al sret ret port i 0 = Inr []"
| "create_io_workers al sret ret port i (Suc n) =
     bind_res (create_socket port (sret i)) (\<lambda>sock_fd.
     bind_res (create_io_worker al (ret i) i) (\<lambda>_.
     bind_res (create_io_workers al sret ret port (Suc i) n) (\<lambda>fds. Inr (sock_fd # fds))))"

section \<open>The start\<close>

definition SIZEOF_ActorInfo :: size_t where
  "SIZEOF_ActorInfo = 40"

record thread_calls =
  barrier_ret :: int
  stats_ret :: "nat \<Rightarrow> int"
  actor_ret :: "nat \<Rightarrow> nat \<Rightarrow> int"
  socket_ret :: "nat \<Rightarrow> nat \<Rightarrow> int"
  worker_ret :: "nat \<Rightarrow> nat \<Rightarrow> int"

text \<open>
  \<^verbatim>\<open>main\<close> up to its \<^verbatim>\<open>pthread_join\<close>: the server and the listening sockets of the IO workers. The
  number of IO workers is the \<^verbatim>\<open>int\<close> of the command line; a negative one does not get past the
  first actor, whose array of queues is too large (\<open>main_start_workers\<close> below).
\<close>

definition main_start :: "allocator \<Rightarrow> thread_calls \<Rightarrow> int \<Rightarrow> 16 word \<Rightarrow> nat \<Rightarrow> (server \<times> (int \<times> 16 word) list) res" where
  "main_start al ret io_worker_count port cores =
     bind_res (server_stats_init al) (\<lambda>server_stats.
     bind_res (CHECK_MEM (malloc al (of_nat cores * SIZEOF_ActorInfo))) (\<lambda>_.
     bind_res (CHECK (barrier_ret ret \<noteq> 0) ''Failed to construct pthread barrier'') (\<lambda>_.
     bind_res (create_stats (stats_ret ret)) (\<lambda>_.
     bind_res (create_actors al (actor_ret ret) io_worker_count 0 cores) (\<lambda>app_actors.
     bind_res (create_io_workers al (socket_ret ret) (worker_ret ret) port 0 (nat io_worker_count)) (\<lambda>sock_fds.
       Inr (\<lparr>sv_stats = server_stats, sv_io_worker_count = nat io_worker_count, sv_actor_count = cores,
             sv_queues = \<lambda>actor_id queue_id. app_actors ! actor_id ! queue_id,
             sv_contexts = \<lambda>_. None, sv_sockets = \<lambda>_. None, sv_epolls = \<lambda>_ _. None, sv_fds = \<lambda>_. None,
             sv_count = 0\<rparr>, sock_fds)))))))"

section \<open>The start of an actor\<close>

text \<open>
  \<^verbatim>\<open>run_actor\<close> up to its loop. The event loop of an actor maps the event descriptors of its queues to the
  queues; \<open>event_fd i\<close> is \<^verbatim>\<open>queue_add_event_fd(input_queue[i])\<close>, which is -1 when \<^verbatim>\<open>eventfd\<close> failed in
  \<^verbatim>\<open>queue_init\<close>, where its result is not tested.
\<close>

type_synonym actor_epoll = "int \<rightharpoonup> (32 word \<times> nat)"

definition add_queue_event :: "int \<Rightarrow> nat \<Rightarrow> actor_epoll \<Rightarrow> actor_epoll res" where
  "add_queue_event fd queue_id ep =
     bind_res (CHECK (fd < 0 \<or> ep fd \<noteq> None) ''Failed to add input epoll event for actor-epoll'') (\<lambda>_.
       Inr (ep(fd \<mapsto> (INPUT_EVENTS, queue_id))))"

fun register_queues :: "(nat \<Rightarrow> int) \<Rightarrow> nat \<Rightarrow> nat \<Rightarrow> actor_epoll \<Rightarrow> actor_epoll res" where
  "register_queues event_fd i 0 ep = Inr ep"
| "register_queues event_fd i (Suc n) ep =
     bind_res (add_queue_event (event_fd i) i ep) (register_queues event_fd (Suc i) n)"

definition run_actor_start :: "allocator \<Rightarrow> int \<Rightarrow> nat \<Rightarrow> (nat \<Rightarrow> int) \<Rightarrow> nat \<Rightarrow> (EpollInfo \<times> actor_epoll) res" where
  "run_actor_start al epfd actor_id event_fd queue_count =
     bind_res (epoll_info_init al epfd ''actor-epoll'' actor_id) (\<lambda>epoll_info.
     bind_res (register_queues event_fd 0 queue_count Map.empty) (\<lambda>ep. Inr (epoll_info, ep)))"

lemma queue_fds_split:
  assumes "inj_on event_fd {i..<i + Suc n}" and "dom ep \<inter> event_fd ` {i..<i + Suc n} = {}"
  shows "inj_on event_fd {Suc i..<Suc i + n}" "dom (ep(event_fd i \<mapsto> e)) \<inter> event_fd ` {Suc i..<Suc i + n} = {}"
    "ep (event_fd i) = None" "event_fd i \<notin> event_fd ` {Suc i..<Suc i + n}" "{i..<i + Suc n} = insert i {Suc i..<Suc i + n}"
proof -
  show set: "{i..<i + Suc n} = insert i {Suc i..<Suc i + n}" by auto
  show "inj_on event_fd {Suc i..<Suc i + n}" "event_fd i \<notin> event_fd ` {Suc i..<Suc i + n}" using assms(1) unfolding set by auto
  with assms(2) show "dom (ep(event_fd i \<mapsto> e)) \<inter> event_fd ` {Suc i..<Suc i + n} = {}" "ep (event_fd i) = None"
    unfolding set by auto
qed

lemma register_queues_ok:
  assumes "inj_on event_fd {i..<i + n}" and "dom ep \<inter> event_fd ` {i..<i + n} = {}" and "\<forall>j\<in>{i..<i + n}. 0 \<le> event_fd j"
  shows "\<exists>ep'. register_queues event_fd i n ep = Inr ep' \<and> dom ep' = dom ep \<union> event_fd ` {i..<i + n} \<and>
     (\<forall>j\<in>{i..<i + n}. ep' (event_fd j) = Some (INPUT_EVENTS, j)) \<and> (\<forall>fd\<in>dom ep. ep' fd = ep fd)"
  using assms
proof (induction n arbitrary: i ep)
  case (Suc n)
  let ?ep = "ep(event_fd i \<mapsto> (INPUT_EVENTS, i))"
  note split = queue_fds_split [OF Suc.prems(1,2)]
  have "\<forall>j\<in>{Suc i..<Suc i + n}. 0 \<le> event_fd j" "0 \<le> event_fd i" using Suc.prems(3) unfolding split(5) by blast+
  with Suc.IH [OF split(1,2)] obtain ep' where ep': "register_queues event_fd (Suc i) n ?ep = Inr ep'"
      "dom ep' = dom ?ep \<union> event_fd ` {Suc i..<Suc i + n}" "\<forall>j\<in>{Suc i..<Suc i + n}. ep' (event_fd j) = Some (INPUT_EVENTS, j)"
      "\<forall>fd\<in>dom ?ep. ep' fd = ?ep fd" by blast
  have "\<forall>fd\<in>dom ep. ep' fd = ep fd" using ep'(4) split(3) by auto
  moreover have "ep' (event_fd i) = Some (INPUT_EVENTS, i)" using ep'(4) by simp
  ultimately show ?case using ep'(1-3) split(3) \<open>0 \<le> event_fd i\<close> unfolding split(5)
    by (intro exI [of _ ep']) (simp add: add_queue_event_def)
qed simp

lemma register_queues_fault:
  assumes "inj_on event_fd {i..<i + n}" and "dom ep \<inter> event_fd ` {i..<i + n} = {}" and "\<exists>j\<in>{i..<i + n}. event_fd j < 0"
  shows "register_queues event_fd i n ep = Inl (Exit_Failure ''Failed to add input epoll event for actor-epoll'')"
  using assms
proof (induction n arbitrary: i ep)
  case (Suc n)
  note split = queue_fds_split [OF Suc.prems(1,2)]
  show ?case
  proof (cases "event_fd i < 0")
    case False
    then have "\<exists>j\<in>{Suc i..<Suc i + n}. event_fd j < 0" using Suc.prems(3) unfolding split(5) by blast
    from Suc.IH [OF split(1,2) this, of "(INPUT_EVENTS, i)"] False split(3) show ?thesis by (simp add: add_queue_event_def fun_upd_def)
  qed (simp add: add_queue_event_def)
qed simp

text \<open>An actor waits on all its queues, each under its own index, or the process ends.\<close>

lemma run_actor_start_watches:
  assumes "malloc al SIZEOF_EpollInfo \<noteq> None" and "epfd \<noteq> - 1" and "inj_on event_fd {..<n}"
  shows "if \<forall>i<n. 0 \<le> event_fd i
     then \<exists>info ep. run_actor_start al epfd a event_fd n = Inr (info, ep) \<and> dom ep = event_fd ` {..<n} \<and>
       (\<forall>i<n. ep (event_fd i) = Some (INPUT_EVENTS, i))
     else run_actor_start al epfd a event_fd n = Inl (Exit_Failure ''Failed to add input epoll event for actor-epoll'')"
proof -
  have start: "run_actor_start al epfd a event_fd n =
      bind_res (register_queues event_fd 0 n Map.empty) (\<lambda>ep. Inr (\<lparr>epoll_fd = epfd, epoll_name = ''actor-epoll'', epoll_id = a\<rparr>, ep))"
    using assms(1,2) by (auto simp: run_actor_start_def epoll_info_init_def CHECK_MEM_def)
  have inj: "inj_on event_fd {0..<0 + n}" "dom Map.empty \<inter> event_fd ` {0..<0 + n} = {}" using assms(3) by (simp_all add: atLeast0LessThan)
  show ?thesis
  proof (cases "\<forall>i<n. 0 \<le> event_fd i")
    case True
    then show ?thesis using register_queues_ok [OF inj] unfolding start by (auto simp: atLeast0LessThan)
  next
    case False
    then have "\<exists>j\<in>{0..<0 + n}. event_fd j < 0" by force
    from register_queues_fault [OF inj this] False show ?thesis unfolding start by simp
  qed
qed

section \<open>Statistics\<close>

text \<open>\<^verbatim>\<open>queue_usage\<close>: the two loops over the queues, adding up their sizes.\<close>

fun queue_usage_actor :: "server \<Rightarrow> nat \<Rightarrow> nat \<Rightarrow> size_t \<Rightarrow> size_t res" where
  "queue_usage_actor s actor_id 0 sz = Inr sz"
| "queue_usage_actor s actor_id (Suc n) sz =
     bind_res (mrmw_queue_size (sv_queues s actor_id (sv_io_worker_count s - Suc n))) (\<lambda>(k, _).
       queue_usage_actor s actor_id n (sz + k))"

fun queue_usage_loop :: "server \<Rightarrow> nat \<Rightarrow> size_t \<Rightarrow> size_t res" where
  "queue_usage_loop s 0 sz = Inr sz"
| "queue_usage_loop s (Suc n) sz =
     bind_res (queue_usage_actor s (sv_actor_count s - Suc n) (sv_io_worker_count s) sz) (queue_usage_loop s n)"

definition queue_usage :: "server \<Rightarrow> size_t res" where
  "queue_usage s = queue_usage_loop s (sv_actor_count s) 0"

section \<open>Properties\<close>

lemma length_dec_iff: "0 \<le> n \<Longrightarrow> length (dec n) \<le> Suc k \<longleftrightarrow> n < 10 ^ Suc k"
proof
  assume n: "0 \<le> n" and len: "length (dec n) \<le> Suc k"
  show "n < 10 ^ Suc k"
  proof (rule ccontr)
    assume "\<not> n < 10 ^ Suc k"
    then have "10 ^ Suc k \<le> n" by simp
    from dec_long [OF this] len show False by simp
  qed
qed (rule length_dec)

text \<open>
  The name of an actor thread fits its buffer of 8 bytes exactly up to the id 999:
  from actor 1000 on, \<^verbatim>\<open>snprintf\<close> writes past the end of the allocation.
\<close>

lemma actor_name_overflow:
  assumes "malloc al 8 \<noteq> None"
  shows "thread_name al ''app-'' n = Inl Out_Of_Bounds \<longleftrightarrow> 1000 \<le> n"
proof -
  let ?d = "length (dec (int n))"
  have "thread_name al ''app-'' n = Inl Out_Of_Bounds \<longleftrightarrow> 8 < min 15 (4 + ?d) + 1"
    using assms by (auto simp: thread_name_def CHECK_MEM_def mem_store_def format_d_def ascii_def min_def)
  also have "\<dots> \<longleftrightarrow> \<not> ?d \<le> Suc 2" by (auto simp: min_def)
  also have "\<dots> \<longleftrightarrow> 1000 \<le> n" using length_dec_iff [of "int n" 2] by auto
  finally show ?thesis .
qed

lemma actor_name_overflow_example:
  "thread_name (\<lambda>_. Some (\<lambda>_. 0)) ''app-'' 1000 = Inl Out_Of_Bounds \<and>
   thread_name (\<lambda>_. Some (\<lambda>_. 0)) ''app-'' 999 \<noteq> Inl Out_Of_Bounds"
proof -
  have "malloc (\<lambda>_. Some (\<lambda>_. 0)) 8 \<noteq> None" by (simp add: malloc_def PTRDIFF_MAX_def)
  from actor_name_overflow [OF this] show ?thesis by simp
qed

end
