(* ===== verification/Command_Line.thy ===== *)
theory Command_Line
  imports Startup
begin

text \<open>
  The two ends of src/main.c: reading the command line, which is \<^verbatim>\<open>atoi\<close> on the two arguments
  without any test, and joining the last IO thread. Without an IO worker there is no thread
  to join and the variable that should hold it was never assigned.
\<close>

section \<open>Numbers of the command line\<close>

text \<open>
  \<^verbatim>\<open>atoi(s)\<close> is \<^verbatim>\<open>(int) strtol(s, NULL, 10)\<close>: white space, a sign, digits up to the first other
  character, the ends of \<^verbatim>\<open>long\<close> when they are exceeded, the low 32 bits of that.
\<close>

definition isspace :: "byte \<Rightarrow> bool" where
  "isspace c \<longleftrightarrow> c = 32 \<or> 9 \<le> c \<and> c \<le> 13"

definition isdigit :: "byte \<Rightarrow> bool" where
  "isdigit c \<longleftrightarrow> 48 \<le> c \<and> c \<le> 57"

fun digits :: "int \<Rightarrow> byte list \<Rightarrow> int" where
  "digits acc [] = acc"
| "digits acc (c # r) = (if isdigit c then digits (acc * 10 + (uint c - 48)) r else acc)"

definition signed_digits :: "byte list \<Rightarrow> int" where
  "signed_digits s =
     (case s of [] \<Rightarrow> 0 | c # r \<Rightarrow> if c = 45 then - digits 0 r else if c = 43 then digits 0 r else digits 0 s)"

definition strtol10 :: "byte list \<Rightarrow> int" where
  "strtol10 s = max (- (2 ^ 63)) (min (2 ^ 63 - 1) (signed_digits (dropWhile isspace s)))"

definition atoi :: "byte list \<Rightarrow> int" where
  "atoi s = sint (word_of_int (strtol10 s) :: 32 word)"

text \<open>The number of IO workers and the port.\<close>

definition main_args :: "byte list list \<Rightarrow> int \<times> 16 word" where
  "main_args argv =
     (if length argv = 3 then (atoi (argv ! 1), word_of_int (atoi (argv ! 2))) else (2, 8080))"

text \<open>
  \<^verbatim>\<open>main\<close> as a whole. \<open>sock_fds\<close> has one entry for every thread the loop created, and
  \<^verbatim>\<open>io_thread\<close> holds the last of them.
\<close>

definition main :: "allocator \<Rightarrow> thread_calls \<Rightarrow> int \<Rightarrow> nat \<Rightarrow> byte list list \<Rightarrow> (server \<times> (int \<times> 16 word) list) res" where
  "main al ret join_ret cores argv =
     (let (io_worker_count, port) = main_args argv
      in bind_res (main_start al ret io_worker_count port cores) (\<lambda>(server, sock_fds).
           bind_res (if sock_fds = [] then Inl Uninitialised else Inr ()) (\<lambda>_.
           bind_res (CHECK (join_ret \<noteq> 0) ''Failed to join on thread'') (\<lambda>_. Inr (server, sock_fds)))))"

section \<open>Reading back printed numbers\<close>

lemma digits_append: "\<forall>c\<in>set xs. isdigit c \<Longrightarrow> digits acc (xs @ ys) = digits (digits acc xs) ys"
  by (induction xs arbitrary: acc) auto

lemma decimal_byte:
  assumes "0 \<le> d" and "d < 10"
  shows "isdigit (48 + word_of_int d)" "uint (48 + word_of_int d :: byte) = 48 + d"
proof -
  show u: "uint (48 + word_of_int d :: byte) = 48 + d"
    using assms by (simp add: uint_word_ariths unsigned_of_int take_bit_int_eq_self mod_pos_pos_trivial)
  show "isdigit (48 + word_of_int d)"
    using assms by (simp add: isdigit_def word_le_def u)
qed

lemma digits_dec: "0 \<le> n \<Longrightarrow> (\<forall>c\<in>set (dec n). isdigit c) \<and> digits 0 (dec n) = n"
proof (induction n rule: dec.induct)
  case (1 n)
  show ?case
  proof (cases "n < 10")
    case True
    then show ?thesis using decimal_byte [of n] 1(2) by (simp add: dec.simps [of n])
  next
    case False
    then have "\<forall>c\<in>set (dec (n div 10)). isdigit c" "digits 0 (dec (n div 10)) = n div 10"
      using 1 by simp_all
    then show ?thesis using False decimal_byte [of "n mod 10"] by (simp add: dec.simps [of n] digits_append)
  qed
qed

lemma isdigit_plain: "isdigit c \<Longrightarrow> \<not> isspace c \<and> c \<noteq> 45 \<and> c \<noteq> 43"
  by (auto simp: isdigit_def isspace_def word_le_def)

lemma signed_digits_format: "signed_digits (dropWhile isspace (format_d n)) = n"
proof (cases "n < 0")
  case True
  then show ?thesis using digits_dec [of "- n"] by (simp add: format_d_def signed_digits_def isspace_def)
next
  case False
  then have d: "\<forall>c\<in>set (dec n). isdigit c" "digits 0 (dec n) = n" using digits_dec [of n] by simp_all
  obtain c r where c: "dec n = c # r" using dec_digits [of n] False by (cases "dec n") auto
  then have "\<not> isspace c" "c \<noteq> 45" "c \<noteq> 43" using d(1) isdigit_plain by auto
  then show ?thesis using c d(2) False by (simp add: format_d_def signed_digits_def)
qed

lemma atoi_format_d:
  assumes "- (2 ^ 31) \<le> n" and "n < 2 ^ 31"
  shows "atoi (format_d n) = n"
proof -
  have "strtol10 (format_d n) = n" using assms by (simp add: strtol10_def signed_digits_format)
  then show ?thesis using assms by (simp add: atoi_def signed_of_int signed_take_bit_int_eq_self)
qed

section \<open>The number of IO workers\<close>

lemma create_io_workers_ports: "create_io_workers al sret ret port i n = Inr fds \<Longrightarrow> map snd fds = replicate n port"
  by (induction n arbitrary: i fds) (auto simp: res_simps create_socket_def Let_def)

text \<open>With an actor to start, a negative number of IO workers asks for an array of at least \<open>2 ^ 63\<close> bytes.\<close>

lemma main_start_workers:
  assumes "main_start al ret W port cores = Inr (s, fds)" and "0 < cores" and "- (2 ^ 31) \<le> W"
  shows "0 \<le> W \<and> map snd fds = replicate (nat W) port"
proof
  show "map snd fds = replicate (nat W) port" using assms(1) by (auto simp: main_start_def res_simps dest: create_io_workers_ports)
  obtain c where "cores = Suc c" using assms(2) by (cases cores) auto
  then obtain qs where "create_actor al (actor_ret ret 0) W 0 = Inr qs" using assms(1) by (auto simp: main_start_def res_simps)
  then have "malloc al (word_of_int W * 8) \<noteq> None" by (auto simp: create_actor_def res_simps CHECK_MEM_def split: option.splits)
  then have "uint (word_of_int W * 8 :: size_t) \<le> 2 ^ 63 - 1" by (auto simp: malloc_def PTRDIFF_MAX_def word_le_def split: if_splits)
  moreover have "uint (word_of_int W * 8 :: size_t) = 2 ^ 64 + W * 8" if "W < 0"
  proof -
    have "word_of_int W * 8 = (word_of_int (W * 8) :: size_t)" by simp
    then have "uint (word_of_int W * 8 :: size_t) = (W * 8) mod 2 ^ 64" by (simp only: unsigned_of_int) (simp add: take_bit_eq_mod)
    also have "\<dots> = (W * 8 + 2 ^ 64) mod 2 ^ 64" by simp
    also have "\<dots> = 2 ^ 64 + W * 8" using that assms(3) by (subst mod_pos_pos_trivial) simp_all
    finally show ?thesis .
  qed
  ultimately show "0 \<le> W" using assms(3) by (cases "W < 0") simp_all
qed

text \<open>What can end the start: a failed call, no memory, or a thread name that overflows its buffer.\<close>

lemma start_faults:
  "mrmw_queue_init al n \<noteq> Inl Uninitialised" "init_queues al k \<noteq> Inl Uninitialised"
  "thread_name al pre i \<noteq> Inl Uninitialised" "create_actor al r W i \<noteq> Inl Uninitialised"
  "create_socket port r \<noteq> Inl Uninitialised" "create_io_worker al r i \<noteq> Inl Uninitialised"
proof -
  show q: "mrmw_queue_init al n \<noteq> Inl Uninitialised" for n by (simp add: mrmw_queue_init_def res_simps OOM_def)
  show i: "init_queues al k \<noteq> Inl Uninitialised" for k by (induction k) (simp_all add: res_simps q)
  show t: "thread_name al pre i \<noteq> Inl Uninitialised" for pre i by (simp add: thread_name_def res_simps OOM_def)
  show "create_actor al r W i \<noteq> Inl Uninitialised" by (simp add: create_actor_def res_simps OOM_def i t)
  show "create_socket port r \<noteq> Inl Uninitialised" by (simp add: create_socket_def res_simps Let_def)
  show "create_io_worker al r i \<noteq> Inl Uninitialised" by (simp add: create_io_worker_def res_simps OOM_def t)
qed

lemma main_start_fault: "main_start al ret W port cores \<noteq> Inl Uninitialised"
proof -
  have "create_actors al r W i n \<noteq> Inl Uninitialised" for r i n
    by (induction n arbitrary: i) (simp_all add: res_simps start_faults)
  moreover have "create_io_workers al sr r port i n \<noteq> Inl Uninitialised" for sr r i n
    by (induction n arbitrary: i) (simp_all add: res_simps start_faults)
  ultimately show ?thesis
    by (simp add: main_start_def server_stats_init_def create_stats_def res_simps OOM_def)
qed

section \<open>Properties\<close>

text \<open>
  The command line is read back. The numbers of a call \<^verbatim>\<open>jullop <workers> <port>\<close>, written
  in decimal, are the number of IO workers and the port, the port modulo \<open>2 ^ 16\<close>; with any
  other number of arguments there are two IO workers on port 8080.
\<close>

lemma main_args_roundtrip:
  assumes "- (2 ^ 31) \<le> workers" "workers < 2 ^ 31" "- (2 ^ 31) \<le> port" "port < 2 ^ 31" and "length argv \<noteq> 3"
  shows "main_args [prog, format_d workers, format_d port] = (workers, word_of_int port) \<and> main_args argv = (2, 8080)"
  using assms by (simp add: main_args_def atoi_format_d)

lemma main_args_roundtrip_example:
  "main_args [ascii ''jullop'', format_d 4, format_d 65616] = (4, 80) \<and> main_args [ascii ''jullop''] = (2, 8080)"
  using main_args_roundtrip [of 4 65616 "[ascii ''jullop'']" "ascii ''jullop''"] by simp

text \<open>
  Property C38: the server needs at least one IO worker, and \<^verbatim>\<open>main\<close> does not test for it. When
  it returns, it had as many listening sockets as the positive number of IO workers asked
  for, all bound to the port; asked for none, it never gets past the \<^verbatim>\<open>pthread_join\<close>: it ends in a
  failed call or joins a thread that is not there, and the latter happens whenever the start succeeds.
\<close>

theorem main_needs_worker:
  assumes "main_args argv = (workers, port)" and "- (2 ^ 31) \<le> workers" and "0 < cores"
  shows "case main al ret join_ret cores argv of
       Inr (s, fds) \<Rightarrow> 0 < workers \<and> map snd fds = replicate (nat workers) port \<and> sv_io_worker_count s = nat workers
     | Inl e \<Rightarrow> e = Uninitialised \<longleftrightarrow> workers = 0 \<and> (\<exists>s. main_start al ret 0 port cores = Inr (s, []))"
proof (cases "main_start al ret workers port cores")
  case (Inl e)
  then show ?thesis using assms(1) main_start_fault [of al ret workers port cores] by (auto simp: main_def)
next
  case (Inr r)
  obtain s fds where r: "r = (s, fds)" by (cases r)
  have w: "0 \<le> workers" "map snd fds = replicate (nat workers) port" "sv_io_worker_count s = nat workers"
    using main_start_workers [of al ret workers port cores s fds] assms Inr r by (auto simp: main_start_def res_simps)
  then have "fds = [] \<longleftrightarrow> workers = 0" by auto
  then show ?thesis using assms(1) Inr r w by (cases "workers = 0") (auto simp: main_def CHECK_def)
qed

theorem main_needs_worker_witness:
  "main (\<lambda>_. Some (\<lambda>_. 0)) \<lparr>barrier_ret = 0, stats_ret = \<lambda>_. 0, actor_ret = \<lambda>_ _. 0, socket_ret = \<lambda>_ _. 3, worker_ret = \<lambda>_ _. 0\<rparr>
     0 1 [ascii ''jullop'', ascii ''0'', ascii ''8080''] = Inl Uninitialised"
proof -
  let ?al = "\<lambda>_. Some (\<lambda>_. 0)" and ?argv = "[ascii ''jullop'', ascii ''0'', ascii ''8080'']"
  let ?ret = "\<lparr>barrier_ret = 0, stats_ret = \<lambda>_. 0, actor_ret = \<lambda>_ _. 0, socket_ret = \<lambda>_ _. 3, worker_ret = \<lambda>_ _. 0\<rparr>"
  have a: "main_args ?argv = (0, 8080)" by code_simp
  have name: "\<exists>m. thread_name ?al ''app-'' 0 = Inr m"
    by (simp add: thread_name_def CHECK_MEM_def malloc_def PTRDIFF_MAX_def mem_store_def ascii_def format_d_def dec.simps)
  then have "create_actor ?al (actor_ret ?ret 0) 0 0 = Inr []"
    by (auto simp: create_actor_def CHECK_MEM_def malloc_def PTRDIFF_MAX_def)
  then obtain s where "main_start ?al ?ret 0 8080 1 = Inr (s, [])"
    by (simp add: main_start_def server_stats_init_def CHECK_MEM_def malloc_def PTRDIFF_MAX_def SIZEOF_ServerWideStats_def
        SIZEOF_ActorInfo_def create_stats_def)
  with main_needs_worker [OF a, of 1 ?al ?ret 0] show ?thesis
    by (auto split: sum.splits)
qed

end
