(* ===== verification/Connection_Protocol.thy ===== *)
theory Connection_Protocol
  imports Main
begin

text \<open>
  The life of a client connection as README.md describes it, without buffers, event loops
  and threads: the server reads a request, an actor answers it, the server writes the answer
  and reads the next request or closes. This is the specification the server is shown to
  refine.
\<close>

section \<open>Phases\<close>

text \<open>A connection is being read from, waits for an actor, or is being written to.\<close>

datatype phase = Reading | Waiting | Writing

text \<open>
  The open connections and their phases. One step accepts any number of connections (none is
  a step that does not show), or moves one connection to its next phase, or closes one. A
  connection is never closed while an actor has it.
\<close>

inductive protocol_step :: "('c \<Rightarrow> phase option) \<Rightarrow> ('c \<Rightarrow> phase option) \<Rightarrow> bool" where
  accepts: "\<forall>c\<in>C. m c = None \<Longrightarrow> protocol_step m (\<lambda>c. if c \<in> C then Some Reading else m c)"
| request: "m c = Some Reading \<Longrightarrow> protocol_step m (m(c \<mapsto> Waiting))"
| answer: "m c = Some Waiting \<Longrightarrow> protocol_step m (m(c \<mapsto> Writing))"
| next_request: "m c = Some Writing \<Longrightarrow> protocol_step m (m(c \<mapsto> Reading))"
| closes: "m c = Some Reading \<or> m c = Some Writing \<Longrightarrow> protocol_step m (m(c := None))"

inductive_cases protocol_stepE: "protocol_step m m'"

lemma protocol_skip: "protocol_step m m"
  using protocol_step.accepts [of "{}" m] by simp

lemma protocol_same: "m' = m \<Longrightarrow> protocol_step m m'"
  by (simp add: protocol_skip)

section \<open>What the specification promises\<close>

text \<open>The moves of one connection.\<close>

definition may_follow :: "phase option \<Rightarrow> phase option \<Rightarrow> bool" where
  "may_follow x y \<longleftrightarrow> y = x \<or>
     (case x of None \<Rightarrow> y = Some Reading
      | Some Reading \<Rightarrow> y = Some Waiting \<or> y = None
      | Some Waiting \<Rightarrow> y = Some Writing
      | Some Writing \<Rightarrow> y = Some Reading \<or> y = None)"

lemma protocol_moves: "protocol_step m m' \<Longrightarrow> may_follow (m c) (m' c)"
  by (elim protocol_stepE) (auto simp: may_follow_def)

lemma may_follow_step: "may_follow (m c) y \<Longrightarrow> protocol_step m (m(c := y))"
proof -
  assume f: "may_follow (m c) y"
  show ?thesis
  proof (cases "y = m c")
    case True
    then show ?thesis by (simp add: protocol_skip)
  next
    case False
    have "m(c \<mapsto> Reading) = (\<lambda>x. if x \<in> {c} then Some Reading else m x)" by auto
    then show ?thesis
      using f False protocol_step.accepts [of "{c}" m] protocol_step.request [of m c] protocol_step.answer [of m c]
        protocol_step.next_request [of m c] protocol_step.closes [of m c]
      by (auto simp: may_follow_def split: option.splits phase.splits)
  qed
qed

text \<open>Connections are accepted and nothing else happens.\<close>

definition accepts_only :: "('c \<Rightarrow> phase option) \<Rightarrow> ('c \<Rightarrow> phase option) \<Rightarrow> bool" where
  "accepts_only m m' \<longleftrightarrow> (\<forall>c. m' c = m c \<or> m c = None \<and> m' c = Some Reading)"

lemma accepts_only_refl [simp]: "accepts_only m m"
  by (simp add: accepts_only_def)

lemma accepts_only_new: "m c = None \<Longrightarrow> accepts_only m (m(c \<mapsto> Reading))"
  by (simp add: accepts_only_def)

lemma accepts_only_trans: "\<lbrakk>accepts_only m m'; accepts_only m' m''\<rbrakk> \<Longrightarrow> accepts_only m m''"
  unfolding accepts_only_def by (metis option.distinct(1))

lemma accepts_only_step:
  assumes "accepts_only m m'"
  shows "protocol_step m m'"
proof -
  let ?C = "{c. m c = None \<and> m' c = Some Reading}"
  have "m' = (\<lambda>c. if c \<in> ?C then Some Reading else m c)"
    using assms unfolding accepts_only_def fun_eq_iff by auto
  then show ?thesis using protocol_step.accepts [of ?C m] by simp
qed

end
