(* ===== verification/Server_Invariant.thy ===== *)
theory Server_Invariant
  imports Connection Connection_Protocol
begin

text \<open>
  Who owns a request context. A live context is in one of three states: registered with
  the event loop of its IO worker for reading, registered there for writing, or waiting in
  exactly one queue of an actor, registered nowhere. \<open>server_inv\<close> says so for the whole
  memory of the server, in both directions, so that nothing dangles and nothing leaks.
  The frame rule \<open>core_frame\<close> reduces its preservation to the one connection an operation
  works on.
\<close>

section \<open>The invariant\<close>

definition reader :: "pointer \<Rightarrow> nat \<Rightarrow> SocketContext" where
  "reader p w = \<lparr>input_handler = Some H_client_read, output_handler = None, error_handler = Some H_client_error,
     data_ptr = p, sc_epoll_info = w\<rparr>"

definition writer :: "pointer \<Rightarrow> nat \<Rightarrow> SocketContext" where
  "writer p w = \<lparr>input_handler = None, output_handler = Some H_client_write, error_handler = Some H_client_error,
     data_ptr = p, sc_epoll_info = w\<rparr>"

definition acceptor :: "int \<Rightarrow> nat \<Rightarrow> SocketContext" where
  "acceptor fd w = \<lparr>input_handler = Some H_accept_read, output_handler = None, error_handler = Some H_accept_error,
     data_ptr = word_of_int fd, sc_epoll_info = w\<rparr>"

abbreviation registration :: "server \<Rightarrow> RequestContext \<Rightarrow> (32 word \<times> pointer) option" where
  "registration s rc \<equiv> sv_epolls s (rc_epoll_info rc) (rc_fd rc)"

abbreviation running :: "RequestContext \<Rightarrow> TimeType set" where
  "running rc \<equiv> prs_running (rc_time_stats rc)"

text \<open>Nothing of an earlier answer is left to write.\<close>

abbreviation drained :: "RequestContext \<Rightarrow> bool" where
  "drained rc \<equiv> ob_pending (rc_output_buffer rc) = []"

definition reading :: "server \<Rightarrow> pointer \<Rightarrow> RequestContext \<Rightarrow> pointer \<Rightarrow> bool" where
  "reading s p rc cp \<longleftrightarrow> registration s rc = Some (INPUT_EVENTS, cp) \<and>
     sv_sockets s cp = Some (reader p (rc_epoll_info rc)) \<and> running rc = {TOTAL_TIME} \<and> drained rc"

definition writing :: "server \<Rightarrow> pointer \<Rightarrow> RequestContext \<Rightarrow> pointer \<Rightarrow> bool" where
  "writing s p rc cp \<longleftrightarrow> registration s rc = Some (OUTPUT_EVENTS, cp) \<and>
     sv_sockets s cp = Some (writer p (rc_epoll_info rc)) \<and> running rc = {TOTAL_TIME} \<and> rc_parsed rc"

definition waiting_ok :: "server \<Rightarrow> RequestContext \<Rightarrow> bool" where
  "waiting_ok s rc \<longleftrightarrow> registration s rc = None \<and> running rc = {TOTAL_TIME, QUEUE_TIME} \<and> rc_parsed rc \<and> drained rc"

definition context_ok :: "server \<Rightarrow> pointer \<Rightarrow> RequestContext \<Rightarrow> bool" where
  "context_ok s p rc \<longleftrightarrow> p \<noteq> NULL \<and> rc_wf rc \<and> rc_epoll_info rc < sv_io_worker_count s \<and> sv_fds s (rc_fd rc) \<noteq> None \<and>
     ((\<exists>cp. reading s p rc cp \<or> writing s p rc cp) \<or> waiting_ok s rc)"

text \<open>A registration is that of a live context or that of a listening socket.\<close>

definition client_entry :: "server \<Rightarrow> nat \<Rightarrow> int \<Rightarrow> bool" where
  "client_entry s w fd \<longleftrightarrow> (\<exists>p rc. sv_contexts s p = Some rc \<and> rc_fd rc = fd \<and> rc_epoll_info rc = w)"

definition accept_entry :: "server \<Rightarrow> nat \<Rightarrow> int \<Rightarrow> 32 word \<Rightarrow> pointer \<Rightarrow> bool" where
  "accept_entry s w fd ev cp \<longleftrightarrow> ev = INPUT_EVENTS \<and> sv_sockets s cp = Some (acceptor fd w) \<and> 0 \<le> fd \<and> fd < 2 ^ 31 \<and>
     w < sv_io_worker_count s \<and> sv_fds s fd \<noteq> None \<and> (\<forall>p rc. sv_contexts s p = Some rc \<longrightarrow> rc_fd rc \<noteq> fd)"

text \<open>An open descriptor is that of a live context or that of a listening socket.\<close>

definition fd_owned :: "server \<Rightarrow> int \<Rightarrow> bool" where
  "fd_owned s fd \<longleftrightarrow> (\<exists>p rc. sv_contexts s p = Some rc \<and> rc_fd rc = fd) \<or>
     (\<exists>w ev cp. sv_epolls s w fd = Some (ev, cp) \<and> accept_entry s w fd ev cp)"

definition server_core :: "server \<Rightarrow> bool" where
  "server_core s \<longleftrightarrow>
     (\<forall>p rc. sv_contexts s p = Some rc \<longrightarrow> context_ok s p rc) \<and>
     (\<forall>p p' rc rc'. sv_contexts s p = Some rc \<longrightarrow> sv_contexts s p' = Some rc' \<longrightarrow> rc_fd rc = rc_fd rc' \<longrightarrow> p = p') \<and>
     (\<forall>w fd ev cp. sv_epolls s w fd = Some (ev, cp) \<longrightarrow> client_entry s w fd \<or> accept_entry s w fd ev cp) \<and>
     (\<forall>cp sc. sv_sockets s cp = Some sc \<longrightarrow> (\<exists>fd ev. sv_epolls s (sc_epoll_info sc) fd = Some (ev, cp))) \<and>
     (\<forall>fd. sv_fds s fd \<noteq> None \<longrightarrow> fd_owned s fd)"

definition waiting :: "server \<Rightarrow> pointer set" where
  "waiting s = {p. \<exists>rc. sv_contexts s p = Some rc \<and> registration s rc = None}"

definition queue_ids :: "server \<Rightarrow> (nat \<times> nat) set" where
  "queue_ids s = {..<sv_actor_count s} \<times> {..<sv_io_worker_count s}"

definition queued :: "server \<Rightarrow> pointer multiset" where
  "queued s = (\<Sum>(a, w)\<in>queue_ids s. mset (mq_items (sv_queues s a w)))"

text \<open>\<open>pend a w\<close> counts the requests an actor has read from the event counter and not yet popped.\<close>

type_synonym pending = "nat \<Rightarrow> nat \<Rightarrow> nat"

definition queues_ok :: "pending \<Rightarrow> server \<Rightarrow> bool" where
  "queues_ok pend s \<longleftrightarrow> (\<forall>(a, w)\<in>queue_ids s. mq_inv (sv_queues s a w) \<and>
     mq_notified (sv_queues s a w) + pend a w = length (mq_items (sv_queues s a w)))"

definition server_inv :: "pending \<Rightarrow> server \<Rightarrow> bool" where
  "server_inv pend s \<longleftrightarrow> server_core s \<and> queues_ok pend s \<and> finite (dom (sv_contexts s)) \<and>
     queued s = mset_set (waiting s) \<and>
     active_connections (sv_stats s) = of_nat (card (dom (sv_contexts s))) \<and>
     0 < sv_actor_count s \<and> sv_actor_count s < 2 ^ 31"

section \<open>Consequences\<close>

lemma finite_queue_ids [simp]: "finite (queue_ids s)"
  by (simp add: queue_ids_def)

lemma waiting_subset: "waiting s \<subseteq> dom (sv_contexts s)"
  by (auto simp: waiting_def)

lemma finite_waiting: "server_inv pend s \<Longrightarrow> finite (waiting s)"
  using waiting_subset by (auto simp: server_inv_def intro: finite_subset)

lemma socket_kinds [simp]:
  "reader p w \<noteq> writer p' w'" "reader p w \<noteq> acceptor fd w'" "writer p w \<noteq> acceptor fd w'"
  "acceptor fd w \<noteq> reader p w'" "acceptor fd w \<noteq> writer p w'" "writer p w \<noteq> reader p' w'"
  "reader p w = reader p' w' \<longleftrightarrow> p = p' \<and> w = w'" "writer p w = writer p' w' \<longleftrightarrow> p = p' \<and> w = w'"
  "sc_epoll_info (reader p w) = w" "sc_epoll_info (writer p w) = w" "sc_epoll_info (acceptor fd w) = w"
  "data_ptr (reader p w) = p" "data_ptr (writer p w) = p"
  by (simp_all add: reader_def writer_def acceptor_def)

lemma acceptor_inject:
  assumes "acceptor fd w = acceptor fd' w'" and "0 \<le> fd" "fd < 2 ^ 31" "0 \<le> fd'" "fd' < 2 ^ 31"
  shows "fd = fd'"
proof -
  have "uint (word_of_int fd :: pointer) = uint (word_of_int fd' :: pointer)" using assms(1) by (simp add: acceptor_def)
  with assms(2-) show ?thesis by (simp add: unsigned_of_int take_bit_int_eq_self)
qed

lemma core_context: "\<lbrakk>server_core s; sv_contexts s p = Some rc\<rbrakk> \<Longrightarrow> context_ok s p rc"
  by (auto simp: server_core_def)

lemma core_fd_owner:
  "\<lbrakk>server_core s; sv_contexts s p = Some rc; sv_contexts s p' = Some rc'; rc_fd rc = rc_fd rc'\<rbrakk> \<Longrightarrow> p = p'"
  unfolding server_core_def by blast

lemma core_entry:
  "\<lbrakk>server_core s; sv_epolls s w fd = Some (ev, cp)\<rbrakk> \<Longrightarrow> client_entry s w fd \<or> accept_entry s w fd ev cp"
  unfolding server_core_def by blast

lemma core_socket:
  "\<lbrakk>server_core s; sv_sockets s cp = Some sc\<rbrakk> \<Longrightarrow> \<exists>fd ev. sv_epolls s (sc_epoll_info sc) fd = Some (ev, cp)"
  unfolding server_core_def by blast

lemma core_fd_owned: "\<lbrakk>server_core s; sv_fds s fd \<noteq> None\<rbrakk> \<Longrightarrow> fd_owned s fd"
  unfolding server_core_def by blast

text \<open>A registered context is being read or written, through the socket context of its entry.\<close>

lemma context_registered:
  "\<lbrakk>context_ok s p rc; registration s rc = Some (ev, cp)\<rbrakk> \<Longrightarrow>
     reading s p rc cp \<and> ev = INPUT_EVENTS \<or> writing s p rc cp \<and> ev = OUTPUT_EVENTS"
  by (auto simp: context_ok_def reading_def writing_def waiting_ok_def)

lemma context_socket_worker:
  "\<lbrakk>context_ok s p rc; registration s rc = Some (ev, cp); sv_sockets s cp = Some sc\<rbrakk> \<Longrightarrow> sc_epoll_info sc = rc_epoll_info rc"
  by (drule (1) context_registered) (elim disjE conjE; simp add: reading_def writing_def)

lemma core_entry_cases:
  assumes "server_core s" and "sv_epolls s w fd = Some (ev, cp)"
  obtains (client) p rc where "sv_contexts s p = Some rc" "rc_fd rc = fd" "rc_epoll_info rc = w" "context_ok s p rc"
      "reading s p rc cp \<and> ev = INPUT_EVENTS \<or> writing s p rc cp \<and> ev = OUTPUT_EVENTS"
    | (accept) "accept_entry s w fd ev cp"
proof (cases "accept_entry s w fd ev cp")
  case False
  then obtain p rc where c: "sv_contexts s p = Some rc" "rc_fd rc = fd" "rc_epoll_info rc = w"
    using core_entry [OF assms] by (auto simp: client_entry_def)
  moreover have "context_ok s p rc" using core_context [OF assms(1) c(1)] .
  moreover have "registration s rc = Some (ev, cp)" using c assms(2) by simp
  ultimately show thesis using client context_registered by blast
qed

text \<open>Two entries never share a socket context.\<close>

definition entry_socket :: "server \<Rightarrow> nat \<Rightarrow> int \<Rightarrow> SocketContext \<Rightarrow> bool" where
  "entry_socket s w fd sc \<longleftrightarrow>
     (\<exists>p rc. sv_contexts s p = Some rc \<and> rc_fd rc = fd \<and> rc_epoll_info rc = w \<and> (sc = reader p w \<or> sc = writer p w)) \<or>
     sc = acceptor fd w \<and> 0 \<le> fd \<and> fd < 2 ^ 31"

lemma core_entry_socket:
  assumes "server_core s" and "sv_epolls s w fd = Some (ev, cp)"
  shows "\<exists>sc. sv_sockets s cp = Some sc \<and> entry_socket s w fd sc"
  using assms
proof (cases rule: core_entry_cases)
  case (client p rc)
  then have "sv_sockets s cp = Some (reader p w) \<or> sv_sockets s cp = Some (writer p w)"
    by (auto simp: reading_def writing_def)
  then show ?thesis using client(1-3) by (auto simp: entry_socket_def)
next
  case accept
  then show ?thesis by (auto simp: accept_entry_def entry_socket_def)
qed

lemma entry_socket_worker: "entry_socket s w fd sc \<Longrightarrow> sc_epoll_info sc = w"
  unfolding entry_socket_def by (elim disjE exE conjE) simp_all

lemma entry_socket_inject:
  assumes "entry_socket s w fd sc" and "entry_socket s w' fd' sc"
  shows "w = w' \<and> fd = fd'"
proof -
  have w: "w' = w" using entry_socket_worker assms by metis
  from assms(1) consider
    (client) p rc where "sv_contexts s p = Some rc" "rc_fd rc = fd" "sc = reader p w \<or> sc = writer p w"
    | (accept) "sc = acceptor fd w" "0 \<le> fd" "fd < 2 ^ 31"
    unfolding entry_socket_def by blast
  then have "fd = fd'"
  proof cases
    case client
    with assms(2) w show ?thesis unfolding entry_socket_def by (elim disjE exE conjE) simp_all
  next
    case accept
    with assms(2) w show ?thesis
      unfolding entry_socket_def using acceptor_inject [of fd w fd' w] by (elim disjE exE conjE) simp_all
  qed
  with w show ?thesis by simp
qed

lemma core_entry_inject:
  assumes "server_core s" and "sv_epolls s w fd = Some (ev, cp)" and "sv_epolls s w' fd' = Some (ev', cp)"
  shows "w = w' \<and> fd = fd'"
  using core_entry_socket [OF assms(1,2)] core_entry_socket [OF assms(1,3)] entry_socket_inject by fastforce

section \<open>The frame rule\<close>

text \<open>
  An operation on the connection with context \<open>p\<close>, descriptor \<open>fd\<close> and socket context \<open>cp\<close>
  leaves the rest of the memory alone.
\<close>

definition agree_except :: "pointer \<Rightarrow> int \<Rightarrow> pointer \<Rightarrow> server \<Rightarrow> server \<Rightarrow> bool" where
  "agree_except p fd cp s s' \<longleftrightarrow>
     sv_io_worker_count s' = sv_io_worker_count s \<and> sv_actor_count s' = sv_actor_count s \<and>
     (\<forall>p'. p' \<noteq> p \<longrightarrow> sv_contexts s' p' = sv_contexts s p') \<and>
     (\<forall>w fd'. fd' \<noteq> fd \<longrightarrow> sv_epolls s' w fd' = sv_epolls s w fd') \<and>
     (\<forall>cp'. cp' \<noteq> cp \<longrightarrow> sv_sockets s' cp' = sv_sockets s cp') \<and>
     (\<forall>fd'. fd' \<noteq> fd \<longrightarrow> sv_fds s' fd' = sv_fds s fd')"

text \<open>The three are the connection's own: no other part of the memory refers to them.\<close>

definition exclusive :: "server \<Rightarrow> pointer \<Rightarrow> int \<Rightarrow> pointer \<Rightarrow> bool" where
  "exclusive s p fd cp \<longleftrightarrow>
     (\<forall>p' rc. sv_contexts s p' = Some rc \<longrightarrow> (rc_fd rc = fd \<longleftrightarrow> p' = p)) \<and>
     (\<forall>w ev cp'. \<not> (sv_epolls s w fd = Some (ev, cp') \<and> accept_entry s w fd ev cp')) \<and>
     (\<forall>w fd' ev. sv_epolls s w fd' = Some (ev, cp) \<longrightarrow> fd' = fd) \<and>
     (\<forall>w ev cp'. sv_epolls s w fd = Some (ev, cp') \<longrightarrow> cp' = cp)"

text \<open>The phase of a connection in the specification: what it is registered for.\<close>

definition phase_of :: "server \<Rightarrow> pointer \<Rightarrow> phase option" where
  "phase_of s p =
     (case sv_contexts s p of
        None \<Rightarrow> None
      | Some rc \<Rightarrow> Some (case registration s rc of
            None \<Rightarrow> Waiting
          | Some (ev, cp) \<Rightarrow> if has ev EPOLLOUT then Writing else Reading))"

lemma event_masks [simp]:
  "has INPUT_EVENTS EPOLLOUT = False" "has OUTPUT_EVENTS EPOLLIN = False" "has INPUT_EVENTS EPOLLIN" "has OUTPUT_EVENTS EPOLLOUT"
  by (simp_all add: has_def INPUT_EVENTS_def OUTPUT_EVENTS_def epoll_flags)

lemma event_kinds [simp]: "INPUT_EVENTS \<noteq> OUTPUT_EVENTS" "OUTPUT_EVENTS \<noteq> INPUT_EVENTS"
  using event_masks(1,4) by metis+

lemma phase_gone: "sv_contexts s p = None \<Longrightarrow> phase_of s p = None"
  by (simp add: phase_of_def)

lemma phase_reading: "\<lbrakk>sv_contexts s p = Some rc; reading s p rc cp\<rbrakk> \<Longrightarrow> phase_of s p = Some Reading"
  by (simp add: phase_of_def reading_def)

lemma phase_writing: "\<lbrakk>sv_contexts s p = Some rc; writing s p rc cp\<rbrakk> \<Longrightarrow> phase_of s p = Some Writing"
  by (simp add: phase_of_def writing_def)

lemma phase_waiting: "\<lbrakk>sv_contexts s p = Some rc; registration s rc = None\<rbrakk> \<Longrightarrow> phase_of s p = Some Waiting"
  by (simp add: phase_of_def)

lemma phase_cong: "\<lbrakk>sv_contexts s' = sv_contexts s; sv_epolls s' = sv_epolls s\<rbrakk> \<Longrightarrow> phase_of s' = phase_of s"
  by (intro ext) (simp add: phase_of_def split: option.split)

lemma phase_frame:
  assumes "agree_except p fd cp s s'" and "exclusive s p fd cp"
  shows "phase_of s' = (phase_of s)(p := phase_of s' p)"
proof
  fix p'
  show "phase_of s' p' = ((phase_of s)(p := phase_of s' p)) p'"
  proof (cases "p' = p")
    case False
    have "rc_fd rc \<noteq> fd" if "sv_contexts s p' = Some rc" for rc using that False assms(2) by (auto simp: exclusive_def)
    then show ?thesis using False assms(1) by (auto simp: phase_of_def agree_except_def split: option.splits)
  qed simp
qed

text \<open>The connection itself afterwards: it is gone, or its context is in one of the three states.\<close>

definition connection_ok :: "server \<Rightarrow> pointer \<Rightarrow> int \<Rightarrow> pointer \<Rightarrow> bool" where
  "connection_ok s p fd cp \<longleftrightarrow>
     (case sv_contexts s p of
        None \<Rightarrow> (\<forall>w. sv_epolls s w fd = None) \<and> sv_sockets s cp = None \<and> sv_fds s fd = None
      | Some rc \<Rightarrow> rc_fd rc = fd \<and> context_ok s p rc \<and> (\<forall>w. w \<noteq> rc_epoll_info rc \<longrightarrow> sv_epolls s w fd = None) \<and>
          (if registration s rc = None then sv_sockets s cp = None else \<exists>ev. registration s rc = Some (ev, cp)))"

lemma context_ok_frame:
  assumes "server_core s" and "agree_except p fd cp s s'" and "exclusive s p fd cp"
    and "sv_contexts s p' = Some rc" and "p' \<noteq> p"
  shows "context_ok s' p' rc"
proof -
  have ok: "context_ok s p' rc" using core_context assms(1,4) by blast
  have fd: "rc_fd rc \<noteq> fd" using assms(3-5) by (auto simp: exclusive_def)
  have cp: "cp' \<noteq> cp" if "registration s rc = Some (ev, cp')" for ev cp'
    using that fd assms(3) unfolding exclusive_def by metis
  show ?thesis
    using ok fd cp assms(2)
    by (fastforce simp: context_ok_def reading_def writing_def waiting_ok_def agree_except_def)
qed

text \<open>The parts of the invariant, after a handler of the connection \<open>p\<close>.\<close>

lemma frame_contexts:
  assumes "server_core s" and "agree_except p fd cp s s'" and "exclusive s p fd cp" and "connection_ok s' p fd cp"
  shows "\<And>q rc. \<lbrakk>sv_contexts s q = Some rc; rc_fd rc \<noteq> fd\<rbrakk> \<Longrightarrow> sv_contexts s' q = Some rc"
    and "\<And>q rc. \<lbrakk>sv_contexts s' q = Some rc; q \<noteq> p\<rbrakk> \<Longrightarrow> sv_contexts s q = Some rc \<and> rc_fd rc \<noteq> fd"
    and "\<And>rc. sv_contexts s' p = Some rc \<Longrightarrow> rc_fd rc = fd \<and> context_ok s' p rc"
  using assms(2-4) by (auto simp: agree_except_def exclusive_def connection_ok_def)

lemma frame_accept:
  assumes "server_core s" and "agree_except p fd cp s s'" and "exclusive s p fd cp" and "connection_ok s' p fd cp"
    and a: "accept_entry s w fd' ev cp'" "sv_epolls s w fd' = Some (ev, cp')" "fd' \<noteq> fd"
  shows "accept_entry s' w fd' ev cp' \<and> sv_epolls s' w fd' = Some (ev, cp')"
proof -
  note f = frame_contexts [OF assms(1-4)]
  have cp: "cp' \<noteq> cp" using a(2,3) assms(3) unfolding exclusive_def by metis
  have "rc_fd rc \<noteq> fd'" if "sv_contexts s' q = Some rc" for q rc
    using that f(2,3) a(1,3) unfolding accept_entry_def by metis
  then show ?thesis using a cp assms(2) by (auto simp: accept_entry_def agree_except_def)
qed

lemma frame_entry:
  assumes "server_core s" and "agree_except p fd cp s s'" and "exclusive s p fd cp" and "connection_ok s' p fd cp"
    and e: "sv_epolls s' w fd' = Some (ev, cp')"
  shows "client_entry s' w fd' \<or> accept_entry s' w fd' ev cp'"
proof (cases "fd' = fd")
  case True
  then obtain rc where rc: "sv_contexts s' p = Some rc"
    using assms(4) e by (cases "sv_contexts s' p") (simp_all add: connection_ok_def)
  then have "rc_fd rc = fd" "w \<noteq> rc_epoll_info rc \<longrightarrow> sv_epolls s' w fd = None"
    using assms(4) by (simp_all add: connection_ok_def)
  then show ?thesis using rc e True by (auto simp: client_entry_def)
next
  case False
  then have e0: "sv_epolls s w fd' = Some (ev, cp')" using e assms(2) by (simp add: agree_except_def)
  from core_entry [OF assms(1) e0] show ?thesis
  proof
    assume "client_entry s w fd'"
    then show ?thesis using frame_contexts(1) [OF assms(1-4)] False unfolding client_entry_def by metis
  next
    assume "accept_entry s w fd' ev cp'"
    then show ?thesis using frame_accept [OF assms(1-4) _ e0 False] by blast
  qed
qed

lemma frame_owned:
  assumes "server_core s" and "agree_except p fd cp s s'" and "exclusive s p fd cp" and "connection_ok s' p fd cp"
    and o: "sv_fds s' fd' \<noteq> None"
  shows "fd_owned s' fd'"
proof (cases "fd' = fd")
  case True
  then obtain rc where rc: "sv_contexts s' p = Some rc"
    using assms(4) o by (cases "sv_contexts s' p") (auto simp: connection_ok_def)
  then show ?thesis using frame_contexts(3) [OF assms(1-4)] True unfolding fd_owned_def by blast
next
  case False
  then have "sv_fds s fd' \<noteq> None" using o assms(2) unfolding agree_except_def by metis
  from core_fd_owned [OF assms(1) this] show ?thesis
    using frame_contexts(1) [OF assms(1-4)] frame_accept [OF assms(1-4)] False unfolding fd_owned_def by metis
qed

lemma frame_socket:
  assumes "server_core s" and "agree_except p fd cp s s'" and "exclusive s p fd cp" and "connection_ok s' p fd cp"
    and sc: "sv_sockets s' cp' = Some sc"
  shows "\<exists>fd ev. sv_epolls s' (sc_epoll_info sc) fd = Some (ev, cp')"
proof (cases "cp' = cp")
  case True
  obtain rc where rc: "sv_contexts s' p = Some rc" "registration s' rc \<noteq> None" "context_ok s' p rc"
      "\<exists>ev. registration s' rc = Some (ev, cp)"
    using assms(4) sc True by (auto simp: connection_ok_def split: option.splits if_splits)
  then have "sc_epoll_info sc = rc_epoll_info rc"
    using sc True context_socket_worker by blast
  then show ?thesis using rc(4) True by auto
next
  case False
  then have "sv_sockets s cp' = Some sc" using sc assms(2) by (simp add: agree_except_def)
  from core_socket [OF assms(1) this] obtain fd' ev where e: "sv_epolls s (sc_epoll_info sc) fd' = Some (ev, cp')" by blast
  then have "fd' \<noteq> fd" using False assms(3) unfolding exclusive_def by metis
  then have "sv_epolls s' (sc_epoll_info sc) fd' = Some (ev, cp')" using e assms(2) by (simp add: agree_except_def)
  then show ?thesis by blast
qed

lemma core_frame:
  assumes "server_core s" and "agree_except p fd cp s s'" and "exclusive s p fd cp" and "connection_ok s' p fd cp"
  shows "server_core s'"
  unfolding server_core_def
proof (intro conjI allI impI)
  note f = frame_contexts [OF assms]
  show "context_ok s' q rc" if "sv_contexts s' q = Some rc" for q rc
    using that f(2,3) context_ok_frame [OF assms(1-3)] by (cases "q = p") blast+
  show "p1 = p2" if "sv_contexts s' p1 = Some rc1" "sv_contexts s' p2 = Some rc2" "rc_fd rc1 = rc_fd rc2" for p1 p2 rc1 rc2
    using that f(2,3) core_fd_owner [OF assms(1)] by metis
qed (fact frame_entry [OF assms] frame_owned [OF assms] frame_socket [OF assms])+

section \<open>What a connection owns\<close>

lemma entries_of_context:
  assumes "server_core s" and "sv_contexts s p = Some rc" and "sv_epolls s w (rc_fd rc) = Some (ev, cp)"
  shows "w = rc_epoll_info rc \<and> \<not> accept_entry s w (rc_fd rc) ev cp"
proof -
  have na: "\<not> accept_entry s w (rc_fd rc) ev cp" using assms(2) by (auto simp: accept_entry_def)
  then obtain p' rc' where c: "sv_contexts s p' = Some rc'" "rc_fd rc' = rc_fd rc" "rc_epoll_info rc' = w"
    using core_entry [OF assms(1,3)] by (auto simp: client_entry_def)
  then have "p' = p" using core_fd_owner [OF assms(1)] assms(2) by blast
  then show ?thesis using c assms(2) na by simp
qed

lemma exclusive_context:
  assumes "server_core s" and "sv_contexts s p = Some rc"
    and "\<And>w fd ev. sv_epolls s w fd = Some (ev, cp) \<Longrightarrow> fd = rc_fd rc"
    and "\<And>ev cp'. registration s rc = Some (ev, cp') \<Longrightarrow> cp' = cp"
  shows "exclusive s p (rc_fd rc) cp"
proof -
  have "rc_fd rc' = rc_fd rc \<longleftrightarrow> p' = p" if "sv_contexts s p' = Some rc'" for p' rc'
    using that assms(2) core_fd_owner [OF assms(1) that assms(2)] by auto
  moreover have "cp' = cp" if "sv_epolls s w (rc_fd rc) = Some (ev, cp')" for w ev cp'
    using that entries_of_context [OF assms(1,2) that] assms(4) by blast
  ultimately show ?thesis
    unfolding exclusive_def using assms(3) entries_of_context [OF assms(1,2)] by blast
qed

lemma exclusive_registered:
  assumes "server_core s" and "sv_contexts s p = Some rc" and "registration s rc = Some (ev, cp)"
  shows "exclusive s p (rc_fd rc) cp"
proof (rule exclusive_context [OF assms(1,2)])
  show "fd = rc_fd rc" if "sv_epolls s w fd = Some (ev', cp)" for w fd ev'
    using core_entry_inject [OF assms(1) that assms(3)] by simp
qed (use assms(3) in simp)

lemma fresh_socket_no_entry: "\<lbrakk>server_core s; sv_sockets s cp = None\<rbrakk> \<Longrightarrow> sv_epolls s w fd \<noteq> Some (ev, cp)"
  using core_entry_socket by fastforce

lemma exclusive_waiting:
  assumes "server_core s" and "sv_contexts s p = Some rc" and "registration s rc = None" and "sv_sockets s cp = None"
  shows "exclusive s p (rc_fd rc) cp"
  by (rule exclusive_context [OF assms(1,2)]) (use fresh_socket_no_entry [OF assms(1,4)] assms(3) in auto)

lemma closed_fd_unused:
  assumes "server_core s" and "sv_fds s fd = None"
  shows "sv_epolls s w fd = None" and "sv_contexts s p = Some rc \<Longrightarrow> rc_fd rc \<noteq> fd"
proof -
  show c: "rc_fd rc \<noteq> fd" if "sv_contexts s p = Some rc" for p rc
    using core_context [OF assms(1) that] assms(2) by (auto simp: context_ok_def)
  show "sv_epolls s w fd = None"
  proof (cases "sv_epolls s w fd")
    case (Some e)
    then have "client_entry s w fd \<or> accept_entry s w fd (fst e) (snd e)"
      using core_entry [OF assms(1), of w fd "fst e" "snd e"] by simp
    then show ?thesis using c assms(2) by (auto simp: client_entry_def accept_entry_def)
  qed
qed

lemma exclusive_new:
  assumes "server_core s" and "sv_contexts s p = None" and "sv_sockets s cp = None" and "sv_fds s fd = None"
  shows "exclusive s p fd cp"
  using closed_fd_unused [OF assms(1,4)] fresh_socket_no_entry [OF assms(1,3)] assms(2)
  unfolding exclusive_def by auto

section \<open>The frame rule for the whole invariant\<close>

lemma waiting_frame:
  assumes "agree_except p fd cp s s'" and "exclusive s p fd cp" and "p' \<noteq> p"
  shows "p' \<in> waiting s' \<longleftrightarrow> p' \<in> waiting s"
proof -
  have c: "sv_contexts s' p' = sv_contexts s p'" using assms(1,3) by (simp add: agree_except_def)
  have "registration s' rc = registration s rc" if "sv_contexts s p' = Some rc" for rc
  proof -
    have "rc_fd rc \<noteq> fd" using that assms(2,3) by (auto simp: exclusive_def)
    then show ?thesis using assms(1) by (simp add: agree_except_def)
  qed
  then show ?thesis using c by (auto simp: waiting_def)
qed

lemma mset_set_change:
  assumes "finite A" and "\<And>x. x \<noteq> p \<Longrightarrow> x \<in> B \<longleftrightarrow> x \<in> A"
  shows "mset_set B + (if p \<in> A then {#p#} else {#}) = mset_set A + (if p \<in> B then {#p#} else {#})"
proof -
  have "finite (insert p A)" using assms(1) by simp
  then have fin: "finite B" using assms(2) by (rule_tac finite_subset [of B "insert p A"]) auto
  show ?thesis
    by (rule multiset_eqI) (use assms fin in \<open>auto simp: count_mset_set'\<close>)
qed

lemma card_change:
  assumes "finite A" and "\<And>x. x \<noteq> p \<Longrightarrow> x \<in> B \<longleftrightarrow> x \<in> A"
  shows "finite B \<and> card B + (if p \<in> A then 1 else 0) = card A + (if p \<in> B then 1 else 0)"
proof -
  have fin: "finite B" using assms by (rule_tac finite_subset [of B "insert p A"]) auto
  have "size (mset_set B + (if p \<in> A then {#p#} else {#})) = size (mset_set A + (if p \<in> B then {#p#} else {#}))"
    using mset_set_change [OF assms] by simp
  then show ?thesis using fin by (auto split: if_splits)
qed

lemma inv_frame:
  assumes inv: "server_inv pend s" and fr: "agree_except p fd cp s s'" "exclusive s p fd cp" "connection_ok s' p fd cp"
    and qs: "queues_ok pend' s'"
    and qd: "queued s' + (if p \<in> waiting s then {#p#} else {#}) = queued s + (if p \<in> waiting s' then {#p#} else {#})"
    and act: "active_connections (sv_stats s') + (if p \<in> dom (sv_contexts s) then 1 else 0) =
      active_connections (sv_stats s) + (if p \<in> dom (sv_contexts s') then 1 else 0)"
  shows "server_inv pend' s'"
proof -
  have s: "server_core s" "finite (dom (sv_contexts s))" "queued s = mset_set (waiting s)"
      "active_connections (sv_stats s) = of_nat (card (dom (sv_contexts s)))"
      "0 < sv_actor_count s" "sv_actor_count s < 2 ^ 31"
    using inv by (simp_all add: server_inv_def)
  have core: "server_core s'" using core_frame s(1) fr by blast
  have "queued s' + (if p \<in> waiting s then {#p#} else {#}) = mset_set (waiting s') + (if p \<in> waiting s then {#p#} else {#})"
    using qd s(3) mset_set_change [OF finite_waiting [OF inv] waiting_frame [OF fr(1,2)]] by simp
  then have w: "queued s' = mset_set (waiting s')" by simp
  have d: "x \<in> dom (sv_contexts s') \<longleftrightarrow> x \<in> dom (sv_contexts s)" if "x \<noteq> p" for x
    using that fr(1) by (auto simp: agree_except_def dom_def)
  note c = card_change [OF s(2) d]
  have "of_nat (card (dom (sv_contexts s')) + (if p \<in> dom (sv_contexts s) then 1 else 0)) =
      (of_nat (card (dom (sv_contexts s)) + (if p \<in> dom (sv_contexts s') then 1 else 0)) :: 64 word)"
    using c by simp
  then have "active_connections (sv_stats s') = of_nat (card (dom (sv_contexts s')))"
    using act s(4) by (simp split: if_splits) (metis add_right_imp_eq)
  then show ?thesis
    using core qs w c s(5,6) fr(1) by (simp add: server_inv_def agree_except_def)
qed

section \<open>Queues\<close>

lemma put_queue_fields [simp]:
  "sv_io_worker_count (put_queue a w q s) = sv_io_worker_count s" "sv_actor_count (put_queue a w q s) = sv_actor_count s"
  "sv_contexts (put_queue a w q s) = sv_contexts s" "sv_sockets (put_queue a w q s) = sv_sockets s"
  "sv_epolls (put_queue a w q s) = sv_epolls s" "sv_fds (put_queue a w q s) = sv_fds s"
  "sv_stats (put_queue a w q s) = sv_stats s" "sv_count (put_queue a w q s) = sv_count s"
  "sv_queues (put_queue a w q s) a' w' = (if a' = a \<and> w' = w then q else sv_queues s a' w')"
  by (simp_all add: put_queue_def)

lemma queue_ids_cong:
  "\<lbrakk>sv_actor_count s' = sv_actor_count s; sv_io_worker_count s' = sv_io_worker_count s\<rbrakk> \<Longrightarrow> queue_ids s' = queue_ids s"
  by (simp add: queue_ids_def)

lemma queued_change:
  assumes "(a, w) \<in> queue_ids s" and "queue_ids s' = queue_ids s"
    and "\<And>a' w'. (a', w') \<noteq> (a, w) \<Longrightarrow> sv_queues s' a' w' = sv_queues s a' w'"
  shows "queued s' + mset (mq_items (sv_queues s a w)) = queued s + mset (mq_items (sv_queues s' a w))"
proof -
  let ?f = "\<lambda>s x. mset (mq_items (sv_queues s (fst x) (snd x)))"
  have rest: "sum (?f s') (queue_ids s - {(a, w)}) = sum (?f s) (queue_ids s - {(a, w)})"
    by (rule sum.cong) (use assms(3) in \<open>auto simp: prod_eq_iff\<close>)
  have "queued s' = ?f s' (a, w) + sum (?f s') (queue_ids s - {(a, w)})"
    using sum.remove [OF finite_queue_ids assms(1), of "?f s'"] assms(2) by (simp add: queued_def case_prod_beta)
  moreover have "queued s = ?f s (a, w) + sum (?f s) (queue_ids s - {(a, w)})"
    using sum.remove [OF finite_queue_ids assms(1), of "?f s"] by (simp add: queued_def case_prod_beta)
  ultimately show ?thesis using rest by (simp add: ac_simps)
qed

lemma queued_cong: "\<lbrakk>queue_ids s' = queue_ids s; sv_queues s' = sv_queues s\<rbrakk> \<Longrightarrow> queued s' = queued s"
  by (simp add: queued_def)

lemma queues_ok_cong: "\<lbrakk>queue_ids s' = queue_ids s; sv_queues s' = sv_queues s\<rbrakk> \<Longrightarrow> queues_ok pend s' = queues_ok pend s"
  by (simp add: queues_ok_def)

end
