(* ===== verification/Server_Handlers.thy ===== *)
theory Server_Handlers
  imports Server_Invariant
begin

text \<open>
  Every handler of the server keeps \<open>server_inv\<close>: reading a request, handing it to an actor,
  answering it, writing the answer, keeping the connection or closing it, accepting a new one.
  A handler either returns, having changed its own connection only, or ends the process for
  one of the reasons \<open>resource_fault\<close> and \<open>accept_fault\<close> list.
\<close>

section \<open>Outcomes\<close>

definition resource_fault :: "fault \<Rightarrow> bool" where
  "resource_fault e \<longleftrightarrow> e = OOM \<or> e = Exit_Failure ''Failed to send message''"

definition accept_fault :: "fault \<Rightarrow> bool" where
  "accept_fault e \<longleftrightarrow> e = OOM \<or> e \<in> Exit_Failure `
     {''Failed to accept connection'', ''Failed to set options on TCP_NODELAY'', ''Failed to set options on TCP_QUICKACK'',
      ''Failed to get host name'', ''this should not happen''}"

text \<open>
  A handler of the connection of \<open>p\<close> fails for lack of resources or keeps the invariant, leaves
  the other connections alone and leaves its own in one of the phases \<open>F\<close>.
\<close>

definition handler_ok :: "pending \<Rightarrow> server \<Rightarrow> pointer \<Rightarrow> int \<Rightarrow> pointer \<Rightarrow> phase option set \<Rightarrow> server res \<Rightarrow> bool" where
  "handler_ok pend s p fd cp F r \<longleftrightarrow>
     (case r of Inl e \<Rightarrow> resource_fault e
      | Inr s' \<Rightarrow> server_inv pend s' \<and> agree_except p fd cp s s' \<and> phase_of s' p \<in> F)"

lemma handler_ok_mono: "\<lbrakk>handler_ok pend s p fd cp F r; F \<subseteq> F'\<rbrakk> \<Longrightarrow> handler_ok pend s p fd cp F' r"
  by (auto simp: handler_ok_def split: sum.splits)

lemma agree_except_trans:
  "\<lbrakk>agree_except p fd cp s s'; agree_except p fd cp s' s''\<rbrakk> \<Longrightarrow> agree_except p fd cp s s''"
  by (auto simp: agree_except_def)

lemma handler_ok_trans:
  "\<lbrakk>agree_except p fd cp s s'; handler_ok pend s' p fd cp F r\<rbrakk> \<Longrightarrow> handler_ok pend s p fd cp F r"
  using agree_except_trans by (auto simp: handler_ok_def split: sum.splits)

section \<open>The fields of the memory\<close>

lemma put_context_fields [simp]:
  "sv_io_worker_count (put_context p rc s) = sv_io_worker_count s" "sv_actor_count (put_context p rc s) = sv_actor_count s"
  "sv_contexts (put_context p rc s) = (sv_contexts s)(p \<mapsto> rc)" "sv_sockets (put_context p rc s) = sv_sockets s"
  "sv_epolls (put_context p rc s) = sv_epolls s" "sv_fds (put_context p rc s) = sv_fds s"
  "sv_stats (put_context p rc s) = sv_stats s" "sv_count (put_context p rc s) = sv_count s"
  "sv_queues (put_context p rc s) = sv_queues s"
  by (simp_all add: put_context_def)

lemma put_fd_fields [simp]:
  "sv_io_worker_count (put_fd fd k s) = sv_io_worker_count s" "sv_actor_count (put_fd fd k s) = sv_actor_count s"
  "sv_contexts (put_fd fd k s) = sv_contexts s" "sv_sockets (put_fd fd k s) = sv_sockets s"
  "sv_epolls (put_fd fd k s) = sv_epolls s" "sv_fds (put_fd fd k s) = (sv_fds s)(fd \<mapsto> k)"
  "sv_stats (put_fd fd k s) = sv_stats s" "sv_count (put_fd fd k s) = sv_count s"
  "sv_queues (put_fd fd k s) = sv_queues s"
  by (simp_all add: put_fd_def)

lemma put_socket_fields [simp]:
  "sv_io_worker_count (put_socket cp sc s) = sv_io_worker_count s" "sv_actor_count (put_socket cp sc s) = sv_actor_count s"
  "sv_contexts (put_socket cp sc s) = sv_contexts s" "sv_sockets (put_socket cp sc s) = (sv_sockets s)(cp \<mapsto> sc)"
  "sv_epolls (put_socket cp sc s) = sv_epolls s" "sv_fds (put_socket cp sc s) = sv_fds s"
  "sv_stats (put_socket cp sc s) = sv_stats s" "sv_count (put_socket cp sc s) = sv_count s"
  "sv_queues (put_socket cp sc s) = sv_queues s"
  by (simp_all add: put_socket_def)

lemma set_epoll_fields [simp]:
  "sv_io_worker_count (set_epoll w fd r s) = sv_io_worker_count s" "sv_actor_count (set_epoll w fd r s) = sv_actor_count s"
  "sv_contexts (set_epoll w fd r s) = sv_contexts s" "sv_sockets (set_epoll w fd r s) = sv_sockets s"
  "sv_fds (set_epoll w fd r s) = sv_fds s" "sv_stats (set_epoll w fd r s) = sv_stats s"
  "sv_count (set_epoll w fd r s) = sv_count s" "sv_queues (set_epoll w fd r s) = sv_queues s"
  "sv_epolls (set_epoll w fd r s) w' fd' = (if w' = w \<and> fd' = fd then r else sv_epolls s w' fd')"
  by (simp_all add: set_epoll_def)

lemma record_request_active [simp]: "active_connections (server_stats_record_request st ts) = active_connections st"
  by (simp add: server_stats_record_request_def Let_def ATOMIC_ADD_def)

text \<open>What \<^verbatim>\<open>epoll_ctl\<close> answers when the descriptor is open and its registration is as expected.\<close>

lemma epoll_calls:
  assumes "sv_fds s fd \<noteq> None"
  shows "sv_epolls s w fd = None \<Longrightarrow> add_input_epoll_event w fd cp s = Inr (set_epoll w fd (Some (INPUT_EVENTS, cp)) s)"
    and "sv_epolls s w fd = None \<Longrightarrow> add_output_epoll_event w fd cp s = Inr (set_epoll w fd (Some (OUTPUT_EVENTS, cp)) s)"
    and "sv_epolls s w fd \<noteq> None \<Longrightarrow> mod_input_epoll_event w fd cp s = Inr (set_epoll w fd (Some (INPUT_EVENTS, cp)) s)"
    and "sv_epolls s w fd \<noteq> None \<Longrightarrow> delete_epoll_event w fd s = Inr (set_epoll w fd None s)"
  using assms
  by (auto simp: add_input_epoll_event_def add_output_epoll_event_def mod_input_epoll_event_def
      delete_epoll_event_def epoll_ctl_def)

section \<open>A registered connection\<close>

text \<open>The premises the handlers of a registered connection share.\<close>

definition registered :: "pending \<Rightarrow> server \<Rightarrow> pointer \<Rightarrow> RequestContext \<Rightarrow> pointer \<Rightarrow> SocketContext \<Rightarrow> bool" where
  "registered pend s p rc cp sc \<longleftrightarrow> server_inv pend s \<and> sv_contexts s p = Some rc \<and>
     sv_sockets s cp = Some sc \<and> data_ptr sc = p \<and> sc_epoll_info sc = rc_epoll_info rc \<and>
     (reading s p rc cp \<or> writing s p rc cp)"

lemma registeredD:
  assumes "registered pend s p rc cp sc"
  shows "server_inv pend s" "server_core s" "sv_contexts s p = Some rc" "sv_sockets s cp = Some sc" "data_ptr sc = p"
    "sc_epoll_info sc = rc_epoll_info rc" "registration s rc \<noteq> None" "running rc = {TOTAL_TIME}" "rc_wf rc"
    "sv_fds s (rc_fd rc) \<noteq> None" "p \<noteq> NULL" "rc_epoll_info rc < sv_io_worker_count s"
    "exclusive s p (rc_fd rc) cp" "p \<notin> waiting s" "\<And>w. w \<noteq> rc_epoll_info rc \<Longrightarrow> sv_epolls s w (rc_fd rc) = None"
    "reading s p rc cp \<or> writing s p rc cp"
proof -
  show inv: "server_inv pend s" and core: "server_core s" and c: "sv_contexts s p = Some rc"
    and "sv_sockets s cp = Some sc" "data_ptr sc = p" "sc_epoll_info sc = rc_epoll_info rc"
    using assms by (simp_all add: registered_def server_inv_def)
  show rw: "reading s p rc cp \<or> writing s p rc cp" using assms by (simp add: registered_def)
  obtain ev where reg: "registration s rc = Some (ev, cp)"
    using rw by (auto simp: reading_def writing_def)
  then show "registration s rc \<noteq> None" by simp
  show "running rc = {TOTAL_TIME}" using rw by (auto simp: reading_def writing_def)
  show "rc_wf rc" "sv_fds s (rc_fd rc) \<noteq> None" "p \<noteq> NULL" "rc_epoll_info rc < sv_io_worker_count s"
    using core_context [OF core c] by (simp_all add: context_ok_def)
  show "exclusive s p (rc_fd rc) cp" by (rule exclusive_registered [OF core c reg])
  show "p \<notin> waiting s" using c reg by (simp add: waiting_def)
  show "sv_epolls s w (rc_fd rc) = None" if "w \<noteq> rc_epoll_info rc" for w
    using entries_of_context [OF core c, of w] that by (cases "sv_epolls s w (rc_fd rc)") auto
qed

text \<open>A change of the context and of its socket that leaves the registration alone.\<close>

lemma update_in_place:
  assumes reg: "registered pend s p rc cp sc" and same: "same_connection rc rc'" and rc': "rc_wf rc'" "running rc' = {TOTAL_TIME}"
    and parsed: "writing s p rc cp \<Longrightarrow> rc_parsed rc'" and out: "reading s p rc cp \<Longrightarrow> drained rc'"
    and s': "s' = put_fd (rc_fd rc) k (put_context p rc' s)"
  shows "registered pend s' p rc' cp sc \<and> agree_except p (rc_fd rc) cp s s' \<and>
     (reading s p rc cp \<longleftrightarrow> reading s' p rc' cp)"
proof -
  note r = registeredD [OF reg]
  have sc: "rc_fd rc' = rc_fd rc" "rc_epoll_info rc' = rc_epoll_info rc" using same by (simp_all add: same_connection_def)
  have rw: "reading s' p rc' cp \<or> writing s' p rc' cp"
    using r(16) sc rc'(2) parsed out by (auto simp: reading_def writing_def s')
  have ag: "agree_except p (rc_fd rc) cp s s'" by (simp add: agree_except_def s')
  have "connection_ok s' p (rc_fd rc) cp"
  proof -
    have "context_ok s' p rc'" using rw rc'(1) sc r(10-12) by (auto simp: context_ok_def s')
    moreover have "\<exists>ev. registration s' rc' = Some (ev, cp)" using rw by (auto simp: reading_def writing_def)
    ultimately show ?thesis using sc r(15) by (auto simp: connection_ok_def s')
  qed
  moreover have "queue_ids s' = queue_ids s" by (simp add: s' queue_ids_def)
  moreover have "p \<notin> waiting s'" using r(7) sc by (auto simp: waiting_def s')
  moreover have "queues_ok pend s" using r(1) by (simp add: server_inv_def)
  ultimately have "server_inv pend s'"
    using r(3,14) by (intro inv_frame [OF r(1) ag r(13)]) (auto simp: s' queued_def queues_ok_def)
  moreover have "reading s p rc cp \<longleftrightarrow> reading s' p rc' cp"
    using r(16)
  proof
    assume "reading s p rc cp"
    then show ?thesis using sc rc'(2) out by (simp add: reading_def s')
  next
    assume "writing s p rc cp"
    then show ?thesis using sc by (simp add: reading_def writing_def s')
  qed
  ultimately show ?thesis using rw ag sc r(4-6) by (simp add: registered_def s')
qed

text \<open>What closing a registered connection does. It always returns.\<close>

lemma client_close_eq:
  assumes reg: "registered pend s p rc cp sc"
  obtains s' where "client_close_connection now cp res s = Inr s'"
    "sv_contexts s' = (sv_contexts s)(p := None)" "sv_sockets s' = (sv_sockets s)(cp := None)"
    "sv_fds s' = (sv_fds s)(rc_fd rc := None)"
    "\<And>w fd. sv_epolls s' w fd = (if fd = rc_fd rc then None else sv_epolls s w fd)"
    "sv_queues s' = sv_queues s" "sv_io_worker_count s' = sv_io_worker_count s" "sv_actor_count s' = sv_actor_count s"
    "active_connections (sv_stats s') = active_connections (sv_stats s) - 1"
proof -
  note r = registeredD [OF reg]
  obtain ts where ts: "per_request_record_end now (rc_time_stats rc) TOTAL_TIME = Inr ts"
    using record_end_ok [of TOTAL_TIME "rc_time_stats rc" now] r(8) by auto
  show thesis
    using that ts r(3-7,10)
    by (auto simp: client_close_connection_def get_socket_def get_context_def Let_def epoll_calls
        context_finalize_destroy_def close_fd_def free_socket_def stat_defs fun_eq_iff)
qed

lemma client_close_ok:
  assumes reg: "registered pend s p rc cp sc"
  shows "handler_ok pend s p (rc_fd rc) cp {None} (client_close_connection now cp res s)"
proof -
  note r = registeredD [OF reg]
  obtain s' where s': "client_close_connection now cp res s = Inr s'"
      "sv_contexts s' = (sv_contexts s)(p := None)" "sv_sockets s' = (sv_sockets s)(cp := None)"
      "sv_fds s' = (sv_fds s)(rc_fd rc := None)"
      "\<And>w fd. sv_epolls s' w fd = (if fd = rc_fd rc then None else sv_epolls s w fd)"
      "sv_queues s' = sv_queues s" "sv_io_worker_count s' = sv_io_worker_count s" "sv_actor_count s' = sv_actor_count s"
      "active_connections (sv_stats s') = active_connections (sv_stats s) - 1"
    using client_close_eq [OF reg, of now res] by blast
  have ag: "agree_except p (rc_fd rc) cp s s'" using s' by (simp add: agree_except_def)
  have ids: "queue_ids s' = queue_ids s" using s' by (simp add: queue_ids_def)
  have "server_inv pend s'"
  proof (rule inv_frame [OF r(1) ag r(13)])
    show "connection_ok s' p (rc_fd rc) cp" using s' by (simp add: connection_ok_def)
    show "queues_ok pend s'" using r(1) ids s' by (simp add: server_inv_def queues_ok_def)
    show "queued s' + (if p \<in> waiting s then {#p#} else {#}) = queued s + (if p \<in> waiting s' then {#p#} else {#})"
      using r(14) s' ids by (simp add: queued_def waiting_def)
    show "active_connections (sv_stats s') + (if p \<in> dom (sv_contexts s) then 1 else 0) =
        active_connections (sv_stats s) + (if p \<in> dom (sv_contexts s') then 1 else 0)"
      using s' r(3) by auto
  qed
  with s'(1,2) ag show ?thesis by (simp add: handler_ok_def phase_gone)
qed

lemma client_reset_ok:
  assumes reg: "registered pend s p rc cp sc"
  shows "handler_ok pend s p (rc_fd rc) cp {Some Reading} (client_reset_connection now now' cp res s)"
proof -
  note r = registeredD [OF reg]
  obtain ts where ts: "per_request_record_end now (rc_time_stats rc) TOTAL_TIME = Inr ts" "prs_wf ts"
    using record_end_ok [of TOTAL_TIME "rc_time_stats rc" now] r(8,9) by (auto simp: rc_wf_def)
  let ?rc1 = "context_finalize_reset (rc\<lparr>rc_time_stats := ts\<rparr>)"
  have rc1: "rc_wf ?rc1" "running ?rc1 = {}" "rc_fd ?rc1 = rc_fd rc" "rc_epoll_info ?rc1 = rc_epoll_info rc"
    using context_finalize_reset_wf [of "rc\<lparr>rc_time_stats := ts\<rparr>"] r(9) ts(2) by (simp_all add: rc_wf_def)
  obtain ts' where ts': "per_request_record_start now' (rc_time_stats ?rc1) TOTAL_TIME = Inr ts'"
      "prs_running ts' = {TOTAL_TIME}" "prs_wf ts'"
    using record_start_ok [of TOTAL_TIME "rc_time_stats ?rc1" now'] rc1(1,2) by (auto simp: rc_wf_def)
  let ?rc' = "?rc1\<lparr>rc_time_stats := ts'\<rparr>"
  have sc: "sc\<lparr>input_handler := Some H_client_read, output_handler := None, error_handler := Some H_client_error\<rparr> =
      reader p (rc_epoll_info rc)"
    using r(5,6) by (cases sc) (simp add: reader_def)
  obtain s' where s': "client_reset_connection now now' cp res s = Inr s'"
      "sv_contexts s' = (sv_contexts s)(p \<mapsto> ?rc')" "sv_sockets s' = (sv_sockets s)(cp \<mapsto> reader p (rc_epoll_info rc))"
      "sv_fds s' = sv_fds s"
      "\<And>w fd. sv_epolls s' w fd = (if w = rc_epoll_info rc \<and> fd = rc_fd rc then Some (INPUT_EVENTS, cp) else sv_epolls s w fd)"
      "sv_queues s' = sv_queues s" "sv_io_worker_count s' = sv_io_worker_count s" "sv_actor_count s' = sv_actor_count s"
      "active_connections (sv_stats s') = active_connections (sv_stats s)"
    using ts(1) ts'(1) rc1(3) r(3-7,10) sc
    by (auto simp: client_reset_connection_def get_socket_def get_context_def Let_def epoll_calls stat_defs cong: if_cong)
  have ag: "agree_except p (rc_fd rc) cp s s'" using s' by (simp add: agree_except_def)
  have ids: "queue_ids s' = queue_ids s" using s' by (simp add: queue_ids_def)
  have "drained ?rc'" by (simp add: context_finalize_reset_def Let_def output_buffer_reset_def ob_pending_def ob_contents_def)
  then have rd: "reading s' p ?rc' cp" using s' rc1 ts' by (simp add: reading_def)
  have "server_inv pend s'"
  proof (rule inv_frame [OF r(1) ag r(13)])
    have "context_ok s' p ?rc'" using rd s' rc1 ts' r(10-12) by (auto simp: context_ok_def rc_wf_def)
    then show "connection_ok s' p (rc_fd rc) cp" using s' rc1 r(15) by (simp add: connection_ok_def)
    show "queues_ok pend s'" using r(1) ids s' by (simp add: server_inv_def queues_ok_def)
    show "queued s' + (if p \<in> waiting s then {#p#} else {#}) = queued s + (if p \<in> waiting s' then {#p#} else {#})"
      using r(14) s' ids rc1 by (simp add: queued_def waiting_def)
  qed (use s' r(3) in auto)
  with s'(1,2) ag rd show ?thesis by (simp add: handler_ok_def phase_reading [of s' p ?rc' cp])
qed

text \<open>The round robin stays within the actors.\<close>

lemma round_robin_bound:
  assumes "0 < n" and "n < 2 ^ 31"
  shows "unat (c mod of_nat n :: size_t) < n"
proof -
  have "unat (of_nat n :: size_t) = n" using assms by (intro unat_of_nat_size) simp
  then show ?thesis using assms(1) by (simp add: unat_mod_distrib)
qed

lemma pointer_not_queued:
  assumes "server_inv pend s" and "p \<notin> waiting s" and "(a, w) \<in> queue_ids s"
  shows "p \<notin> set (mq_items (sv_queues s a w))"
proof -
  have "mset (mq_items (sv_queues s a w)) \<subseteq># queued s"
    unfolding queued_def using assms(3) by (auto simp: sum.remove case_prod_beta)
  moreover have "p \<notin># queued s" using assms(1,2) finite_waiting [OF assms(1)] by (simp add: server_inv_def)
  ultimately show ?thesis by (metis mset_subset_eqD set_mset_mset)
qed

text \<open>
  Handing a parsed request to an actor: the registration is deleted, the context pushed, the
  socket context freed. The only way to fail is a full queue.
\<close>

text \<open>The hand-over to an actor whose queue has room.\<close>

lemma hand_over_room:
  assumes reg: "registered pend s p rc cp sc" and a: "a = unat (sv_count s mod of_nat (sv_actor_count s))"
    and room: "length (mq_items (sv_queues s a (rc_epoll_info rc))) < mq_capacity (sv_queues s a (rc_epoll_info rc))"
  obtains ts q' s' where "prs_running ts = {TOTAL_TIME, QUEUE_TIME}" "prs_wf ts"
    and "mq_inv q'" "mq_items q' = mq_items (sv_queues s a (rc_epoll_info rc)) @ [p]"
      "mq_notified q' = Suc (mq_notified (sv_queues s a (rc_epoll_info rc)))"
    and "bind_res (delete_epoll_event (rc_epoll_info rc) (rc_fd rc) s) (\<lambda>s.
          bind_res (enqueue_request now (rc_epoll_info rc) p s) (free_socket cp)) = Inr s'"
    and "sv_contexts s' = (sv_contexts s)(p \<mapsto> rc\<lparr>rc_time_stats := ts\<rparr>)" "sv_sockets s' = (sv_sockets s)(cp := None)" "sv_fds s' = sv_fds s"
      "\<And>w fd. sv_epolls s' w fd = (if w = rc_epoll_info rc \<and> fd = rc_fd rc then None else sv_epolls s w fd)"
      "\<And>a' w'. sv_queues s' a' w' = (if a' = a \<and> w' = rc_epoll_info rc then q' else sv_queues s a' w')"
      "sv_io_worker_count s' = sv_io_worker_count s" "sv_actor_count s' = sv_actor_count s" "sv_stats s' = sv_stats s"
proof -
  note r = registeredD [OF reg]
  let ?w = "rc_epoll_info rc"
  let ?q = "sv_queues s a ?w"
  have inv: "0 < sv_actor_count s" "sv_actor_count s < 2 ^ 31" "queues_ok pend s" using r(1) by (simp_all add: server_inv_def)
  have a': "a < sv_actor_count s" using round_robin_bound [OF inv(1,2)] a by simp
  then have q: "mq_inv ?q" "mq_notified ?q + pend a ?w = length (mq_items ?q)"
    using inv(3) r(12) by (auto simp: queues_ok_def queue_ids_def)
  obtain ts where ts: "per_request_record_start now (rc_time_stats rc) QUEUE_TIME = Inr ts"
      "prs_running ts = {TOTAL_TIME, QUEUE_TIME}" "prs_wf ts"
    using record_start_ok [of QUEUE_TIME "rc_time_stats rc" now] r(8,9) by (auto simp: rc_wf_def insert_commute)
  have "mq_capacity ?q < unat EVENTFD_MAX" using q(1) by (simp add: mq_inv_def mq_capacity_def EVENTFD_MAX_def)
  then have "mq_notified ?q < unat EVENTFD_MAX" using room q(2) by simp
  from mq_push_room [OF q(1) room this, of p] obtain q' where
    q': "mrmw_queue_push ?q p = Inr (QUEUE_SUCCESS, q')" "mq_inv q'" "mq_items q' = mq_items ?q @ [p]"
      "mq_notified q' = Suc (mq_notified ?q)" by blast
  obtain s' where "bind_res (delete_epoll_event ?w (rc_fd rc) s) (\<lambda>s.
        bind_res (enqueue_request now ?w p s) (free_socket cp)) = Inr s'"
      "sv_contexts s' = (sv_contexts s)(p \<mapsto> rc\<lparr>rc_time_stats := ts\<rparr>)" "sv_sockets s' = (sv_sockets s)(cp := None)" "sv_fds s' = sv_fds s"
      "\<And>w fd. sv_epolls s' w fd = (if w = ?w \<and> fd = rc_fd rc then None else sv_epolls s w fd)"
      "\<And>a' w'. sv_queues s' a' w' = (if a' = a \<and> w' = ?w then q' else sv_queues s a' w')"
      "sv_io_worker_count s' = sv_io_worker_count s" "sv_actor_count s' = sv_actor_count s" "sv_stats s' = sv_stats s"
    using ts(1) a' q'(1) r(3-7,10,12) a
    by (auto simp: enqueue_request_def get_context_def Let_def epoll_calls free_socket_def)
  with ts(2,3) q'(2-4) that show thesis by blast
qed

lemma hand_over_full:
  assumes reg: "registered pend s p rc cp sc" and a: "a = unat (sv_count s mod of_nat (sv_actor_count s))"
    and full: "\<not> length (mq_items (sv_queues s a (rc_epoll_info rc))) < mq_capacity (sv_queues s a (rc_epoll_info rc))"
  shows "bind_res (delete_epoll_event (rc_epoll_info rc) (rc_fd rc) s) (\<lambda>s.
      bind_res (enqueue_request now (rc_epoll_info rc) p s) (free_socket cp)) = Inl (Exit_Failure ''Failed to send message'')"
proof -
  note r = registeredD [OF reg]
  let ?w = "rc_epoll_info rc" and ?q = "sv_queues s a (rc_epoll_info rc)"
  have inv: "0 < sv_actor_count s" "sv_actor_count s < 2 ^ 31" "queues_ok pend s"
    using r(1) by (simp_all add: server_inv_def)
  have a': "a < sv_actor_count s" using round_robin_bound [OF inv(1,2)] a by simp
  then have q: "mq_inv ?q" using inv(3) r(12) by (auto simp: queues_ok_def queue_ids_def)
  have "length (mq_items ?q) = mq_capacity ?q" using full mq.bounded [OF q] by simp
  then have "mrmw_queue_push ?q p = Inr (QUEUE_FAILURE, ?q)" using mq_push_full q by blast
  moreover obtain ts where "per_request_record_start now (rc_time_stats rc) QUEUE_TIME = Inr ts"
    using record_start_ok [of QUEUE_TIME "rc_time_stats rc" now] r(8,9) by (auto simp: rc_wf_def insert_commute)
  ultimately show ?thesis
    using a' r(3-7,10,12) a by (simp add: enqueue_request_def get_context_def Let_def epoll_calls)
qed

lemma hand_over_ok:
  assumes reg: "registered pend s p rc cp sc" and parsed: "rc_parsed rc" "drained rc"
  shows "handler_ok pend s p (rc_fd rc) cp {Some Waiting}
     (bind_res (delete_epoll_event (rc_epoll_info rc) (rc_fd rc) s) (\<lambda>s.
      bind_res (enqueue_request now (rc_epoll_info rc) p s) (free_socket cp)))"
proof -
  note r = registeredD [OF reg]
  let ?w = "rc_epoll_info rc" and ?a = "unat (sv_count s mod of_nat (sv_actor_count s))"
  let ?q = "sv_queues s ?a ?w"
  have inv: "0 < sv_actor_count s" "sv_actor_count s < 2 ^ 31" "queues_ok pend s"
    using r(1) by (simp_all add: server_inv_def)
  have a: "?a < sv_actor_count s" using round_robin_bound [OF inv(1,2)] .
  have aw: "(?a, ?w) \<in> queue_ids s" using a r(12) by (simp add: queue_ids_def)
  have q: "mq_inv ?q" "mq_notified ?q + pend ?a ?w = length (mq_items ?q)" using inv(3) aw by (auto simp: queues_ok_def)
  show ?thesis
  proof (cases "length (mq_items ?q) < mq_capacity ?q")
    case False
    from hand_over_full [OF reg refl this, of now] show ?thesis by (simp add: handler_ok_def resource_fault_def)
  next
    case True
    from reg refl True show ?thesis
    proof (rule hand_over_room [where now = now])
      fix ts q' s'
      assume ts: "prs_running ts = {TOTAL_TIME, QUEUE_TIME}" "prs_wf ts"
        and q': "mq_inv q'" "mq_items q' = mq_items ?q @ [p]" "mq_notified q' = Suc (mq_notified ?q)"
        and s': "bind_res (delete_epoll_event ?w (rc_fd rc) s) (\<lambda>s.
            bind_res (enqueue_request now ?w p s) (free_socket cp)) = Inr s'"
          "sv_contexts s' = (sv_contexts s)(p \<mapsto> rc\<lparr>rc_time_stats := ts\<rparr>)" "sv_sockets s' = (sv_sockets s)(cp := None)"
          "sv_fds s' = sv_fds s"
          "\<And>w fd. sv_epolls s' w fd = (if w = ?w \<and> fd = rc_fd rc then None else sv_epolls s w fd)"
          "\<And>a' w'. sv_queues s' a' w' = (if a' = ?a \<and> w' = ?w then q' else sv_queues s a' w')"
          "sv_io_worker_count s' = sv_io_worker_count s" "sv_actor_count s' = sv_actor_count s" "sv_stats s' = sv_stats s"
      have ag: "agree_except p (rc_fd rc) cp s s'" using s' by (simp add: agree_except_def)
      have ids: "queue_ids s' = queue_ids s" using s' by (simp add: queue_ids_def)
      have "server_inv pend s'"
      proof (rule inv_frame [OF r(1) ag r(13)])
        have "context_ok s' p (rc\<lparr>rc_time_stats := ts\<rparr>)"
          using s' ts r(9-12) parsed by (simp add: context_ok_def waiting_ok_def rc_wf_def rc_parsed_def)
        then show "connection_ok s' p (rc_fd rc) cp" using s' r(15) by (simp add: connection_ok_def)
        show "queues_ok pend s'" using inv(3) ids s' q' q(2) by (auto simp: queues_ok_def)
        have "p \<in> waiting s'" using s' by (simp add: waiting_def)
        moreover have "queued s' + mset (mq_items ?q) = queued s + mset (mq_items (sv_queues s' ?a ?w))"
          using s' by (intro queued_change [OF aw ids]) auto
        ultimately show "queued s' + (if p \<in> waiting s then {#p#} else {#}) = queued s + (if p \<in> waiting s' then {#p#} else {#})"
          using r(14) s' q'(2) by simp
      qed (use s' r(3) in auto)
      moreover have "phase_of s' p = Some Waiting" using s' by (simp add: phase_of_def)
      ultimately show ?thesis using s'(1) ag by (simp add: handler_ok_def)
    qed
  qed
qed

section \<open>The handlers of a connection\<close>

text \<open>A watch started and stopped around a piece of work.\<close>

lemma stop_watch:
  assumes "running rc = {TOTAL_TIME}" and "prs_wf (rc_time_stats rc)" and "t \<noteq> TOTAL_TIME"
  obtains ts where "per_request_record_start now (rc_time_stats rc) t = Inr ts" and "prs_wf ts"
    and "\<And>now'. \<exists>ts'. per_request_record_end now' ts t = Inr ts' \<and> prs_running ts' = {TOTAL_TIME} \<and> prs_wf ts'"
proof -
  obtain ts where ts: "per_request_record_start now (rc_time_stats rc) t = Inr ts" "prs_running ts = {t, TOTAL_TIME}" "prs_wf ts"
    using record_start_ok [of t "rc_time_stats rc" now] assms by auto
  have "\<exists>ts'. per_request_record_end now' ts t = Inr ts' \<and> prs_running ts' = {TOTAL_TIME} \<and> prs_wf ts'" for now'
    using record_end_ok [of t ts now'] ts(2,3) assms(3) by auto
  with ts(1,3) that show thesis by blast
qed

text \<open>The read handler once its watches are taken care of.\<close>

lemma client_handle_read_eq:
  assumes reg: "registered pend s p rc cp sc" and k: "sv_fds s (rc_fd rc) = Some k"
  obtains ts ts' where "prs_wf ts" "prs_wf ts'" "prs_running ts' = {TOTAL_TIME}"
    and "\<And>e. try_parse_http_request al (rc\<lparr>rc_time_stats := ts\<rparr>) k = Inl e \<Longrightarrow> client_handle_read al clk cp s = Inl e"
    and "\<And>st rc1 k1 s1. \<lbrakk>try_parse_http_request al (rc\<lparr>rc_time_stats := ts\<rparr>) k = Inr (st, rc1, k1);
        same_connection rc rc1; rc_time_stats rc1 = ts; s1 = put_fd (rc_fd rc) k1 (put_context p (rc1\<lparr>rc_time_stats := ts'\<rparr>) s)\<rbrakk> \<Longrightarrow>
      client_handle_read al clk cp s = (case st of
          READ_FINISH \<Rightarrow> bind_res (delete_epoll_event (rc_epoll_info rc) (rc_fd rc) s1) (\<lambda>s.
              bind_res (enqueue_request (clk 2) (rc_epoll_info rc) p s) (free_socket cp))
        | READ_ERROR \<Rightarrow> client_close_connection (clk 2) cp REQUEST_READ_ERROR s1
        | CLIENT_DISCONNECT \<Rightarrow> client_close_connection (clk 2) cp REQUEST_CLIENT_ERROR s1
        | READ_BUSY \<Rightarrow> Inr s1)"
proof -
  note r = registeredD [OF reg]
  have pw: "prs_wf (rc_time_stats rc)" using r(9) by (simp add: rc_wf_def)
  obtain ts where ts: "per_request_record_start (clk 0) (rc_time_stats rc) CLIENT_READ_TIME = Inr ts" "prs_wf ts"
      "\<And>now. \<exists>ts'. per_request_record_end now ts CLIENT_READ_TIME = Inr ts' \<and> prs_running ts' = {TOTAL_TIME} \<and> prs_wf ts'"
    using stop_watch [OF r(8) pw, of CLIENT_READ_TIME "clk 0"] by auto
  obtain ts' where ts': "per_request_record_end (clk 1) ts CLIENT_READ_TIME = Inr ts'" "prs_running ts' = {TOTAL_TIME}" "prs_wf ts'"
    using ts(3) by blast
  note unf = client_handle_read_def get_socket_def get_context_def get_fd_def
  show thesis
  proof (rule that [OF ts(2) ts'(3,2)])
    show "client_handle_read al clk cp s = Inl e" if "try_parse_http_request al (rc\<lparr>rc_time_stats := ts\<rparr>) k = Inl e" for e
      using that ts(1) k r(3-5) by (simp add: unf)
  qed (use ts(1) ts'(1) k r(3-6) in \<open>simp add: unf same_connection_def Let_def cong: ReadState.case_cong\<close>)
qed

lemma client_handle_read_ok:
  assumes reg: "registered pend s p rc cp sc" and rd: "reading s p rc cp"
  shows "handler_ok pend s p (rc_fd rc) cp {None, Some Reading, Some Waiting} (client_handle_read al clk cp s)"
proof -
  note r = registeredD [OF reg]
  obtain k where k: "sv_fds s (rc_fd rc) = Some k" using r(10) by blast
  from reg k show ?thesis
  proof (rule client_handle_read_eq [of _ _ _ _ _ _ _ al clk])
    fix ts ts'
    assume ts: "prs_wf ts" "prs_wf ts'" "prs_running ts' = {TOTAL_TIME}"
      and fails: "\<And>e. try_parse_http_request al (rc\<lparr>rc_time_stats := ts\<rparr>) k = Inl e \<Longrightarrow> client_handle_read al clk cp s = Inl e"
      and eq: "\<And>st rc1 k1 s1. \<lbrakk>try_parse_http_request al (rc\<lparr>rc_time_stats := ts\<rparr>) k = Inr (st, rc1, k1);
          same_connection rc rc1; rc_time_stats rc1 = ts; s1 = put_fd (rc_fd rc) k1 (put_context p (rc1\<lparr>rc_time_stats := ts'\<rparr>) s)\<rbrakk> \<Longrightarrow>
        client_handle_read al clk cp s = (case st of
            READ_FINISH \<Rightarrow> bind_res (delete_epoll_event (rc_epoll_info rc) (rc_fd rc) s1) (\<lambda>s.
                bind_res (enqueue_request (clk 2) (rc_epoll_info rc) p s) (free_socket cp))
          | READ_ERROR \<Rightarrow> client_close_connection (clk 2) cp REQUEST_READ_ERROR s1
          | CLIENT_DISCONNECT \<Rightarrow> client_close_connection (clk 2) cp REQUEST_CLIENT_ERROR s1
          | READ_BUSY \<Rightarrow> Inr s1)"
    let ?rc0 = "rc\<lparr>rc_time_stats := ts\<rparr>"
    have "rc_wf ?rc0" using r(9) ts(1) by (simp add: rc_wf_def)
    from try_parse_outcome [OF this, of al k] consider (oom) "try_parse_http_request al ?rc0 k = Inl OOM"
      | (parsed) st rc1 k1 where "try_parse_http_request al ?rc0 k = Inr (st, rc1, k1)" "rc_wf rc1" "same_connection rc rc1"
          "rc_time_stats rc1 = ts" "st = READ_FINISH \<longrightarrow> rc_parsed rc1" "rc_output_buffer rc1 = rc_output_buffer rc"
      by (auto simp: same_connection_def)
    then show ?thesis
    proof cases
      case oom
      then show ?thesis by (simp add: fails handler_ok_def resource_fault_def)
    next
      case (parsed st rc1 k1)
      let ?rc' = "rc1\<lparr>rc_time_stats := ts'\<rparr>"
      have same: "same_connection rc ?rc'" using parsed(3) by (simp add: same_connection_def)
      have wf: "rc_wf ?rc'" "running ?rc' = {TOTAL_TIME}" using parsed(2) ts by (simp_all add: rc_wf_def)
      define s1 where "s1 = put_fd (rc_fd rc) k1 (put_context p ?rc' s)"
      have "\<not> writing s p rc cp" "drained ?rc'" using rd parsed(6) by (auto simp: reading_def writing_def)
      then have u: "registered pend s1 p ?rc' cp sc" "agree_except p (rc_fd rc) cp s s1"
        and "reading s1 p ?rc' cp"
        using update_in_place [OF reg same wf _ _ s1_def] rd by simp_all
      from phase_reading [OF _ this(3)] have rd1: "phase_of s1 p = Some Reading" by (simp add: s1_def)
      have fd: "rc_fd ?rc' = rc_fd rc" "rc_epoll_info ?rc' = rc_epoll_info rc" using same by (simp_all add: same_connection_def)
      note close = handler_ok_mono [OF client_close_ok [OF u(1), unfolded fd]]
      note eq1 = eq [OF parsed(1,3,4) s1_def]
      have "handler_ok pend s1 p (rc_fd rc) cp {None, Some Reading, Some Waiting} (client_handle_read al clk cp s)"
      proof (cases st)
        case READ_FINISH
        then have "rc_parsed ?rc'" using parsed(5) by (simp add: rc_parsed_def)
        from handler_ok_mono [OF hand_over_ok [OF u(1) this \<open>drained ?rc'\<close>, unfolded fd]] READ_FINISH show ?thesis by (simp add: eq1)
      next
        case READ_BUSY
        then show ?thesis using registeredD(1) [OF u(1)] rd1 by (simp add: eq1 handler_ok_def agree_except_def)
      qed (simp_all add: eq1 close)
      with u(2) show ?thesis by (rule handler_ok_trans)
    qed
  qed
qed

text \<open>What the write handler does, by the state the write loop returns in.\<close>

lemma client_handle_write_eq:
  assumes reg: "registered pend s p rc cp sc" and wr: "writing s p rc cp" and k: "sv_fds s (rc_fd rc) = Some k"
  obtains st ob k1 ts' alive rc' s1 where "output_buffer_write_to (rc_output_buffer rc) k = Inr (st, ob, k1)" "ob_wf ob"
    "prs_wf ts'" "prs_running ts' = {TOTAL_TIME}" "rc' = rc\<lparr>rc_output_buffer := ob, rc_time_stats := ts'\<rparr>"
    "s1 = put_fd (rc_fd rc) k1 (put_context p rc' s)" "context_keep_alive rc = Inr alive"
    "registered pend s1 p rc' cp sc" "writing s1 p rc' cp" "agree_except p (rc_fd rc) cp s s1"
    "client_handle_write clk cp s = (case st of
        WRITE_BUSY \<Rightarrow> Inr s1
      | WRITE_ERROR \<Rightarrow> client_close_connection (clk 2) cp REQUEST_WRITE_ERROR s1
      | WRITE_FINISH \<Rightarrow> if alive = 1 then client_reset_connection (clk 2) (clk 3) cp REQUEST_SUCCESS s1
          else client_close_connection (clk 2) cp REQUEST_SUCCESS s1)"
proof -
  note r = registeredD [OF reg]
  have parsed: "rc_parsed rc" using wr by (simp add: writing_def)
  have pw: "prs_wf (rc_time_stats rc)" "ob_wf (rc_output_buffer rc)" using r(9) by (simp_all add: rc_wf_def)
  obtain ts where ts: "per_request_record_start (clk 0) (rc_time_stats rc) CLIENT_WRITE_TIME = Inr ts" "prs_wf ts"
      "\<And>now. \<exists>ts'. per_request_record_end now ts CLIENT_WRITE_TIME = Inr ts' \<and> prs_running ts' = {TOTAL_TIME} \<and> prs_wf ts'"
    using stop_watch [OF r(8) pw(1), of CLIENT_WRITE_TIME "clk 0"] by auto
  obtain ts' where ts': "per_request_record_end (clk 1) ts CLIENT_WRITE_TIME = Inr ts'" "prs_running ts' = {TOTAL_TIME}" "prs_wf ts'"
    using ts(3) by blast
  obtain st ob k1 where w: "output_buffer_write_to (rc_output_buffer rc) k = Inr (st, ob, k1)" "ob_wf ob"
    using output_buffer_write_to_result [OF pw(2), of k] by blast
  let ?rc' = "rc\<lparr>rc_output_buffer := ob, rc_time_stats := ts'\<rparr>"
  have same: "same_connection rc ?rc'" by (simp add: same_connection_def)
  have wf: "rc_wf ?rc'" "running ?rc' = {TOTAL_TIME}" "rc_parsed ?rc'"
    using r(9) ts' w(2) parsed by (simp_all add: rc_wf_def rc_parsed_def)
  define s1 where "s1 = put_fd (rc_fd rc) k1 (put_context p ?rc' s)"
  have u: "registered pend s1 p ?rc' cp sc" "agree_except p (rc_fd rc) cp s s1"
    using update_in_place [OF reg same wf(1,2) wf(3) _ s1_def] wr by (auto simp: reading_def writing_def)
  obtain alive where alive: "context_keep_alive rc = Inr alive" using context_keep_alive_result [OF parsed] by blast
  have alive': "context_keep_alive ?rc' = Inr alive" using alive by (simp add: context_keep_alive_def)
  have "client_handle_write clk cp s = (case st of
        WRITE_BUSY \<Rightarrow> Inr s1
      | WRITE_ERROR \<Rightarrow> client_close_connection (clk 2) cp REQUEST_WRITE_ERROR s1
      | WRITE_FINISH \<Rightarrow> if alive = 1 then client_reset_connection (clk 2) (clk 3) cp REQUEST_SUCCESS s1
          else client_close_connection (clk 2) cp REQUEST_SUCCESS s1)"
    using ts(1) ts'(1) k r(3-6) w(1) alive'
    by (simp add: client_handle_write_def get_socket_def get_context_def get_fd_def s1_def Let_def cong: WriteState.case_cong)
  moreover have "writing s1 p ?rc' cp" using wr wf by (auto simp: writing_def s1_def)
  ultimately show thesis using that [OF w ts'(3,2) refl s1_def alive u(1) _ u(2)] by blast
qed

lemma client_handle_write_ok:
  assumes reg: "registered pend s p rc cp sc" and wr: "writing s p rc cp"
  shows "handler_ok pend s p (rc_fd rc) cp {None, Some Reading, Some Writing} (client_handle_write clk cp s)"
proof -
  obtain k where k: "sv_fds s (rc_fd rc) = Some k" using registeredD(10) [OF reg] by blast
  from reg wr k show ?thesis
  proof (cases rule: client_handle_write_eq [of pend s p rc cp sc k clk])
    case (1 st ob k1 ts' alive rc' s1)
    have fd: "rc_fd rc' = rc_fd rc" "sv_contexts s1 p = Some rc'" using 1(5,6) by simp_all
    have "handler_ok pend s1 p (rc_fd rc) cp {None, Some Reading, Some Writing} (client_handle_write clk cp s)"
      using handler_ok_mono [OF client_close_ok [OF 1(8), unfolded fd]] handler_ok_mono [OF client_reset_ok [OF 1(8), unfolded fd]]
        registeredD(1) [OF 1(8)] phase_writing [OF fd(2) 1(9)]
      by (cases st) (simp_all add: 1(11), simp add: handler_ok_def agree_except_def)
    with 1(10) show ?thesis by (rule handler_ok_trans)
  qed
qed

section \<open>Actors\<close>

text \<open>Addresses \<^verbatim>\<open>malloc\<close> may return: not NULL, all different, of no live object.\<close>

definition fresh :: "server \<Rightarrow> pointer list \<Rightarrow> bool" where
  "fresh s fr \<longleftrightarrow> distinct fr \<and> (\<forall>p\<in>set fr. p \<noteq> NULL \<and> sv_contexts s p = None \<and> sv_sockets s p = None)"

text \<open>What a handler does to connections that are not its own: their registrations stay.\<close>

definition keeps_entries :: "server \<Rightarrow> server \<Rightarrow> bool" where
  "keeps_entries s s' \<longleftrightarrow> (\<forall>w fd e. sv_epolls s w fd = Some e \<longrightarrow> sv_epolls s' w fd = Some e)"

lemma keeps_entries_refl [simp]: "keeps_entries s s"
  by (simp add: keeps_entries_def)

lemma keeps_entries_trans: "\<lbrakk>keeps_entries s s'; keeps_entries s' s''\<rbrakk> \<Longrightarrow> keeps_entries s s''"
  by (simp add: keeps_entries_def)

lemma agree_keeps_entries: "\<lbrakk>agree_except p fd cp s s'; \<And>w. sv_epolls s w fd = None\<rbrakk> \<Longrightarrow> keeps_entries s s'"
  unfolding keeps_entries_def agree_except_def by (metis option.distinct(1))

definition oversized :: "server \<Rightarrow> nat \<Rightarrow> nat \<Rightarrow> bool" where
  "oversized s a w \<longleftrightarrow> (\<exists>p rc. mq_items (sv_queues s a w) \<noteq> [] \<and> p = hd (mq_items (sv_queues s a w)) \<and>
     sv_contexts s p = Some rc \<and> 10 ^ 9 \<le> req_path_len (rc_http_request rc))"

text \<open>Actor \<open>a\<close> has answered the request of \<open>rc\<close>: the answer is in the output buffer, and \<open>p\<close> is registered for writing.\<close>

definition answered :: "nat \<Rightarrow> RequestContext \<Rightarrow> pointer \<Rightarrow> server \<Rightarrow> bool" where
  "answered a rc p s \<longleftrightarrow> (\<exists>al ts rc1 rc' cp. prs_wf ts \<and>
     handle_request al (rc\<lparr>rc_actor_id := int a, rc_time_stats := ts\<rparr>) = Inr rc1 \<and>
     sv_contexts s p = Some rc' \<and> rc_output_buffer rc' = rc_output_buffer rc1 \<and> context_keep_alive rc' = context_keep_alive rc \<and>
     same_connection rc rc' \<and> writing s p rc' cp)"

definition handled_one :: "pending \<Rightarrow> nat \<Rightarrow> nat \<Rightarrow> server \<Rightarrow> (bool \<times> pointer list \<times> server) res \<Rightarrow> bool" where
  "handled_one pend a w s r \<longleftrightarrow>
     (case r of
        Inl e \<Rightarrow> e = OOM \<or> e = Out_Of_Bounds \<and> oversized s a w
      | Inr (continue, fr, s') \<Rightarrow> continue \<and> server_inv (pend(a := (pend a)(w := pend a w - 1))) s' \<and> fresh s' fr \<and>
          keeps_entries s s' \<and> sv_queues s' = (sv_queues s)(a := (sv_queues s a)(w := sv_queues s' a w)) \<and>
          mq_items (sv_queues s a w) = hd (mq_items (sv_queues s a w)) # mq_items (sv_queues s' a w) \<and>
          (\<forall>rc. sv_contexts s (hd (mq_items (sv_queues s a w))) = Some rc \<longrightarrow> answered a rc (hd (mq_items (sv_queues s a w))) s') \<and>
          (\<forall>p. p \<noteq> hd (mq_items (sv_queues s a w)) \<longrightarrow> sv_contexts s' p = sv_contexts s p) \<and>
          protocol_step (phase_of s) (phase_of s') \<and> sv_fds s' = sv_fds s \<and>
          sv_actor_count s' = sv_actor_count s \<and> sv_io_worker_count s' = sv_io_worker_count s)"

lemma queue_head:
  assumes inv: "server_inv pend s" and aw: "(a, w) \<in> queue_ids s" and pend: "0 < pend a w"
  obtains p xs rc where "mq_items (sv_queues s a w) = p # xs" "sv_contexts s p = Some rc" "context_ok s p rc" "waiting_ok s rc"
proof -
  let ?q = "sv_queues s a w"
  have "mq_notified ?q + pend a w = length (mq_items ?q)" using inv aw by (auto simp: server_inv_def queues_ok_def)
  then obtain p xs where it: "mq_items ?q = p # xs" using pend by (cases "mq_items ?q") auto
  have "p \<in> waiting s" using pointer_not_queued [OF inv _ aw, of p] it by auto
  then obtain rc where rc: "sv_contexts s p = Some rc" "registration s rc = None" by (auto simp: waiting_def)
  have ok: "context_ok s p rc" using core_context inv rc(1) by (simp add: server_inv_def)
  then have "waiting_ok s rc" using rc(2) by (auto simp: context_ok_def reading_def writing_def)
  with it rc(1) ok that show thesis by blast
qed

text \<open>The context an actor puts back: answered, its watches stopped but one.\<close>

lemma actor_handle_one_eq:
  assumes pop: "mrmw_queue_pop (sv_queues s a w) = Inr (p, q)" and p: "p \<noteq> NULL" "sv_contexts s p = Some rc"
    and wait: "waiting_ok s rc" "rc_wf rc" "sv_fds s (rc_fd rc) \<noteq> None"
  obtains (oom) "actor_handle_one al clk fr a w s = Inl OOM"
        "(\<exists>ts. prs_wf ts \<and> handle_request al (rc\<lparr>rc_actor_id := int a, rc_time_stats := ts\<rparr>) = Inl OOM) \<or>
         malloc al SIZEOF_SocketContext = None \<or> fr = []"
    | (overflow) "actor_handle_one al clk fr a w s = Inl Out_Of_Bounds" "10 ^ 9 \<le> req_path_len (rc_http_request rc)"
    | (answered) cp fr' rc' ts rc1 where "fr = cp # fr'" "rc_wf rc'" "rc_parsed rc'" "running rc' = {TOTAL_TIME}" "same_connection rc rc'"
        "actor_handle_one al clk fr a w s = Inr (True, fr', set_epoll (rc_epoll_info rc) (rc_fd rc) (Some (OUTPUT_EVENTS, cp))
           (put_socket cp (writer p (rc_epoll_info rc)) (put_context p rc' (put_queue a w q s))))"
        "prs_wf ts" "handle_request al (rc\<lparr>rc_actor_id := int a, rc_time_stats := ts\<rparr>) = Inr rc1"
        "rc_output_buffer rc' = rc_output_buffer rc1" "context_keep_alive rc' = context_keep_alive rc"
proof -
  have run: "running rc = {TOTAL_TIME, QUEUE_TIME}" and parsed: "rc_parsed rc" and none: "registration s rc = None"
    using wait(1) by (simp_all add: waiting_ok_def)
  obtain ts0 where ts0: "per_request_record_end (clk 0) (rc_time_stats rc) QUEUE_TIME = Inr ts0"
      "prs_running ts0 = {TOTAL_TIME}" "prs_wf ts0"
    using record_end_ok [of QUEUE_TIME "rc_time_stats rc" "clk 0"] run wait(2) by (auto simp: rc_wf_def)
  obtain ts where ts: "per_request_record_start (clk 1) ts0 ACTOR_TIME = Inr ts" "prs_wf ts"
      "\<And>now. \<exists>ts'. per_request_record_end now ts ACTOR_TIME = Inr ts' \<and> prs_running ts' = {TOTAL_TIME} \<and> prs_wf ts'"
    using stop_watch [of "rc\<lparr>rc_time_stats := ts0\<rparr>" ACTOR_TIME "clk 1"] ts0(2,3) by auto
  obtain ts' where ts': "per_request_record_end (clk 2) ts ACTOR_TIME = Inr ts'" "prs_running ts' = {TOTAL_TIME}" "prs_wf ts'"
    using ts(3) by blast
  let ?rc0 = "rc\<lparr>rc_actor_id := int a, rc_time_stats := ts\<rparr>"
  note unf = actor_handle_one_def get_context_def Let_def
  show thesis
  proof (cases "10 ^ 9 \<le> req_path_len (rc_http_request rc)")
    case True
    then have "handle_request al ?rc0 = Inl Out_Of_Bounds" by (intro handle_request_overflow) simp
    then show thesis using overflow True pop p ts0(1) ts(1) by (simp add: unf)
  next
    case False
    have "rc_wf ?rc0" "rc_parsed ?rc0" using wait(2) parsed ts(2) by (simp_all add: rc_wf_def rc_parsed_def)
    from handle_request_outcome [OF this, of al] False
    consider "handle_request al ?rc0 = Inl OOM" | ob where "handle_request al ?rc0 = Inr (?rc0\<lparr>rc_output_buffer := ob\<rparr>)" "ob_wf ob"
      by auto
    then show thesis
    proof cases
      case 1
      then show thesis using oom pop p ts0(1) ts(1,2) by (auto simp: unf)
    next
      case (2 ob)
      let ?rc' = "rc\<lparr>rc_actor_id := int a, rc_output_buffer := ob, rc_time_stats := ts'\<rparr>"
      note pre = pop p ts0(1) ts(1) 2(1) ts'(1)
      show thesis
      proof (cases "malloc al SIZEOF_SocketContext = None \<or> fr = []")
        case True
        then show thesis
          using oom pre by (cases "malloc al SIZEOF_SocketContext") (auto simp: unf init_context_def CHECK_MEM_def)
      next
        case False
        then obtain cp fr' m where m: "fr = cp # fr'" "malloc al SIZEOF_SocketContext = Some m" by (cases fr) auto
        have "rc_wf ?rc'" "rc_parsed ?rc'" "running ?rc' = {TOTAL_TIME}" "same_connection rc ?rc'"
          using wait(2) parsed ts' 2(2) by (simp_all add: rc_wf_def rc_parsed_def same_connection_def)
        moreover have "actor_handle_one al clk fr a w s = Inr (True, fr', set_epoll (rc_epoll_info rc) (rc_fd rc)
            (Some (OUTPUT_EVENTS, cp)) (put_socket cp (writer p (rc_epoll_info rc)) (put_context p ?rc' (put_queue a w q s))))"
          using pre m none wait(3) by (simp add: unf init_context_def CHECK_MEM_def epoll_calls writer_def)
        ultimately show thesis using answered [OF m(1), of ?rc' ts "?rc0\<lparr>rc_output_buffer := ob\<rparr>"] ts(2) 2(1) by (simp add: context_keep_alive_def)
      qed
    qed
  qed
qed

text \<open>One item taken from a queue pays for one announcement of the actor.\<close>

lemma queues_ok_popped:
  assumes ok: "queues_ok pend s" and aw: "(a, w) \<in> queue_ids s" and pend: "0 < pend a w"
    and q: "mq_items (sv_queues s a w) = p # xs" and q': "mq_inv q'" "mq_items q' = xs" "mq_notified q' = mq_notified (sv_queues s a w)"
    and ids: "queue_ids s' = queue_ids s" and queues: "sv_queues s' = (sv_queues s)(a := (sv_queues s a)(w := q'))"
  shows "queues_ok (pend(a := (pend a)(w := pend a w - 1))) s'"
  unfolding queues_ok_def ids
proof clarify
  fix a' w'
  assume "(a', w') \<in> queue_ids s"
  then have "mq_inv (sv_queues s a' w') \<and> mq_notified (sv_queues s a' w') + pend a' w' = length (mq_items (sv_queues s a' w'))"
    "mq_notified (sv_queues s a w) + pend a w = length (mq_items (sv_queues s a w))"
    using ok aw by (auto simp: queues_ok_def)
  then show "mq_inv (sv_queues s' a' w') \<and> mq_notified (sv_queues s' a' w') +
      (pend(a := (pend a)(w := pend a w - 1))) a' w' = length (mq_items (sv_queues s' a' w'))"
    using q q' pend by (auto simp: queues)
qed

lemma actor_handle_one_ok:
  assumes inv: "server_inv pend s" and aw: "(a, w) \<in> queue_ids s" and pend: "0 < pend a w" and fr: "fresh s fr"
  shows "handled_one pend a w s (actor_handle_one al clk fr a w s)"
proof -
  let ?q = "sv_queues s a w"
  obtain p xs rc where h: "mq_items ?q = p # xs" "sv_contexts s p = Some rc" "context_ok s p rc" "waiting_ok s rc"
    using queue_head [OF inv aw pend] .
  have q: "mq_inv ?q" "mq_notified ?q + pend a w = length (mq_items ?q)" "server_core s" "queues_ok pend s"
    using inv aw by (auto simp: server_inv_def queues_ok_def)
  obtain q' where q': "mrmw_queue_pop ?q = Inr (p, q')" "mq_inv q'" "mq_items q' = xs" "mq_notified q' = mq_notified ?q"
    using mq_pop_item [OF q(1) h(1)] by blast
  have c: "p \<noteq> NULL" "rc_wf rc" "rc_epoll_info rc < sv_io_worker_count s" "sv_fds s (rc_fd rc) \<noteq> None"
    using h(3) by (simp_all add: context_ok_def)
  have none: "registration s rc = None" using h(4) by (simp add: waiting_ok_def)
  then have nofd: "sv_epolls s w' (rc_fd rc) = None" for w'
    using entries_of_context [OF q(3) h(2), of w'] by (cases "sv_epolls s w' (rc_fd rc)") auto
  from q'(1) c(1) h(2,4) c(2,4) show ?thesis
  proof (cases rule: actor_handle_one_eq [of s a w p q' rc al clk fr])
    case (answered cp fr' rc' ts rc1)
    define s' where "s' = set_epoll (rc_epoll_info rc) (rc_fd rc) (Some (OUTPUT_EVENTS, cp))
        (put_socket cp (writer p (rc_epoll_info rc)) (put_context p rc' (put_queue a w q' s)))"
    have cp: "sv_sockets s cp = None" "fresh s fr'" "cp \<notin> set fr'" using fr answered(1) by (simp_all add: fresh_def)
    have sc: "rc_fd rc' = rc_fd rc" "rc_epoll_info rc' = rc_epoll_info rc" using answered(5) by (simp_all add: same_connection_def)
    have ag: "agree_except p (rc_fd rc) cp s s'" by (simp add: agree_except_def s'_def)
    have ids: "queue_ids s' = queue_ids s" by (simp add: queue_ids_def s'_def)
    have "server_inv (pend(a := (pend a)(w := pend a w - 1))) s'"
    proof (rule inv_frame [OF inv ag exclusive_waiting [OF q(3) h(2) none cp(1)]])
      have "context_ok s' p rc'" using answered(2-4) sc c by (auto simp: context_ok_def writing_def s'_def)
      then show "connection_ok s' p (rc_fd rc) cp" using sc nofd by (simp add: connection_ok_def s'_def)
      show "queues_ok (pend(a := (pend a)(w := pend a w - 1))) s'"
        by (rule queues_ok_popped [OF q(4) aw pend h(1) q'(2-4) ids]) (simp add: s'_def fun_eq_iff)
      have "queued s' + mset (mq_items ?q) = queued s + mset (mq_items (sv_queues s' a w))"
        by (intro queued_change [OF aw ids]) (auto simp: s'_def)
      moreover have "p \<in> waiting s" "p \<notin> waiting s'" using h(2) none sc by (auto simp: waiting_def s'_def)
      ultimately show "queued s' + (if p \<in> waiting s then {#p#} else {#}) = queued s + (if p \<in> waiting s' then {#p#} else {#})"
        using q'(3) h(1) by (simp add: s'_def)
    qed (use h(2) in \<open>auto simp: s'_def\<close>)
    moreover have "answered a rc p s'"
    proof -
      have "writing s' p rc' cp" "sv_contexts s' p = Some rc'" using answered(3,4) sc by (simp_all add: writing_def s'_def)
      then show ?thesis using answered(5,7-10) unfolding answered_def by blast
    qed
    moreover have "protocol_step (phase_of s) (phase_of s')"
    proof -
      have "phase_of s p = Some Waiting" "phase_of s' p = Some Writing"
        using phase_waiting [OF h(2) none] phase_writing [of s' p rc' cp] answered(3,4) sc by (simp_all add: writing_def s'_def)
      then have "protocol_step (phase_of s) ((phase_of s)(p := phase_of s' p))" by (simp add: protocol_step.answer)
      then show ?thesis using phase_frame [OF ag exclusive_waiting [OF q(3) h(2) none cp(1)]] by simp
    qed
    moreover have "fresh s' fr'" using cp h(2) by (auto simp: fresh_def s'_def)
    moreover have "keeps_entries s s'" using agree_keeps_entries [OF ag] nofd by blast
    ultimately show ?thesis
      using answered(6) q'(3) h(1,2) by (simp add: handled_one_def s'_def fun_eq_iff)
  qed (use h in \<open>auto simp: handled_one_def oversized_def\<close>)
qed

text \<open>Reading the event counter announces all that is in the queue.\<close>

lemma server_core_cong:
  assumes "sv_contexts s' = sv_contexts s" "sv_sockets s' = sv_sockets s" "sv_epolls s' = sv_epolls s"
    "sv_io_worker_count s' = sv_io_worker_count s" "\<And>fd. sv_fds s' fd = None \<longleftrightarrow> sv_fds s fd = None"
  shows "server_core s' = server_core s"
  using assms
  by (simp add: server_core_def context_ok_def reading_def writing_def waiting_ok_def client_entry_def accept_entry_def fd_owned_def)

lemma waiting_cong: "\<lbrakk>sv_contexts s' = sv_contexts s; sv_epolls s' = sv_epolls s\<rbrakk> \<Longrightarrow> waiting s' = waiting s"
  by (simp add: waiting_def)

lemma event_read_ok:
  assumes inv: "server_inv pend s" and aw: "(a, w) \<in> queue_ids s" and idle: "pend a w = 0"
  obtains q where "mrmw_queue_event_read (sv_queues s a w) =
      (if mq_items (sv_queues s a w) = [] then None else Some (of_nat (length (mq_items (sv_queues s a w)))), q)"
    and "mq_items q = mq_items (sv_queues s a w)"
    and "unat (of_nat (length (mq_items (sv_queues s a w))) :: 64 word) = length (mq_items (sv_queues s a w))"
    and "server_inv (pend(a := (pend a)(w := length (mq_items (sv_queues s a w))))) (put_queue a w q s)"
proof -
  let ?q = "sv_queues s a w" and ?n = "length (mq_items (sv_queues s a w))"
  have q: "mq_inv ?q" "mq_notified ?q = ?n" "queues_ok pend s" using inv aw idle by (auto simp: server_inv_def queues_ok_def)
  obtain q' where r: "mrmw_queue_event_read ?q = (if mq_notified ?q = 0 then None else Some (mq_add_event ?q), q')"
    and it: "mq_items q' = mq_items ?q" "mq_inv q'" "mq_notified q' = 0"
    using mq_event_read [OF q(1)] by metis
  have ev: "mq_add_event ?q = of_nat ?n" using q(2) of_nat_unat_size [of "mq_add_event ?q"] by (simp add: mq_notified_def)
  have n: "unat (of_nat ?n :: 64 word) = ?n" using q(2) ev by (simp add: mq_notified_def)
  have "mrmw_queue_event_read ?q = (if mq_items ?q = [] then None else Some (of_nat ?n), q')" using r ev q(2) by simp
  moreover have "server_inv (pend(a := (pend a)(w := ?n))) (put_queue a w q' s)"
  proof -
    have core: "server_core (put_queue a w q' s)" using inv server_core_cong [of "put_queue a w q' s" s] by (simp add: server_inv_def)
    have ids: "queue_ids (put_queue a w q' s) = queue_ids s" by (simp add: queue_ids_def)
    have "queued (put_queue a w q' s) + mset (mq_items ?q) = queued s + mset (mq_items (sv_queues (put_queue a w q' s) a w))"
      by (rule queued_change [OF aw ids]) auto
    then have eq: "queued (put_queue a w q' s) = queued s" using it(1) by simp
    have "queues_ok (pend(a := (pend a)(w := ?n))) (put_queue a w q' s)"
      unfolding queues_ok_def ids using q(3) it by (auto simp: queues_ok_def)
    moreover have "waiting (put_queue a w q' s) = waiting s" by (rule waiting_cong) simp_all
    ultimately show ?thesis using inv core eq by (simp add: server_inv_def)
  qed
  ultimately show thesis using that n it(1) by blast
qed

lemma actor_loop_ok:
  assumes "server_inv pend s" and "(a, w) \<in> queue_ids s" and "pend a w = n" and "fresh s fr"
  shows "case actor_loop al clk a w n fr s of
       Inl e \<Rightarrow> e = OOM \<or> e = Out_Of_Bounds
     | Inr (continue, fr', s') \<Rightarrow> continue \<and> server_inv (pend(a := (pend a)(w := 0))) s' \<and> fresh s' fr' \<and>
         keeps_entries s s' \<and> mq_items (sv_queues s' a w) = drop n (mq_items (sv_queues s a w)) \<and> queue_ids s' = queue_ids s"
  using assms
proof (induction n arbitrary: pend s fr)
  case 0
  then have "pend(a := (pend a)(w := 0)) = pend" by (simp add: fun_upd_idem)
  then show ?case using 0 by simp
next
  case (Suc n)
  have one: "handled_one pend a w s (actor_handle_one al (clk n) fr a w s)"
    using actor_handle_one_ok Suc.prems by simp
  show ?case
  proof (cases "actor_handle_one al (clk n) fr a w s")
    case (Inl e)
    then show ?thesis using one by (auto simp: handled_one_def)
  next
    case (Inr r)
    then obtain fr1 s1 where r: "actor_handle_one al (clk n) fr a w s = Inr (True, fr1, s1)"
      using one by (cases r) (auto simp: handled_one_def)
    let ?pend = "pend(a := (pend a)(w := n))"
    have s1: "server_inv ?pend s1" "fresh s1 fr1" "keeps_entries s s1" "queue_ids s1 = queue_ids s"
        "mq_items (sv_queues s a w) = hd (mq_items (sv_queues s a w)) # mq_items (sv_queues s1 a w)"
      using one r Suc.prems(3) by (auto simp: handled_one_def queue_ids_def)
    have "drop (Suc n) (mq_items (sv_queues s a w)) = drop n (mq_items (sv_queues s1 a w))"
      using s1(5) by (metis drop_Suc_Cons)
    moreover have upd: "?pend(a := (?pend a)(w := 0)) = pend(a := (pend a)(w := 0))" "?pend a w = n" by simp_all
    moreover have "(a, w) \<in> queue_ids s1" using Suc.prems(2) s1(4) by simp
    ultimately show ?thesis
      using Suc.IH [OF s1(1) _ upd(2) s1(2)] s1(3,4) r keeps_entries_trans [OF s1(3)]
      by (cases "actor_loop al clk a w n fr1 s1") (simp_all add: case_prod_beta del: fun_upd_apply)
  qed
qed

section \<open>IO workers\<close>

text \<open>Descriptors \<^verbatim>\<open>accept\<close> may return: all different, none of them open.\<close>

fun accepted_fds :: "accept_result list \<Rightarrow> int list" where
  "accepted_fds (Accept_Conn fd k host nodelay quickack nameinfo # accs) = fd # accepted_fds accs"
| "accepted_fds _ = []"

definition accepts_ok :: "server \<Rightarrow> accept_result list \<Rightarrow> bool" where
  "accepts_ok s accs \<longleftrightarrow> distinct (accepted_fds accs) \<and> (\<forall>fd\<in>set (accepted_fds accs). sv_fds s fd = None)"

definition accept_ok :: "pending \<Rightarrow> server \<Rightarrow> server res \<Rightarrow> bool" where
  "accept_ok pend s r \<longleftrightarrow> (case r of Inl e \<Rightarrow> accept_fault e | Inr s' \<Rightarrow> server_inv pend s' \<and> keeps_entries s s' \<and>
     sv_contexts s \<subseteq>\<^sub>m sv_contexts s' \<and> sv_fds s \<subseteq>\<^sub>m sv_fds s' \<and> accepts_only (phase_of s) (phase_of s'))"

lemma init_request_context_fault: "init_request_context al fd host w = Inl e \<Longrightarrow> e = OOM"
  by (auto simp: init_request_context_def input_buffer_init_def output_buffer_init_def res_simps)

text \<open>The memory after a connection has been accepted.\<close>

definition with_connection :: "pointer \<Rightarrow> pointer \<Rightarrow> nat \<Rightarrow> RequestContext \<Rightarrow> socket \<Rightarrow> server \<Rightarrow> server" where
  "with_connection p cp w rc k s =
     set_epoll w (rc_fd rc) (Some (INPUT_EVENTS, cp)) (put_socket cp (reader p w) (put_context p rc
       (put_fd (rc_fd rc) k s\<lparr>sv_stats := server_stats_incr_active_requests (sv_stats s)\<rparr>)))"

lemma with_connection_ok:
  assumes inv: "server_inv pend s" and fr: "fresh s (p # cp # fr)" and w: "w < sv_io_worker_count s" and fd: "sv_fds s (rc_fd rc) = None"
    and rc: "rc_wf rc" "rc_epoll_info rc = w" "running rc = {TOTAL_TIME}" "drained rc"
  shows "server_inv pend (with_connection p cp w rc k s) \<and> keeps_entries s (with_connection p cp w rc k s) \<and>
     fresh (with_connection p cp w rc k s) fr"
proof -
  let ?s = "with_connection p cp w rc k s"
  have f: "p \<noteq> NULL" "sv_contexts s p = None" "sv_sockets s cp = None" using fr by (simp_all add: fresh_def)
  have core: "server_core s" "queues_ok pend s" using inv by (simp_all add: server_inv_def)
  note closed = closed_fd_unused(1) [OF core(1) fd]
  have ag: "agree_except p (rc_fd rc) cp s ?s" by (simp add: agree_except_def with_connection_def)
  have ids: "queue_ids ?s = queue_ids s" by (simp add: queue_ids_def with_connection_def)
  have nw: "p \<notin> waiting s" "p \<notin> waiting ?s" using f(2) rc(2) by (auto simp: waiting_def with_connection_def)
  have "server_inv pend ?s"
  proof (rule inv_frame [OF inv ag exclusive_new [OF core(1) f(2,3) fd]])
    have "context_ok ?s p rc" using f(1) rc w by (auto simp: context_ok_def reading_def with_connection_def)
    then show "connection_ok ?s p (rc_fd rc) cp" using rc(2) closed by (simp add: connection_ok_def with_connection_def)
    show "queues_ok pend ?s" using core(2) ids by (simp add: queues_ok_def with_connection_def)
    show "queued ?s + (if p \<in> waiting s then {#p#} else {#}) = queued s + (if p \<in> waiting ?s then {#p#} else {#})"
      using nw ids by (simp add: queued_def with_connection_def)
  qed (use f(2) in \<open>simp add: with_connection_def server_stats_incr_active_requests_def domIff\<close>)
  moreover have "fresh ?s fr" using fr by (auto simp: fresh_def with_connection_def)
  ultimately show ?thesis using agree_keeps_entries [OF ag] closed by blast
qed

lemma accept_connection_success:
  assumes core: "server_core s" and fd: "sv_fds s fd = None" and ret: "nodelay \<noteq> - 1" "quickack \<noteq> - 1" "nameinfo \<noteq> - 1"
    and mem: "malloc al NI_MAXHOST \<noteq> None" "malloc al SIZEOF_SocketContext \<noteq> None" "init_request_context al fd host w = Inr rc0"
  shows "\<exists>rc ts. rc = rc0\<lparr>rc_time_stats := ts\<rparr> \<and> rc_wf rc \<and> rc_fd rc = fd \<and> rc_epoll_info rc = w \<and> running rc = {TOTAL_TIME} \<and> drained rc \<and>
     accept_connection al now p cp w fd k host nodelay quickack nameinfo s = Inr (with_connection p cp w rc k s)"
proof -
  note i = init_request_context_wf [OF mem(3)]
  obtain ts where ts: "per_request_record_start now (rc_time_stats rc0) TOTAL_TIME = Inr ts" "prs_running ts = {TOTAL_TIME}" "prs_wf ts"
    using record_start_ok [of TOTAL_TIME "rc_time_stats rc0" now] i by (auto simp: rc_wf_def)
  let ?rc = "rc0\<lparr>rc_time_stats := ts\<rparr>"
  have "accept_connection al now p cp w fd k host nodelay quickack nameinfo s = Inr (with_connection p cp w ?rc k s)"
    using ret mem ts(1) closed_fd_unused(1) [OF core fd, of w] i
    by (auto simp: accept_connection_def Let_def CHECK_def CHECK_MEM_def init_context_def epoll_calls with_connection_def reader_def)
  then show ?thesis using i ts by (intro exI [of _ ?rc] exI [of _ ts]) (simp add: rc_wf_def)
qed

lemma accept_connection_outcome:
  assumes core: "server_core s" and fd: "sv_fds s fd = None"
  obtains (fault) e where "accept_connection al now p cp w fd k host nodelay quickack nameinfo s = Inl e" "accept_fault e"
    | (accepted) rc where "rc_wf rc" "rc_fd rc = fd" "rc_epoll_info rc = w" "running rc = {TOTAL_TIME}"
        "accept_connection al now p cp w fd k host nodelay quickack nameinfo s = Inr (with_connection p cp w rc k s)" "drained rc"
proof (cases "nodelay = - 1 \<or> quickack = - 1 \<or> nameinfo = - 1 \<or> malloc al NI_MAXHOST = None \<or>
    malloc al SIZEOF_SocketContext = None \<or> (\<exists>e. init_request_context al fd host w = Inl e)")
  case True
  have started: "\<exists>ts. per_request_record_start now (rc_time_stats rc) TOTAL_TIME = Inr ts"
    if "init_request_context al fd host w = Inr rc" for rc
    using init_request_context_wf [OF that] record_start_ok [of TOTAL_TIME "rc_time_stats rc" now] by auto
  have "accept_connection al now p cp w fd k host nodelay quickack nameinfo s = Inl e \<Longrightarrow> accept_fault e" for e
    using True started
    by (auto simp: accept_connection_def Let_def res_simps init_context_def accept_fault_def
        simp del: malloc_eq_Some dest: init_request_context_fault)
  moreover have "accept_connection al now p cp w fd k host nodelay quickack nameinfo s \<noteq> Inr s'" for s'
    using True by (auto simp: accept_connection_def Let_def res_simps init_context_def simp del: malloc_eq_Some)
  ultimately show thesis
    using fault by (cases "accept_connection al now p cp w fd k host nodelay quickack nameinfo s") auto
next
  case False
  then obtain rc0 where "init_request_context al fd host w = Inr rc0" "malloc al NI_MAXHOST \<noteq> None" "malloc al SIZEOF_SocketContext \<noteq> None"
    by (cases "init_request_context al fd host w") auto
  then show thesis using accept_connection_success [OF core fd, of nodelay quickack nameinfo al host w rc0 now p cp k] False accepted by blast
qed

lemma fresh_context_map_le: "fresh s (p # fr) \<Longrightarrow> sv_contexts s \<subseteq>\<^sub>m (sv_contexts s)(p \<mapsto> rc)"
  by (simp add: fresh_def map_le_def dom_def)

lemma fresh_fd_map_le: "sv_fds s fd = None \<Longrightarrow> sv_fds s \<subseteq>\<^sub>m (sv_fds s)(fd \<mapsto> k)"
  by (simp add: map_le_def dom_def)

lemma with_connection_fields:
  "sv_contexts (with_connection p cp w rc k s) = (sv_contexts s)(p \<mapsto> rc)"
  "sv_fds (with_connection p cp w rc k s) = (sv_fds s)(rc_fd rc \<mapsto> k)"
  by (simp_all add: with_connection_def)

lemma with_connection_accepts:
  assumes "server_core s" and "fresh s (p # fr)" and "sv_fds s (rc_fd rc) = None" and "rc_epoll_info rc = w"
  shows "accepts_only (phase_of s) (phase_of (with_connection p cp w rc k s))"
proof -
  let ?s = "with_connection p cp w rc k s"
  have p: "sv_contexts s p = None" using assms(2) by (simp add: fresh_def)
  have "phase_of ?s p' = ((phase_of s)(p \<mapsto> Reading)) p'" for p'
    using closed_fd_unused(2) [OF assms(1,3), of p'] assms(4)
    by (auto simp: phase_of_def with_connection_def split: option.splits)
  then have "phase_of ?s = (phase_of s)(p \<mapsto> Reading)" ..
  with p show ?thesis by (simp add: accepts_only_new phase_gone)
qed

lemma handle_accept_read_ok:
  assumes "server_inv pend s" and "fresh s fr" and "w < sv_io_worker_count s" and "accepts_ok s accs"
  shows "accept_ok pend s (handle_accept_read al clk fr w accs s)"
  using assms
proof (induction al clk fr w accs s rule: handle_accept_read.induct)
  case (1 al clk fr w fd k host nodelay quickack nameinfo accs s)
  show ?case
  proof (cases fr)
    case (Cons p fr1)
    show ?thesis
    proof (cases fr1)
      case (Cons cp fr2)
      have fr: "fr = p # cp # fr2" using Cons \<open>fr = p # fr1\<close> by simp
      have f: "fresh s (p # cp # fr2)" "sv_fds s fd = None" "server_core s"
        using 1 fr by (simp_all add: accepts_ok_def server_inv_def)
      from f(3,2) show ?thesis
      proof (cases rule: accept_connection_outcome [of s fd al "clk 0" p cp w k host nodelay quickack nameinfo])
        case (fault e)
        then show ?thesis by (simp add: fr accept_ok_def)
      next
        case (accepted rc)
        let ?s = "with_connection p cp w rc k s"
        have c: "server_inv pend ?s" "keeps_entries s ?s" "fresh ?s fr2"
          using with_connection_ok [OF "1.prems"(1) f(1) "1.prems"(3) _ accepted(1,3,4,6)] accepted(2) f(2) by blast+
        have "accepts_ok ?s accs" using "1.prems"(4) accepted(2) by (auto simp: accepts_ok_def with_connection_def)
        moreover have "w < sv_io_worker_count ?s" using "1.prems"(3) by (simp add: with_connection_def)
        ultimately have "accept_ok pend ?s (handle_accept_read al (\<lambda>i. clk (Suc i)) fr2 w accs ?s)"
          using "1.IH" [OF fr refl] accepted(5) c by blast
        then show ?thesis
          using accepted(5) c(2) map_le_trans [OF fresh_context_map_le [OF f(1)]] map_le_trans [OF fresh_fd_map_le [OF f(2)]] accepted(2)
            accepts_only_trans [OF with_connection_accepts [OF f(3) f(1) f(2) [folded accepted(2)] accepted(3), of cp k]]
          by (auto simp: fr accept_ok_def with_connection_fields split: sum.splits intro: keeps_entries_trans)
      qed
    qed (use Cons in \<open>simp add: accept_ok_def accept_fault_def\<close>)
  qed (simp add: accept_ok_def accept_fault_def)
qed (simp_all add: accept_ok_def accept_fault_def)

text \<open>
  The start of an IO worker: its listening socket, just created, gets registered. The one new entry
  is an acceptor's, the one new descriptor and the one new socket context are the ones it names.
\<close>

lemma acceptor_entry:
  assumes core: "server_core s" and w: "w < sv_io_worker_count s" and fd: "sv_fds s fd = None" "0 \<le> fd" "fd < 2 ^ 31"
    and cp: "sv_sockets s cp = None"
    and s': "s' = set_epoll w fd (Some (INPUT_EVENTS, cp)) (put_socket cp (acceptor fd w) (put_fd fd k s))"
    and e: "sv_epolls s' w' fd' = Some (ev, cp')"
  shows "client_entry s' w' fd' \<or> accept_entry s' w' fd' ev cp'"
proof (cases "w' = w \<and> fd' = fd")
  case True
  then show ?thesis using e fd w closed_fd_unused(2) [OF core fd(1)] by (auto simp: s' accept_entry_def)
next
  case False
  then have e0: "sv_epolls s w' fd' = Some (ev, cp')" using e by (simp add: s' split: if_splits)
  then have "cp' \<noteq> cp" using fresh_socket_no_entry [OF core cp] by blast
  then show ?thesis using core_entry [OF core e0] by (auto simp: client_entry_def accept_entry_def s')
qed

lemma acceptor_owned:
  assumes core: "server_core s" and w: "w < sv_io_worker_count s" and fd: "sv_fds s fd = None" "0 \<le> fd" "fd < 2 ^ 31"
    and cp: "sv_sockets s cp = None"
    and s': "s' = set_epoll w fd (Some (INPUT_EVENTS, cp)) (put_socket cp (acceptor fd w) (put_fd fd k s))"
    and keeps: "keeps_entries s s'" and o: "sv_fds s' fd' \<noteq> None"
  shows "fd_owned s' fd'"
proof (cases "fd' = fd")
  case True
  then have "sv_epolls s' w fd' = Some (INPUT_EVENTS, cp)" "accept_entry s' w fd' INPUT_EVENTS cp"
    using fd w closed_fd_unused(2) [OF core fd(1)] by (auto simp: s' accept_entry_def)
  then show ?thesis unfolding fd_owned_def by blast
next
  case False
  have ctx: "sv_contexts s' = sv_contexts s" by (simp add: s')
  have "fd_owned s fd'" using core_fd_owned [OF core] o False by (simp add: s')
  moreover have "accept_entry s' w' fd' ev cp'" if "sv_epolls s w' fd' = Some (ev, cp')" "accept_entry s w' fd' ev cp'" for w' ev cp'
    using that fresh_socket_no_entry [OF core cp] False by (auto simp: accept_entry_def s')
  ultimately show ?thesis using keeps unfolding fd_owned_def keeps_entries_def ctx by blast
qed

lemma acceptor_core:
  assumes core: "server_core s" and w: "w < sv_io_worker_count s" and fd: "sv_fds s fd = None" "0 \<le> fd" "fd < 2 ^ 31"
    and cp: "sv_sockets s cp = None"
    and s': "s' = set_epoll w fd (Some (INPUT_EVENTS, cp)) (put_socket cp (acceptor fd w) (put_fd fd k s))"
    and keeps: "keeps_entries s s'"
  shows "server_core s'"
proof -
  note closed = closed_fd_unused [OF core fd(1)]
  have ctx: "sv_contexts s' = sv_contexts s" by (simp add: s')
  have ok: "context_ok s' p rc" if "sv_contexts s p = Some rc" for p rc
    using core_context [OF core that] closed(2) [OF that] fresh_socket_no_entry [OF core cp]
    by (fastforce simp: context_ok_def reading_def writing_def waiting_ok_def s')
  have sock: "\<exists>fd' ev. sv_epolls s' (sc_epoll_info sc) fd' = Some (ev, cp')" if sc: "sv_sockets s' cp' = Some sc" for cp' sc
  proof (cases "cp' = cp")
    case True
    then have "sv_epolls s' (sc_epoll_info sc) fd = Some (INPUT_EVENTS, cp')" using sc by (auto simp: s')
    then show ?thesis by blast
  next
    case False
    then have "sv_sockets s cp' = Some sc" using sc by (simp add: s')
    then show ?thesis using core_socket [OF core] keeps unfolding keeps_entries_def by blast
  qed
  note entry = acceptor_entry [OF core w fd cp s'] and owned = acceptor_owned [OF core w fd cp s' keeps]
  show ?thesis unfolding server_core_def ctx using ok entry sock owned core_fd_owner [OF core] by blast
qed

lemma io_event_loop_start_ok:
  assumes inv: "server_inv pend s" and w: "w < sv_io_worker_count s" and fd: "sv_fds s fd = None" "0 \<le> fd" "fd < 2 ^ 31"
    and cp: "sv_sockets s cp = None"
  shows "accept_ok pend s (io_event_loop_start al cp w fd (put_fd fd k s))"
proof (cases "malloc al SIZEOF_SocketContext")
  case None
  then show ?thesis by (simp add: io_event_loop_start_def init_context_def CHECK_MEM_def accept_ok_def accept_fault_def)
next
  case (Some m)
  define s' where "s' = set_epoll w fd (Some (INPUT_EVENTS, cp)) (put_socket cp (acceptor fd w) (put_fd fd k s))"
  have core: "server_core s" using inv by (simp add: server_inv_def)
  note closed = closed_fd_unused [OF core fd(1)]
  have "io_event_loop_start al cp w fd (put_fd fd k s) = Inr s'"
    using Some closed(1) [of w]
    by (simp add: io_event_loop_start_def init_context_def CHECK_MEM_def epoll_calls s'_def acceptor_def)
  moreover have keeps: "keeps_entries s s'" using closed(1) by (auto simp: keeps_entries_def s'_def)
  moreover have ctx: "sv_contexts s' = sv_contexts s" and "sv_fds s \<subseteq>\<^sub>m sv_fds s'"
    using fresh_fd_map_le [OF fd(1)] by (simp_all add: s'_def)
  moreover have "server_inv pend s'"
  proof -
    have "waiting s' = waiting s" using closed(2) by (auto simp: waiting_def ctx s'_def)
    moreover have "queue_ids s' = queue_ids s" by (simp add: queue_ids_def s'_def)
    ultimately show ?thesis
      using inv acceptor_core [OF core w fd cp s'_def keeps] by (simp add: server_inv_def queued_def queues_ok_def s'_def)
  qed
  moreover have "phase_of s' p = phase_of s p" for p
    using closed(2) [of p] by (auto simp: phase_of_def s'_def split: option.splits)
  then have "phase_of s' = phase_of s" ..
  ultimately show ?thesis by (simp add: accept_ok_def)
qed

section \<open>Dispatch\<close>

text \<open>\<^verbatim>\<open>epoll_wait\<close> reports input and output only when the registration asks for them.\<close>

definition reports :: "32 word \<Rightarrow> 32 word \<Rightarrow> bool" where
  "reports ev events \<longleftrightarrow> (has events EPOLLIN \<longrightarrow> has ev EPOLLIN) \<and> (has events EPOLLOUT \<longrightarrow> has ev EPOLLOUT)"

definition server_fault :: "fault \<Rightarrow> bool" where
  "server_fault e \<longleftrightarrow> resource_fault e \<or> accept_fault e"

definition io_ok :: "pending \<Rightarrow> nat \<Rightarrow> int \<Rightarrow> server \<Rightarrow> server res \<Rightarrow> bool" where
  "io_ok pend w fd s r \<longleftrightarrow>
     (case r of
        Inl e \<Rightarrow> server_fault e
      | Inr s' \<Rightarrow> server_inv pend s' \<and> protocol_step (phase_of s) (phase_of s') \<and> 
          (\<forall>p rc. rc_fd rc \<noteq> fd \<longrightarrow> sv_contexts s p = Some rc \<longrightarrow> sv_contexts s' p = Some rc) \<and>
          (\<forall>fd' k. fd' \<noteq> fd \<longrightarrow> sv_fds s fd' = Some k \<longrightarrow> sv_fds s' fd' = Some k) \<and>
          (\<forall>w' fd' e. (w', fd') \<noteq> (w, fd) \<longrightarrow> sv_epolls s w' fd' = Some e \<longrightarrow> sv_epolls s' w' fd' = Some e))"

lemma handler_io_ok:
  assumes "registered pend s p rc cp sc" and "handler_ok pend s p (rc_fd rc) cp F r"
    and "\<And>y. y \<in> F \<Longrightarrow> may_follow (phase_of s p) y"
  shows "io_ok pend (rc_epoll_info rc) (rc_fd rc) s r"
proof (cases r)
  case (Inr s')
  then have s': "server_inv pend s'" "agree_except p (rc_fd rc) cp s s'" "phase_of s' p \<in> F"
    using assms(2) by (simp_all add: handler_ok_def)
  have "protocol_step (phase_of s) (phase_of s')"
    using may_follow_step [of "phase_of s" p, OF assms(3) [OF s'(3)]] phase_frame [OF s'(2) registeredD(13) [OF assms(1)]] by simp
  moreover have "sv_epolls s' w' fd' = Some e" if "(w', fd') \<noteq> (rc_epoll_info rc, rc_fd rc)" "sv_epolls s w' fd' = Some e" for w' fd' e
  proof (cases "fd' = rc_fd rc")
    case True
    then have "w' \<noteq> rc_epoll_info rc" using that(1) by simp
    then have "sv_epolls s w' fd' = None" using registeredD(15) [OF assms(1)] True by simp
    then show ?thesis using that(2) by simp
  next
    case False
    then show ?thesis using s'(2) that(2) by (simp add: agree_except_def)
  qed
  moreover have "sv_contexts s' p' = Some rc'" if "rc_fd rc' \<noteq> rc_fd rc" "sv_contexts s p' = Some rc'" for p' rc'
    using s'(2) registeredD(3) [OF assms(1)] that by (cases "p' = p") (auto simp: agree_except_def)
  moreover have "sv_fds s' fd' = sv_fds s fd'" if "fd' \<noteq> rc_fd rc" for fd'
    using s'(2) that by (simp add: agree_except_def)
  ultimately show ?thesis using Inr s'(1) by (simp add: io_ok_def)
qed (use assms(2) in \<open>simp add: io_ok_def handler_ok_def server_fault_def\<close>)

lemma accept_io_ok: "accept_ok pend s r \<Longrightarrow> io_ok pend w fd s r"
  by (auto simp: accept_ok_def io_ok_def server_fault_def keeps_entries_def accepts_only_step map_le_def dom_def split: sum.splits)

lemma io_ok_nop: "server_inv pend s \<Longrightarrow> io_ok pend w fd s (Inr s)"
  by (simp add: io_ok_def protocol_skip)

lemma io_event_ok:
  assumes inv: "server_inv pend s" and e: "sv_epolls s w fd = Some (ev, cp)" and rep: "reports ev events"
    and fr: "fresh s fr" and accs: "accepts_ok s accs"
  shows "io_ok pend w fd s (io_event al clk fr accs w cp events s)"
proof -
  have core: "server_core s" using inv by (simp add: server_inv_def)
  note unf = io_event_def get_socket_def
  from core e show ?thesis
  proof (cases rule: core_entry_cases)
    case (client p rc)
    then consider (rd) "reading s p rc cp" "ev = INPUT_EVENTS" "sv_sockets s cp = Some (reader p w)"
      | (wr) "writing s p rc cp" "ev = OUTPUT_EVENTS" "sv_sockets s cp = Some (writer p w)"
      by (auto simp: reading_def writing_def)
    then show ?thesis
    proof cases
      case rd
      then have reg: "registered pend s p rc cp (reader p w)" using inv client(1,3) by (simp add: registered_def)
      have h: "input_handler (reader p w) = Some H_client_read" "error_handler (reader p w) = Some H_client_error"
        by (simp_all add: reader_def)
      have "\<not> has events EPOLLOUT" using rep rd(2) by (simp add: reports_def)
      moreover have "io_ok pend w fd s (client_handle_read al clk cp s)"
        using handler_io_ok [OF reg client_handle_read_ok [OF reg rd(1)]] phase_reading [OF client(1) rd(1)] client(2,3)
        by (auto simp: may_follow_def)
      moreover have "io_ok pend w fd s (client_handle_error (clk 0) cp events s)"
        using handler_io_ok [OF reg client_close_ok [OF reg]] phase_reading [OF client(1) rd(1)] client(2,3)
        by (auto simp: client_handle_error_def may_follow_def)
      moreover have "bind_res r Inr = r" for r :: "server res" by (cases r) auto
      ultimately show ?thesis using rd(3) h inv by (simp add: unf io_ok_nop)
    next
      case wr
      then have reg: "registered pend s p rc cp (writer p w)" using inv client(1,3) by (simp add: registered_def)
      have h: "output_handler (writer p w) = Some H_client_write" "error_handler (writer p w) = Some H_client_error"
        by (simp_all add: writer_def)
      have "\<not> has events EPOLLIN" using rep wr(2) by (simp add: reports_def)
      moreover have "io_ok pend w fd s (client_handle_write clk cp s)"
        using handler_io_ok [OF reg client_handle_write_ok [OF reg wr(1)]] phase_writing [OF client(1) wr(1)] client(2,3)
        by (auto simp: may_follow_def)
      moreover have "io_ok pend w fd s (client_handle_error (clk 0) cp events s)"
        using handler_io_ok [OF reg client_close_ok [OF reg]] phase_writing [OF client(1) wr(1)] client(2,3)
        by (auto simp: client_handle_error_def may_follow_def)
      ultimately show ?thesis using wr(3) h inv by (simp add: unf io_ok_nop)
    qed
  next
    case accept
    then have a: "sv_sockets s cp = Some (acceptor fd w)" "ev = INPUT_EVENTS" "w < sv_io_worker_count s"
      by (simp_all add: accept_entry_def)
    have h: "input_handler (acceptor fd w) = Some H_accept_read" "error_handler (acceptor fd w) = Some H_accept_error"
      by (simp_all add: acceptor_def)
    have "\<not> has events EPOLLOUT" using rep a(2) by (simp add: reports_def)
    moreover have "io_ok pend w fd s (handle_accept_read al clk fr w accs s)"
      using accept_io_ok [OF handle_accept_read_ok [OF inv fr a(3) accs]] .
    moreover have "io_ok pend w fd s (handle_accept_error s)"
      by (simp add: handle_accept_error_def io_ok_def server_fault_def accept_fault_def)
    moreover have "bind_res r Inr = r" for r :: "server res" by (cases r) auto
    ultimately show ?thesis using a(1) h inv by (simp add: unf io_ok_nop)
  qed
qed

end
