(* ===== verification/State_Machine.thy ===== *)
theory State_Machine
  imports Main
begin

text \<open>
  The contract of a state machine with an invariant: what holds at the start and is kept by
  every step holds in every reachable state.
\<close>

locale invariant_system =
  fixes start :: "'s \<Rightarrow> bool"
    and step :: "'s \<Rightarrow> 's \<Rightarrow> bool"
    and inv :: "'s \<Rightarrow> bool"
  assumes start_inv: "start s \<Longrightarrow> inv s"
    and step_inv: "\<lbrakk>inv s; step s s'\<rbrakk> \<Longrightarrow> inv s'"
begin

lemma steps_inv: "\<lbrakk>step\<^sup>*\<^sup>* s s'; inv s\<rbrakk> \<Longrightarrow> inv s'"
  by (induction rule: rtranclp_induct) (auto intro: step_inv)

lemma reachable_inv: "\<lbrakk>start s; step\<^sup>*\<^sup>* s s'\<rbrakk> \<Longrightarrow> inv s'"
  using start_inv steps_inv by blast

end

text \<open>
  The contract of a refinement: the abstraction of every step, from a state with the
  invariant, is a step of the specification. Runs then abstract to runs.
\<close>

locale simulation = invariant_system start step inv
  for start :: "'s \<Rightarrow> bool" and step :: "'s \<Rightarrow> 's \<Rightarrow> bool" and inv :: "'s \<Rightarrow> bool" +
  fixes abs :: "'s \<Rightarrow> 'a"
    and astep :: "'a \<Rightarrow> 'a \<Rightarrow> bool"
  assumes step_simulated: "\<lbrakk>inv s; step s s'\<rbrakk> \<Longrightarrow> astep (abs s) (abs s')"
begin

lemma steps_simulated: "\<lbrakk>step\<^sup>*\<^sup>* s s'; inv s\<rbrakk> \<Longrightarrow> astep\<^sup>*\<^sup>* (abs s) (abs s')"
  by (induction rule: rtranclp_induct) (auto intro: rtranclp.rtrancl_into_rtrancl step_simulated steps_inv)

lemma reachable_simulated: "\<lbrakk>start s; step\<^sup>*\<^sup>* s s'\<rbrakk> \<Longrightarrow> astep\<^sup>*\<^sup>* (abs s) (abs s')"
  using steps_simulated start_inv by blast

end

text \<open>
  The contract of progress under weak fairness: a step from a state that waits leaves it
  waiting, no further from the goal, or reaches the goal; a turn brings it nearer. If a state
  that waits for ever is given a turn, the goal is reached.
\<close>

locale progress = invariant_system start step inv
  for start :: "'s \<Rightarrow> bool" and step :: "'s \<Rightarrow> 's \<Rightarrow> bool" and inv :: "'s \<Rightarrow> bool" +
  fixes waits :: "'s \<Rightarrow> bool"
    and turn :: "'s \<Rightarrow> 's \<Rightarrow> bool"
    and far :: "'s \<Rightarrow> nat"
    and goal :: "'s \<Rightarrow> 's \<Rightarrow> bool"
  assumes step_keeps: "\<lbrakk>inv s; step s s'; waits s\<rbrakk> \<Longrightarrow> goal s s' \<or> waits s' \<and> far s' \<le> far s"
    and turn_nearer: "\<lbrakk>inv s; turn s s'; waits s\<rbrakk> \<Longrightarrow> goal s s' \<or> waits s' \<and> far s' < far s"
begin

lemma along_inv:
  assumes "start (run 0)" and "\<And>i. step (run i) (run (Suc i))"
  shows "inv (run i)"
proof (induction i)
  case 0
  show ?case using start_inv [OF assms(1)] .
next
  case (Suc i)
  then show ?case using step_inv assms(2) by blast
qed

lemma along_waits:
  assumes run: "start (run 0)" "\<And>i. step (run i) (run (Suc i))" and waits: "waits (run i)"
    and never: "\<And>j. i \<le> j \<Longrightarrow> \<not> goal (run j) (run (Suc j))"
  shows "waits (run (i + n)) \<and> far (run (i + n)) \<le> far (run i)"
proof (induction n)
  case (Suc n)
  then show ?case using step_keeps [of "run (i + n)" "run (Suc (i + n))"] along_inv [of run] run never [of "i + n"] by simp
qed (simp add: waits)

lemma goal_reached:
  assumes run: "start (run 0)" "\<And>i. step (run i) (run (Suc i))"
    and fair: "\<And>i. (\<And>j. i \<le> j \<Longrightarrow> waits (run j)) \<Longrightarrow> \<exists>j\<ge>i. turn (run j) (run (Suc j))"
    and waits: "waits (run i)"
  shows "\<exists>j\<ge>i. goal (run j) (run (Suc j))"
proof (rule ccontr)
  assume none: "\<not> ?thesis"
  from waits none show False
  proof (induction "far (run i)" arbitrary: i rule: less_induct)
    case (less i)
    have keep: "waits (run j) \<and> far (run j) \<le> far (run i)" if "i \<le> j" for j
      using along_waits [OF run less.prems(1), of "j - i"] less.prems(2) that by auto
    then obtain j where j: "i \<le> j" "turn (run j) (run (Suc j))" using fair by blast
    then have "waits (run (Suc j)) \<and> far (run (Suc j)) < far (run i)"
      using turn_nearer [OF along_inv [of run] j(2)] run keep [OF j(1)] less.prems(2) by (meson order_less_le_trans)
    then show False using less.hyps [of "Suc j"] less.prems(2) j(1) by (metis le_SucI le_trans)
  qed
qed

end

end
