(* ===== verification/Server_Safety.thy ===== *)
theory Server_Safety
  imports Server_Handlers Startup State_Machine
begin

text \<open>
  The running server: the threads of main.c interleaved. A configuration is the memory of the
  server, for every queue the announced requests an actor has still to pop (the loop variable
  of \<^verbatim>\<open>process_epoll_event\<close>), and for every IO worker the rest of the events its last
  \<^verbatim>\<open>epoll_wait\<close> returned. A step is one event handler of an IO worker, one request of an
  actor, one read of an event counter, one \<^verbatim>\<open>epoll_wait\<close>, the start of a worker, or a change of
  the network. Handlers of different threads work on different connections; what they share
  is the queue under its lock, the atomic counters and the kernel's tables.
\<close>

section \<open>Configurations and steps\<close>

record config =
  cf_server :: server
  cf_pending :: pending
  cf_batch :: "nat \<Rightarrow> (pointer \<times> 32 word) list"

definition set_pending :: "nat \<Rightarrow> nat \<Rightarrow> nat \<Rightarrow> pending \<Rightarrow> pending" where
  "set_pending a w n pend = pend(a := (pend a)(w := n))"

definition reported :: "server \<Rightarrow> nat \<Rightarrow> pointer \<times> 32 word \<Rightarrow> bool" where
  "reported s w e \<longleftrightarrow> (\<exists>fd ev. sv_epolls s w fd = Some (ev, fst e) \<and> reports ev (snd e))"

definition MAX_EVENTS :: nat where
  "MAX_EVENTS = 4096"

definition boot :: "server \<Rightarrow> config" where
  "boot s = \<lparr>cf_server = s, cf_pending = \<lambda>_ _. 0, cf_batch = \<lambda>_. []\<rparr>"

inductive started :: "config \<Rightarrow> bool" where
  "\<lbrakk>main_start al ret io_worker_count port cores = Inr (s, fds); 0 < cores; cores < 2 ^ 31\<rbrakk> \<Longrightarrow> started (boot s)"

text \<open>The turns of actor \<open>a\<close> at the queue of worker \<open>w\<close>: it reads the event counter, or it handles one announced request.\<close>

inductive actor_turn :: "nat \<Rightarrow> nat \<Rightarrow> config \<Rightarrow> config \<Rightarrow> bool" for a w where
  event_read: "\<lbrakk>(a, w) \<in> queue_ids (cf_server c); cf_pending c a w = 0;
      mrmw_queue_event_read (sv_queues (cf_server c) a w) = (Some n, q)\<rbrakk> \<Longrightarrow>
    actor_turn a w c (c\<lparr>cf_server := put_queue a w q (cf_server c), cf_pending := set_pending a w (unat n) (cf_pending c)\<rparr>)"
| handle: "\<lbrakk>(a, w) \<in> queue_ids (cf_server c); 0 < cf_pending c a w; fresh (cf_server c) fr;
      actor_handle_one al clk fr a w (cf_server c) = Inr (continue, fr', s')\<rbrakk> \<Longrightarrow>
    actor_turn a w c (c\<lparr>cf_server := s',
      cf_pending := set_pending a w (if continue then cf_pending c a w - 1 else 0) (cf_pending c)\<rparr>)"

inductive server_step :: "config \<Rightarrow> config \<Rightarrow> bool" where
  worker_start: "\<lbrakk>w < sv_io_worker_count (cf_server c); sv_fds (cf_server c) fd = None; 0 \<le> fd; fd < 2 ^ 31;
      sv_sockets (cf_server c) cp = None; io_event_loop_start al cp w fd (put_fd fd k (cf_server c)) = Inr s'\<rbrakk> \<Longrightarrow>
    server_step c (c\<lparr>cf_server := s'\<rparr>)"
| epoll_wait: "\<lbrakk>cf_batch c w = []; length es \<le> MAX_EVENTS; distinct (map fst es); \<forall>e\<in>set es. reported (cf_server c) w e\<rbrakk> \<Longrightarrow>
    server_step c (c\<lparr>cf_batch := (cf_batch c)(w := es)\<rparr>)"
| io: "\<lbrakk>cf_batch c w = (cp, events) # es; fresh (cf_server c) fr; accepts_ok (cf_server c) accs;
      io_event al clk fr accs w cp events (cf_server c) = Inr s'\<rbrakk> \<Longrightarrow>
    server_step c (c\<lparr>cf_server := s', cf_batch := (cf_batch c)(w := es)\<rparr>)"
| actor: "actor_turn a w c c' \<Longrightarrow> server_step c c'"
| network: "\<lbrakk>dom fds = dom (sv_fds (cf_server c)); \<And>fd k k'. \<lbrakk>sv_fds (cf_server c) fd = Some k; fds fd = Some k'\<rbrakk> \<Longrightarrow> sent k' = sent k\<rbrakk> \<Longrightarrow>
    server_step c (c\<lparr>cf_server := (cf_server c)\<lparr>sv_fds := fds\<rparr>\<rparr>)"

inductive_cases server_stepE: "server_step c c'"

definition reachable :: "config \<Rightarrow> bool" where
  "reachable c \<longleftrightarrow> (\<exists>c0. started c0 \<and> server_step\<^sup>*\<^sup>* c0 c)"

lemma reachable_step: "\<lbrakk>reachable c; server_step c c'\<rbrakk> \<Longrightarrow> reachable c'"
  by (auto simp: reachable_def intro: rtranclp.rtrancl_into_rtrancl)

section \<open>The invariant of the configurations\<close>

definition config_inv :: "config \<Rightarrow> bool" where
  "config_inv c \<longleftrightarrow> server_inv (cf_pending c) (cf_server c) \<and>
     (\<forall>w. distinct (map fst (cf_batch c w)) \<and> (\<forall>e\<in>set (cf_batch c w). reported (cf_server c) w e))"

lemma init_queues_ok:
  "init_queues al n = Inr qs \<Longrightarrow> length qs = n \<and> (\<forall>i<n. mq_inv (qs ! i) \<and> mq_items (qs ! i) = [] \<and> mq_notified (qs ! i) = 0)"
proof (induction n arbitrary: qs)
  case (Suc n)
  then obtain q qs' where q: "mrmw_queue_init al 1024 = Inr q" "init_queues al n = Inr qs'" "qs = q # qs'"
    by (auto simp: res_simps)
  show ?case using mrmw_queue_init_inv [OF q(1)] Suc.IH [OF q(2)] q(3) by (auto simp: nth_Cons split: nat.splits)
qed simp

lemma create_actors_ok:
  "create_actors al ret W i n = Inr qss \<Longrightarrow> length qss = n \<and> (\<forall>a<n. \<forall>w<nat W.
     mq_inv (qss ! a ! w) \<and> mq_items (qss ! a ! w) = [] \<and> mq_notified (qss ! a ! w) = 0)"
proof (induction n arbitrary: i qss)
  case (Suc n)
  then obtain qs qss' where q: "create_actor al (ret i) W i = Inr qs" "create_actors al ret W (Suc i) n = Inr qss'" "qss = qs # qss'"
    by (auto simp: res_simps)
  have "init_queues al (nat W) = Inr qs" using q(1) by (auto simp: create_actor_def res_simps)
  then show ?case using init_queues_ok Suc.IH [OF q(2)] q(3) by (auto simp: nth_Cons split: nat.splits)
qed simp

lemma main_start_inv:
  assumes "main_start al ret W port cores = Inr (s, fds)" and "0 < cores" and "cores < 2 ^ 31"
  shows "server_inv (\<lambda>_ _. 0) s"
proof -
  obtain st qss where m: "server_stats_init al = Inr st" "create_actors al (actor_ret ret) W 0 cores = Inr qss"
      "s = \<lparr>sv_stats = st, sv_io_worker_count = nat W, sv_actor_count = cores, sv_queues = \<lambda>a w. qss ! a ! w,
             sv_contexts = \<lambda>_. None, sv_sockets = \<lambda>_. None, sv_epolls = \<lambda>_ _. None, sv_fds = \<lambda>_. None, sv_count = 0\<rparr>"
    using assms(1) by (auto simp: main_start_def res_simps)
  have st: "active_connections st = 0" using m(1) by (auto simp: server_stats_init_def res_simps)
  have q: "\<forall>(a, w)\<in>queue_ids s. mq_inv (sv_queues s a w) \<and> mq_items (sv_queues s a w) = [] \<and> mq_notified (sv_queues s a w) = 0"
    using create_actors_ok [OF m(2)] by (auto simp: queue_ids_def m(3))
  then have "queued s = {#}" unfolding queued_def by (intro sum.neutral) auto
  moreover have "queues_ok (\<lambda>_ _. 0) s" using q by (auto simp: queues_ok_def)
  moreover have "server_core s" "waiting s = {}" by (simp_all add: m(3) server_core_def waiting_def)
  ultimately show ?thesis using assms(2,3) st by (simp add: server_inv_def m(3))
qed

lemma reported_mono: "\<lbrakk>keeps_entries s s'; reported s w e\<rbrakk> \<Longrightarrow> reported s' w e"
  unfolding reported_def keeps_entries_def by blast

lemma io_step_inv:
  assumes inv: "config_inv c" and batch: "cf_batch c w = (cp, events) # es" and fr: "fresh (cf_server c) fr"
    and accs: "accepts_ok (cf_server c) accs" and r: "io_event al clk fr accs w cp events (cf_server c) = Inr s'"
  shows "config_inv (c\<lparr>cf_server := s', cf_batch := (cf_batch c)(w := es)\<rparr>)"
proof -
  let ?s = "cf_server c"
  have c: "server_inv (cf_pending c) ?s" "\<And>w. distinct (map fst (cf_batch c w))" "\<And>w e. e \<in> set (cf_batch c w) \<Longrightarrow> reported ?s w e"
    using inv by (simp_all add: config_inv_def)
  have core: "server_core ?s" using c(1) by (simp add: server_inv_def)
  obtain fd ev where e: "sv_epolls ?s w fd = Some (ev, cp)" "reports ev events"
    using c(3) [of "(cp, events)" w] batch by (auto simp: reported_def)
  have io: "server_inv (cf_pending c) s'"
      "\<And>w' fd' e. \<lbrakk>(w', fd') \<noteq> (w, fd); sv_epolls ?s w' fd' = Some e\<rbrakk> \<Longrightarrow> sv_epolls s' w' fd' = Some e"
    using io_event_ok [OF c(1) e fr accs, of al clk, unfolded r io_ok_def sum.case] by blast+
  have "reported s' w' x" if x: "reported ?s w' x" "w' = w \<longrightarrow> fst x \<noteq> cp" for w' x
  proof -
    obtain fd' ev' where f: "sv_epolls ?s w' fd' = Some (ev', fst x)" "reports ev' (snd x)"
      using x(1) by (auto simp: reported_def)
    have "(w', fd') \<noteq> (w, fd)" using f(1) e(1) x(2) by auto
    from io(2) [OF this f(1)] f(2) show ?thesis by (auto simp: reported_def)
  qed
  moreover have "w' = w \<longrightarrow> fst x \<noteq> cp" if "x \<in> set (((cf_batch c)(w := es)) w')" for x w'
    using that c(2) [of w] batch by (auto simp: image_iff)
  moreover have "set (((cf_batch c)(w := es)) w') \<subseteq> set (cf_batch c w')" "distinct (map fst (((cf_batch c)(w := es)) w'))" for w'
    using batch c(2) [of w'] by (auto split: if_splits)
  ultimately show ?thesis using io(1) c(3) unfolding config_inv_def by (auto simp del: fun_upd_apply) blast
qed

lemma actor_turn_inv:
  assumes "config_inv c" and "actor_turn a w c c'"
  shows "config_inv c'"
  using assms(2)
proof (cases rule: actor_turn.cases)
  case (event_read n q)
  have inv: "server_inv (cf_pending c) (cf_server c)" using assms(1) by (simp add: config_inv_def)
  obtain q' where q': "mrmw_queue_event_read (sv_queues (cf_server c) a w) =
        (if mq_items (sv_queues (cf_server c) a w) = [] then None else Some (of_nat (length (mq_items (sv_queues (cf_server c) a w)))), q')"
      "unat (of_nat (length (mq_items (sv_queues (cf_server c) a w))) :: 64 word) = length (mq_items (sv_queues (cf_server c) a w))"
      "server_inv ((cf_pending c)(a := (cf_pending c a)(w := length (mq_items (sv_queues (cf_server c) a w))))) (put_queue a w q' (cf_server c))"
    using event_read_ok [OF inv event_read(2,3)] by blast
  have "q' = q" "unat n = length (mq_items (sv_queues (cf_server c) a w))"
    using q'(1,2) event_read(4) by (simp_all split: if_splits)
  then have "server_inv (set_pending a w (unat n) (cf_pending c)) (put_queue a w q (cf_server c))"
    using q'(3) by (simp add: set_pending_def)
  moreover have "reported (put_queue a w q (cf_server c)) w' e = reported (cf_server c) w' e" for w' e
    by (simp add: reported_def)
  ultimately show ?thesis using event_read(1) assms(1) by (simp add: config_inv_def)
next
  case (handle fr al clk continue fr' s')
  have "handled_one (cf_pending c) a w (cf_server c) (Inr (continue, fr', s'))"
    using actor_handle_one_ok [of "cf_pending c" "cf_server c" a w fr al clk] handle assms(1) by (simp add: config_inv_def)
  then have "continue" "server_inv (set_pending a w (cf_pending c a w - 1) (cf_pending c)) s'" "keeps_entries (cf_server c) s'"
    by (simp_all add: handled_one_def set_pending_def)
  then show ?thesis using handle(1) assms(1) reported_mono by (auto simp: config_inv_def)
qed

lemma server_step_inv:
  assumes "config_inv c" and "server_step c c'"
  shows "config_inv c'"
  using assms(2)
proof (cases rule: server_step.cases)
  case (worker_start w fd cp al k s')
  then have "server_inv (cf_pending c) s' \<and> keeps_entries (cf_server c) s'"
    using io_event_loop_start_ok [of "cf_pending c" "cf_server c" w fd cp al k] assms(1)
    by (simp add: config_inv_def accept_ok_def)
  then show ?thesis using worker_start(1) assms(1) reported_mono by (auto simp: config_inv_def)
next
  case (io w cp events es fr accs al clk s')
  then show ?thesis using io_step_inv [OF assms(1)] by blast
next
  case (actor a w)
  then show ?thesis using actor_turn_inv [OF assms(1)] by blast
next
  case (network fds)
  let ?s = "(cf_server c)\<lparr>sv_fds := fds\<rparr>"
  have "fds fd = None \<longleftrightarrow> sv_fds (cf_server c) fd = None" for fd using network(2) by (metis domIff)
  then have "server_core ?s = server_core (cf_server c)" by (intro server_core_cong) simp_all
  moreover have "waiting ?s = waiting (cf_server c)" by (rule waiting_cong) simp_all
  moreover have "queue_ids ?s = queue_ids (cf_server c)" by (simp add: queue_ids_def)
  ultimately have "server_inv (cf_pending c) ?s = server_inv (cf_pending c) (cf_server c)"
    by (simp add: server_inv_def queues_ok_def queued_def)
  moreover have "reported ?s w e = reported (cf_server c) w e" for w e by (simp add: reported_def)
  ultimately show ?thesis using network(1) assms(1) by (simp add: config_inv_def)
qed (use assms(1) in \<open>simp add: config_inv_def\<close>)

interpretation srv: invariant_system started server_step config_inv
proof unfold_locales
  show "config_inv c" if "started c" for c
    using that by cases (use main_start_inv in \<open>auto simp: config_inv_def boot_def\<close>)
qed (rule server_step_inv)

lemma reachable_config_inv: "reachable c \<Longrightarrow> config_inv c"
  using srv.reachable_inv by (auto simp: reachable_def)

end
