(* ===== verification/Server_Properties.thy ===== *)
theory Server_Properties
  imports Server_Safety
begin

text \<open>
  What holds of every reachable configuration of the server: no handler touches freed memory,
  every live request has one owner, the counters tell the truth, the actors drain their
  queues.
\<close>

section \<open>A running example\<close>

definition al_ex :: allocator where
  "al_ex = (\<lambda>_. Some (\<lambda>_. 0))"

definition calls_ex :: thread_calls where
  "calls_ex = \<lparr>barrier_ret = 0, stats_ret = \<lambda>_. 0, actor_ret = \<lambda>_ _. 0, socket_ret = \<lambda>_ i. if i = 0 then 3 else 0,
     worker_ret = \<lambda>_ _. 0\<rparr>"

lemma malloc_ex [simp]: "n \<le> PTRDIFF_MAX \<Longrightarrow> malloc al_ex n = Some (replicate (unat n) 0)"
  by (simp add: malloc_def al_ex_def map_replicate_const)

lemma queue_init_ex: "\<exists>q. mrmw_queue_init al_ex 1024 = Inr q"
  by (simp add: mrmw_queue_init_def CHECK_MEM_def SIZEOF_MrmwQueue_def calloc_slots_def PTRDIFF_MAX_def al_ex_def malloc_def)

lemma main_start_ex:
  "\<exists>q. mrmw_queue_init al_ex 1024 = Inr q \<and> main_start al_ex calls_ex 1 8080 1 = Inr
     (\<lparr>sv_stats = \<lparr>avg_micros = replicate 5 0, active_connections = 0, total_requests_processed = 0\<rparr>,
       sv_io_worker_count = 1, sv_actor_count = 1, sv_queues = \<lambda>a w. [[q]] ! a ! w,
       sv_contexts = \<lambda>_. None, sv_sockets = \<lambda>_. None, sv_epolls = \<lambda>_ _. None, sv_fds = \<lambda>_. None, sv_count = 0\<rparr>, [(3, 8080)])"
proof -
  obtain q where q: "mrmw_queue_init al_ex 1024 = Inr q" using queue_init_ex by blast
  have names: "\<exists>m. thread_name al_ex ''app-'' 0 = Inr m" "\<exists>m. thread_name al_ex ''io-'' 0 = Inr m"
    by (simp_all add: thread_name_def CHECK_MEM_def PTRDIFF_MAX_def mem_store_def ascii_def format_d_def dec.simps)
  have "create_actors al_ex (actor_ret calls_ex) 1 0 1 = Inr [[q]]"
    using names q by (auto simp: create_actor_def CHECK_MEM_def PTRDIFF_MAX_def calls_ex_def)
  moreover have "create_io_workers al_ex (socket_ret calls_ex) (worker_ret calls_ex) 8080 0 1 = Inr [(3, 8080)]"
    using names by (auto simp: create_io_worker_def create_socket_def CHECK_MEM_def PTRDIFF_MAX_def calls_ex_def SIZEOF_IoWorkerArgs_def)
  ultimately show ?thesis
    using q by (simp add: main_start_def server_stats_init_def CHECK_MEM_def PTRDIFF_MAX_def SIZEOF_ServerWideStats_def
        SIZEOF_ActorInfo_def calls_ex_def create_stats_def del: create_actors.simps create_io_workers.simps)
qed

text \<open>One IO worker and one actor; the worker has started and its listening socket has a connection.\<close>

lemma reachable_ex:
  "\<exists>c. reachable c \<and> cf_batch c 0 = [(16, EPOLLIN)] \<and> queue_ids (cf_server c) = {(0, 0)} \<and> cf_pending c 0 0 = 0 \<and>
     fresh (cf_server c) [32, 48, 64] \<and> sv_actor_count (cf_server c) = 1 \<and>
     mq_items (sv_queues (cf_server c) 0 0) = [] \<and> mq_capacity (sv_queues (cf_server c) 0 0) = 1024 \<and> sv_contexts (cf_server c) = (\<lambda>_. None) \<and> sv_epolls (cf_server c) 0 3 = Some (INPUT_EVENTS, 16) \<and>
     sv_sockets (cf_server c) 16 = Some (acceptor 3 0) \<and> sv_fds (cf_server c) 5 = None"
proof -
  obtain s where s: "main_start al_ex calls_ex 1 8080 1 = Inr (s, [(3, 8080)])" "sv_io_worker_count s = 1" "sv_actor_count s = 1"
      "sv_contexts s = (\<lambda>_. None)" "sv_sockets s = (\<lambda>_. None)" "sv_epolls s = (\<lambda>_ _. None)" "sv_fds s = (\<lambda>_. None)"
      "mq_items (sv_queues s 0 0) = []" "mq_capacity (sv_queues s 0 0) = 1024"
    using main_start_ex mrmw_queue_init_inv by force
  let ?k = "\<lparr>rx = [], tx = [], sent = []\<rparr>"
  define s1 where "s1 = set_epoll 0 3 (Some (INPUT_EVENTS, 16)) (put_socket 16 (acceptor 3 0) (put_fd 3 ?k s))"
  have "io_event_loop_start al_ex 16 0 3 (put_fd 3 ?k s) = Inr s1"
    using s by (simp add: io_event_loop_start_def init_context_def CHECK_MEM_def SIZEOF_SocketContext_def PTRDIFF_MAX_def
        epoll_calls s1_def acceptor_def)
  then have a: "server_step (boot s) ((boot s)\<lparr>cf_server := s1\<rparr>)"
    using server_step.worker_start [of 0 "boot s" 3 16 al_ex ?k s1] s by (simp add: boot_def)
  define c where "c = (boot s)\<lparr>cf_server := s1, cf_batch := (\<lambda>_. [])(0 := [(16, EPOLLIN)])\<rparr>"
  have "reported s1 0 (16, EPOLLIN)" by (auto simp: reported_def s1_def reports_def has_def epoll_flags INPUT_EVENTS_def)
  then have "server_step ((boot s)\<lparr>cf_server := s1\<rparr>) c"
    using server_step.epoll_wait [of "(boot s)\<lparr>cf_server := s1\<rparr>" 0 "[(16, EPOLLIN)]"]
    by (simp add: boot_def c_def MAX_EVENTS_def)
  then have "server_step\<^sup>*\<^sup>* (boot s) c" using a by (meson converse_rtranclp_into_rtranclp r_into_rtranclp)
  then have "reachable c" using started.intros [OF s(1)] by (auto simp: reachable_def)
  then show ?thesis
    by (intro exI [of _ c]) (simp add: c_def boot_def s1_def queue_ids_def fresh_def s lessThan_Suc)
qed

text \<open>The same after the connection has been accepted.\<close>

lemma init_request_context_ex:
  obtains rc0 where "init_request_context al_ex 5 [] 0 = Inr rc0" "ib_offset (rc_input_buffer rc0) = 0"
    "ib_length (rc_input_buffer rc0) = BUF_SIZE" "req_num_headers (rc_http_request rc0) = NUM_HEADERS"
    "ob_free (rc_output_buffer rc0) = unat BUF_SIZE" "ob_pending (rc_output_buffer rc0) = []"
  by (simp add: init_request_context_def input_buffer_init_def output_buffer_init_def CHECK_MEM_def BUF_SIZE_def
        SIZEOF_RequestContext_def SIZEOF_InputBuffer_def SIZEOF_OutputBuffer_def PTRDIFF_MAX_def ob_free_def ob_pending_def ob_contents_def)

lemma reachable_conn_ex:
  "\<exists>c rc. reachable c \<and> sv_contexts (cf_server c) 32 = Some rc \<and> rc_fd rc = 5 \<and> reading (cf_server c) 32 rc 48 \<and>
     cf_batch c 0 = [] \<and> cf_pending c 0 0 = 0 \<and> queue_ids (cf_server c) = {(0, 0)} \<and> sv_actor_count (cf_server c) = 1 \<and>
     mq_items (sv_queues (cf_server c) 0 0) = [] \<and> mq_capacity (sv_queues (cf_server c) 0 0) = 1024 \<and>
     ib_offset (rc_input_buffer rc) = 0 \<and> ib_length (rc_input_buffer rc) = BUF_SIZE \<and>
     req_num_headers (rc_http_request rc) = NUM_HEADERS \<and>
     ob_free (rc_output_buffer rc) = unat BUF_SIZE \<and> ob_pending (rc_output_buffer rc) = [] \<and> rc_epoll_info rc = 0 \<and>
     fresh (cf_server c) [64] \<and> sv_fds (cf_server c) 5 = Some \<lparr>rx = [], tx = [], sent = []\<rparr>"
proof -
  obtain c where c: "reachable c" "cf_batch c 0 = [(16, EPOLLIN)]" "queue_ids (cf_server c) = {(0, 0)}" "fresh (cf_server c) [32, 48, 64]"
      "sv_epolls (cf_server c) 0 3 = Some (INPUT_EVENTS, 16)" "sv_sockets (cf_server c) 16 = Some (acceptor 3 0)"
      "sv_fds (cf_server c) 5 = None" "sv_actor_count (cf_server c) = 1" "mq_items (sv_queues (cf_server c) 0 0) = []"
      "mq_capacity (sv_queues (cf_server c) 0 0) = 1024" "cf_pending c 0 0 = 0"
    using reachable_ex by blast
  let ?k = "\<lparr>rx = [], tx = [], sent = []\<rparr>" and ?s = "cf_server c" and ?clk = "\<lambda>_. \<lparr>tv_sec = 1, tv_nsec = 2\<rparr>"
  let ?accs = "[Accept_Conn 5 ?k [] 0 0 0, Accept_Block]"
  have inv: "server_inv (cf_pending c) ?s" using reachable_config_inv [OF c(1)] by (simp add: config_inv_def)
  then have core: "server_core ?s" by (simp add: server_inv_def)
  have mem: "malloc al_ex NI_MAXHOST \<noteq> None" "malloc al_ex SIZEOF_SocketContext \<noteq> None"
    by (simp_all add: NI_MAXHOST_def SIZEOF_SocketContext_def PTRDIFF_MAX_def)
  obtain rc0 where rc0: "init_request_context al_ex 5 [] 0 = Inr rc0" "ib_offset (rc_input_buffer rc0) = 0"
      "ib_length (rc_input_buffer rc0) = BUF_SIZE" "req_num_headers (rc_http_request rc0) = NUM_HEADERS"
      "ob_free (rc_output_buffer rc0) = unat BUF_SIZE" "ob_pending (rc_output_buffer rc0) = []"
    using init_request_context_ex .
  obtain rc ts where rc: "rc = rc0\<lparr>rc_time_stats := ts\<rparr>" "rc_wf rc" "rc_fd rc = 5" "rc_epoll_info rc = 0" "running rc = {TOTAL_TIME}"
      "accept_connection al_ex (?clk 0) 32 48 0 5 ?k [] 0 0 0 ?s = Inr (with_connection 32 48 0 rc ?k ?s)"
    using accept_connection_success [OF core c(7) _ _ _ mem rc0(1), of 0 0 0 "?clk 0" 32 48 ?k] by auto
  let ?s' = "with_connection 32 48 0 rc ?k ?s"
  let ?c' = "c\<lparr>cf_server := ?s', cf_batch := (cf_batch c)(0 := [])\<rparr>"
  have "io_event al_ex ?clk [32, 48, 64] ?accs 0 16 EPOLLIN ?s = Inr ?s'"
    using c(6) rc(6) by (simp add: io_event_def get_socket_def acceptor_def has_def epoll_flags)
  moreover have "accepts_ok ?s ?accs" using c(7) by (simp add: accepts_ok_def)
  ultimately have "server_step c ?c'" using server_step.io [OF c(2,4)] by blast
  then have "reachable ?c'" using c(1) reachable_step by blast
  moreover have "reading ?s' 32 rc 48" using rc rc0(6) by (simp add: reading_def with_connection_def)
  moreover have "queue_ids ?s' = {(0, 0)}" "fresh ?s' [64]"
    using c(3,4) by (simp_all add: with_connection_def queue_ids_def fresh_def)
  moreover have "sv_contexts ?s' 32 = Some rc" "sv_queues ?s' = sv_queues ?s" "sv_actor_count ?s' = 1" "sv_fds ?s' 5 = Some ?k"
    using c(8) rc(3) by (simp_all add: with_connection_def)
  ultimately show ?thesis
    using rc(1,3,4) rc0 c(9-11) by (intro exI [of _ ?c'] exI [of _ rc]) simp
qed

lemma event_read_empty:
  assumes inv: "server_inv pend s" and aw: "(a, w) \<in> queue_ids s" and idle: "pend a w = 0" and it: "mq_items (sv_queues s a w) = []"
  shows "\<exists>q. mrmw_queue_event_read (sv_queues s a w) = (None, q) \<and> server_inv pend (put_queue a w q s) \<and>
     mq_items q = [] \<and> mq_notified q = 0"
proof -
  obtain q where q: "mrmw_queue_event_read (sv_queues s a w) = (None, q)" "mq_items q = []"
      "server_inv (pend(a := (pend a)(w := 0))) (put_queue a w q s)"
    using event_read_ok [OF inv aw idle, unfolded it list.size simp_thms if_True] by blast
  have "pend(a := (pend a)(w := 0)) = pend" using idle by (simp add: fun_upd_idem)
  then have i: "server_inv pend (put_queue a w q s)" using q(3) by simp
  moreover have "(a, w) \<in> queue_ids (put_queue a w q s)" using aw by (simp add: queue_ids_def)
  ultimately have "mq_notified q = 0" using q(2) by (auto simp: server_inv_def queues_ok_def)
  then show ?thesis using q(1,2) i by blast
qed

section \<open>Properties\<close>





text \<open>
  Property C7: nothing leaks. In every reachable configuration each open descriptor is the one of
  exactly one live request context or a listening socket some worker watches; each allocated
  socket context is the data of exactly one registration, so it will be freed; each registration
  is of an open descriptor; and each live request context holds an open descriptor.
\<close>

theorem nothing_leaks:
  assumes "reachable c"
  shows "(\<forall>fd. sv_fds (cf_server c) fd \<noteq> None \<longrightarrow>
       (\<exists>!p. \<exists>rc. sv_contexts (cf_server c) p = Some rc \<and> rc_fd rc = fd) \<or>
       (\<exists>w cp. sv_epolls (cf_server c) w fd = Some (INPUT_EVENTS, cp) \<and> sv_sockets (cf_server c) cp = Some (acceptor fd w))) \<and>
     (\<forall>cp. sv_sockets (cf_server c) cp \<noteq> None \<longrightarrow> (\<exists>!(w, fd). \<exists>ev. sv_epolls (cf_server c) w fd = Some (ev, cp))) \<and>
     (\<forall>w fd ev cp. sv_epolls (cf_server c) w fd = Some (ev, cp) \<longrightarrow>
       sv_fds (cf_server c) fd \<noteq> None \<and> sv_sockets (cf_server c) cp \<noteq> None) \<and>
     (\<forall>p rc. sv_contexts (cf_server c) p = Some rc \<longrightarrow> sv_fds (cf_server c) (rc_fd rc) \<noteq> None)"
proof (intro conjI allI impI)
  let ?s = "cf_server c"
  have core: "server_core ?s" using reachable_config_inv [OF assms] by (simp add: config_inv_def server_inv_def)
  show "(\<exists>!p. \<exists>rc. sv_contexts ?s p = Some rc \<and> rc_fd rc = fd) \<or>
      (\<exists>w cp. sv_epolls ?s w fd = Some (INPUT_EVENTS, cp) \<and> sv_sockets ?s cp = Some (acceptor fd w))" if "sv_fds ?s fd \<noteq> None" for fd
    using core_fd_owned [OF core that] core_fd_owner [OF core] by (force simp: fd_owned_def accept_entry_def)
  show "\<exists>!(w, fd). \<exists>ev. sv_epolls ?s w fd = Some (ev, cp)" if sock: "sv_sockets ?s cp \<noteq> None" for cp
  proof -
    obtain w fd ev where "sv_epolls ?s w fd = Some (ev, cp)" using sock core_socket [OF core, of cp] by blast
    then show ?thesis by (intro ex1I [of _ "(w, fd)"]) (auto dest: core_entry_inject [OF core])
  qed
  show "sv_sockets ?s cp \<noteq> None" if "sv_epolls ?s w fd = Some (ev, cp)" for w fd ev cp
    using core_entry_socket [OF core that] by auto
  show "sv_fds ?s fd \<noteq> None" if "sv_epolls ?s w fd = Some (ev, cp)" for w fd ev cp
    using core that by (cases rule: core_entry_cases) (auto simp: context_ok_def accept_entry_def)
  show "sv_fds ?s (rc_fd rc) \<noteq> None" if "sv_contexts ?s p = Some rc" for p rc
    using core_context [OF core that] by (simp add: context_ok_def)
qed

theorem nothing_leaks_witness:
  "\<exists>c rc. reachable c \<and> sv_contexts (cf_server c) 32 = Some rc \<and> sv_fds (cf_server c) (rc_fd rc) \<noteq> None \<and>
     (\<exists>!(w, fd). \<exists>ev. sv_epolls (cf_server c) w fd = Some (ev, 48))"
proof -
  obtain c rc where c: "reachable c" "sv_contexts (cf_server c) 32 = Some rc" "reading (cf_server c) 32 rc 48"
    using reachable_conn_ex by blast
  then have "sv_sockets (cf_server c) 48 \<noteq> None" by (simp add: reading_def)
  with nothing_leaks [OF c(1)] have "\<exists>!(w, fd). \<exists>ev. sv_epolls (cf_server c) w fd = Some (ev, 48)"
    "sv_fds (cf_server c) (rc_fd rc) \<noteq> None" using c(2) by (blast, metis)
  with c(1,2) show ?thesis by (intro exI conjI)
qed

text \<open>
  Property C35: every live request context is well-formed, whichever thread owns it: both
  buffers keep their offsets inside their regions, the header array has its \<^verbatim>\<open>NUM_HEADERS\<close> entries
  and no more are in use, and once the request has been handed to an actor its method, path
  and headers all lie inside the region of the input buffer, so that the pointers the actor
  and the writer follow are good.
\<close>

theorem live_context_well_formed:
  assumes "reachable c" and "sv_contexts (cf_server c) p = Some rc"
  shows "length (ib_buffer (rc_input_buffer rc)) = unat (ib_length (rc_input_buffer rc)) \<and>
     ib_offset (rc_input_buffer rc) \<le> ib_length (rc_input_buffer rc) \<and>
     length (ob_buffer (rc_output_buffer rc)) = unat (ob_length (rc_output_buffer rc)) \<and>
     write_from_offset (rc_output_buffer rc) \<le> write_into_offset (rc_output_buffer rc) \<and>
     write_into_offset (rc_output_buffer rc) \<le> ob_length (rc_output_buffer rc) \<and>
     length (req_headers (rc_http_request rc)) = NUM_HEADERS \<and> req_num_headers (rc_http_request rc) \<le> NUM_HEADERS \<and>
     ((\<exists>cp. reading (cf_server c) p rc cp) \<or>
      req_path (rc_http_request rc) \<noteq> None \<and>
      request_within (length (ib_buffer (rc_input_buffer rc))) (rc_http_request rc))"
proof -
  have "server_core (cf_server c)" using reachable_config_inv [OF assms(1)] by (simp add: config_inv_def server_inv_def)
  from core_context [OF this assms(2)] have ok: "rc_wf rc" "(\<exists>cp. reading (cf_server c) p rc cp) \<or> rc_parsed rc"
    by (auto simp: context_ok_def writing_def waiting_ok_def)
  then show ?thesis by (auto simp: rc_wf_def ib_wf_def ob_wf_def rc_parsed_def)
qed

theorem live_context_well_formed_witness:
  "\<exists>c rc. reachable c \<and> sv_contexts (cf_server c) 32 = Some rc \<and> length (req_headers (rc_http_request rc)) = NUM_HEADERS \<and>
     ib_offset (rc_input_buffer rc) \<le> ib_length (rc_input_buffer rc)"
proof -
  obtain c rc where c: "reachable c" "sv_contexts (cf_server c) 32 = Some rc" using reachable_conn_ex by blast
  from live_context_well_formed [OF c] c show ?thesis by blast
qed

text \<open>The counter of active connections is the number of live request contexts.\<close>

lemma active_connections_exact:
  assumes "reachable c" and "card (dom (sv_contexts (cf_server c))) < 2 ^ 63"
  shows "server_stats_get_active_requests (sv_stats (cf_server c)) = int (card (dom (sv_contexts (cf_server c))))"
proof -
  let ?n = "card (dom (sv_contexts (cf_server c)))"
  have "active_connections (sv_stats (cf_server c)) = of_nat ?n"
    using reachable_config_inv [OF assms(1)] by (simp add: config_inv_def server_inv_def)
  moreover have "sint (word_of_nat ?n :: 64 word) = int ?n"
    using assms(2) by (simp add: sint_uint unsigned_of_nat signed_take_bit_int_eq_self take_bit_nat_eq_self)
  ultimately show ?thesis by (simp add: server_stats_get_active_requests_def)
qed



lemma queue_usage_actor_result:
  assumes "\<And>w. w < sv_io_worker_count s \<Longrightarrow> mq_inv (sv_queues s a w)" and "n \<le> sv_io_worker_count s"
  shows "queue_usage_actor s a n k =
     Inr (k + of_nat (\<Sum>w\<in>{sv_io_worker_count s - n..<sv_io_worker_count s}. length (mq_items (sv_queues s a w))))"
  using assms(2)
proof (induction n arbitrary: k)
  case (Suc n)
  let ?w = "sv_io_worker_count s - Suc n"
  have w: "?w < sv_io_worker_count s" "sv_io_worker_count s - n = Suc ?w" using Suc.prems by simp_all
  have "mrmw_queue_size (sv_queues s a ?w) = Inr (of_nat (length (mq_items (sv_queues s a ?w))), sv_queues s a ?w)"
    using mrmw_queue_size_result [OF assms(1) [OF w(1)]] .
  then show ?case using Suc.IH Suc.prems w by (simp add: add.assoc sum.atLeast_Suc_lessThan [OF w(1)])
qed simp

lemma queue_usage_loop_result:
  assumes "queues_ok pend s" and "n \<le> sv_actor_count s"
  shows "queue_usage_loop s n k = Inr (k + of_nat (\<Sum>a\<in>{sv_actor_count s - n..<sv_actor_count s}.
     (\<Sum>w\<in>{..<sv_io_worker_count s}. length (mq_items (sv_queues s a w)))))"
  using assms(2)
proof (induction n arbitrary: k)
  case (Suc n)
  let ?a = "sv_actor_count s - Suc n"
  have a: "?a < sv_actor_count s" "sv_actor_count s - n = Suc ?a" using Suc.prems by simp_all
  have "mq_inv (sv_queues s ?a w)" if "w < sv_io_worker_count s" for w
    using assms(1) that a(1) by (auto simp: queues_ok_def queue_ids_def)
  from queue_usage_actor_result [OF this, where n = "sv_io_worker_count s"] show ?case
    using Suc.IH Suc.prems a by (simp add: add.assoc atLeast0LessThan sum.atLeast_Suc_lessThan [OF a(1)])
qed simp

lemma size_queued: "size (queued s) = (\<Sum>a\<in>{..<sv_actor_count s}. (\<Sum>w\<in>{..<sv_io_worker_count s}. length (mq_items (sv_queues s a w))))"
  by (simp add: queued_def queue_ids_def size_multiset_sum sum.cartesian_product case_prod_beta)

text \<open>The queue size the statistics thread prints is the number of requests that wait for an actor, each counted once.\<close>

lemma queue_usage_counts_waiting:
  assumes "reachable c"
  shows "queue_usage (cf_server c) = Inr (of_nat (card
     {p. \<exists>rc. sv_contexts (cf_server c) p = Some rc \<and> (\<forall>w. sv_epolls (cf_server c) w (rc_fd rc) = None)}))"
proof -
  let ?s = "cf_server c"
  have inv: "server_inv (cf_pending c) ?s" using reachable_config_inv [OF assms] by (simp add: config_inv_def)
  then have s: "server_core ?s" "queues_ok (cf_pending c) ?s" "queued ?s = mset_set (waiting ?s)"
    by (simp_all add: server_inv_def)
  have "sv_epolls ?s w (rc_fd rc) = None" if "sv_contexts ?s p = Some rc" "registration ?s rc = None" for p rc w
    using that entries_of_context [OF s(1) that(1), of w] by (cases "sv_epolls ?s w (rc_fd rc)") auto
  then have "{p. \<exists>rc. sv_contexts ?s p = Some rc \<and> (\<forall>w. sv_epolls ?s w (rc_fd rc) = None)} = waiting ?s"
    by (auto simp: waiting_def)
  moreover have "size (queued ?s) = card (waiting ?s)" using s(3) by simp
  ultimately show ?thesis
    using queue_usage_loop_result [OF s(2) order_refl, of 0] size_queued [of ?s]
    by (simp add: queue_usage_def atLeast0LessThan)
qed

end
