(* ===== verification/Ieee_Double.thy ===== *)
theory Ieee_Double
  imports Complex_Main "HOL-Library.Log_Nat"
begin

text \<open>
  The C type \<^verbatim>\<open>double\<close> as far as the statistics use it: the conversion of a \<^verbatim>\<open>long\<close> and the quotient
  of two such values. A finite value is a rational; a result is rounded to 53 significant bits, to
  the nearest and on a tie to the even one. The values here lie between \<open>2 ^ -63\<close> and \<open>2 ^ 63\<close> in size,
  far from overflow and underflow.
\<close>

datatype double = Finite rat | Infinite bool | Not_A_Number

definition round_even :: "rat \<Rightarrow> int" where
  "round_even y =
     (let r = \<lfloor>y\<rfloor>; d = y - of_int r
      in if d < 1 / 2 then r else if 1 / 2 < d then r + 1 else if even r then r else r + 1)"

text \<open>The power of two that brings a value into the range from \<open>2 ^ 52\<close> to \<open>2 ^ 53\<close>.\<close>

definition scale :: "rat \<Rightarrow> int" where
  "scale x =
     (let (p, q) = quotient_of \<bar>x\<bar>; e = int (floorlog 2 (nat p)) - int (floorlog 2 (nat q))
      in if \<bar>x\<bar> * 2 powi (53 - e) < 2 ^ 53 then 53 - e else 52 - e)"

definition round_double :: "rat \<Rightarrow> rat" where
  "round_double x = (if x = 0 then 0 else of_int (round_even (x * 2 powi scale x)) * 2 powi (- scale x))"

definition double_of_long :: "int \<Rightarrow> rat" where
  "double_of_long n = round_double (of_int n)"

text \<open>\<^verbatim>\<open>a / b\<close>, where \<open>b\<close> was converted from an integer and is not the negative zero.\<close>

definition divide_double :: "rat \<Rightarrow> rat \<Rightarrow> double" where
  "divide_double a b =
     (if b = 0 then (if a = 0 then Not_A_Number else Infinite (0 < a)) else Finite (round_double (a / b)))"

section \<open>Rounding\<close>

lemma round_even_error: "\<bar>of_int (round_even y) - y\<bar> \<le> 1 / 2"
proof -
  define d where "d = y - of_int \<lfloor>y\<rfloor>"
  have "0 \<le> d" "d < 1" unfolding d_def by linarith+
  moreover have "y = of_int \<lfloor>y\<rfloor> + d" by (simp add: d_def)
  ultimately show ?thesis unfolding round_even_def Let_def d_def [symmetric] by (auto simp: abs_le_iff)
qed

lemma round_even_int [simp]: "round_even (of_int n) = n"
  by (simp add: round_even_def)

lemma exponent_bounds:
  assumes "0 < x" and "quotient_of x = (p, q)" and "e = int (floorlog 2 (nat p)) - int (floorlog 2 (nat q))"
  shows "2 powi (e - 1) < x \<and> x < 2 powi (e + 1)"
proof -
  let ?P = "floorlog 2 (nat p)" and ?Q = "floorlog 2 (nat q)"
  have q: "0 < q" "x = of_int p / of_int q" using quotient_of_denom_pos [OF assms(2)] quotient_of_div [OF assms(2)] by simp_all
  then have p: "0 < p" using assms(1) by (simp add: zero_less_divide_iff)
  have nat_bounds: "2 ^ (floorlog 2 (nat n) - 1) \<le> n \<and> n < 2 ^ floorlog 2 (nat n) \<and> 0 < floorlog 2 (nat n)" if "0 < n" for n
  proof -
    have "2 ^ (floorlog 2 (nat n) - 1) \<le> nat n" "nat n < 2 ^ floorlog 2 (nat n)"
      using floorlog_bounds [of "nat n" 2] that by simp_all
    moreover have "0 < floorlog 2 (nat n)" using that by (simp add: floorlog_eq_zero_iff flip: neq0_conv)
    ultimately show ?thesis using that by (simp add: le_nat_iff nat_less_iff)
  qed
  have rat_bounds: "2 powi (int (floorlog 2 (nat n)) - 1) \<le> (of_int n :: rat)" "(of_int n :: rat) < 2 powi int (floorlog 2 (nat n))"
    if "0 < n" for n
  proof -
    have "(of_int (2 ^ (floorlog 2 (nat n) - 1)) :: rat) \<le> of_int n" "(of_int n :: rat) < of_int (2 ^ floorlog 2 (nat n))"
      using nat_bounds [OF that] by (simp_all only: of_int_le_iff of_int_less_iff)
    moreover have "2 powi (int (floorlog 2 (nat n)) - 1) = (of_int (2 ^ (floorlog 2 (nat n) - 1)) :: rat)"
      using nat_bounds [OF that] by (simp add: power_int_def nat_diff_distrib)
    ultimately show "2 powi (int (floorlog 2 (nat n)) - 1) \<le> (of_int n :: rat)" "(of_int n :: rat) < 2 powi int (floorlog 2 (nat n))"
      by (simp_all add: power_int_def)
  qed
  note P = rat_bounds [OF p] and Q = rat_bounds [OF q(1)]
  have "2 powi (e - 1) = (2 powi (int ?P - 1) / 2 powi int ?Q :: rat)" by (simp add: assms(3) power_int_diff power_int_add)
  also have "\<dots> < x" unfolding q(2) using P(1) Q(2) q(1) p by (intro frac_less2) simp_all
  finally have "2 powi (e - 1) < x" .
  moreover have "x < 2 powi int ?P / 2 powi (int ?Q - 1)" unfolding q(2) using P(2) Q(1) q(1) p by (intro frac_less) simp_all
  moreover have "2 powi int ?P / 2 powi (int ?Q - 1) = (2 powi (e + 1) :: rat)" by (simp add: assms(3) power_int_diff power_int_add)
  ultimately show ?thesis by simp
qed

lemma scale_bounds:
  assumes "x \<noteq> 0"
  shows "2 ^ 52 \<le> \<bar>x\<bar> * 2 powi scale x \<and> \<bar>x\<bar> * 2 powi scale x < 2 ^ 53"
proof -
  obtain p q where pq: "quotient_of \<bar>x\<bar> = (p, q)" by fastforce
  define e where "e = int (floorlog 2 (nat p)) - int (floorlog 2 (nat q))"
  have b: "2 powi (e - 1) < \<bar>x\<bar>" "\<bar>x\<bar> < 2 powi (e + 1)" using exponent_bounds [OF _ pq e_def] assms by simp_all
  have s: "scale x = (if \<bar>x\<bar> * 2 powi (53 - e) < 2 ^ 53 then 53 - e else 52 - e)"
    by (simp add: scale_def pq e_def Let_def)
  have "2 powi (e - 1) * 2 powi (53 - e) < \<bar>x\<bar> * 2 powi (53 - e)" using b(1) by simp
  moreover have "2 powi (e - 1) * 2 powi (53 - e) = (2 powi 52 :: rat)" by (subst power_int_add [symmetric]) simp_all
  ultimately have lo: "2 ^ 52 < \<bar>x\<bar> * 2 powi (53 - e)" by (simp add: power_int_def)
  have "\<bar>x\<bar> * 2 powi (52 - e) < 2 powi (e + 1) * 2 powi (52 - e)" using b(2) by simp
  moreover have "2 powi (e + 1) * 2 powi (52 - e) = (2 powi 53 :: rat)" by (subst power_int_add [symmetric]) simp_all
  ultimately have hi: "\<bar>x\<bar> * 2 powi (52 - e) < 2 ^ 53" by (simp add: power_int_def)
  have half: "\<bar>x\<bar> * 2 powi (53 - e) = 2 * (\<bar>x\<bar> * 2 powi (52 - e))" using power_int_add [of "2 :: rat" 1 "52 - e"] by simp
  show ?thesis
  proof (cases "\<bar>x\<bar> * 2 powi (53 - e) < 2 ^ 53")
    case False
    then have "2 ^ 52 \<le> \<bar>x\<bar> * 2 powi (52 - e)" using half by simp
    with False hi show ?thesis by (simp add: s)
  qed (use lo s in simp)
qed

lemma round_double_error: "\<bar>round_double x - x\<bar> \<le> \<bar>x\<bar> / 2 ^ 53"
proof (cases "x = 0")
  case False
  let ?k = "2 powi scale x :: rat"
  have k: "0 < ?k" "2 powi (- scale x) = inverse ?k" by (simp_all add: power_int_minus)
  have "round_double x - x = (of_int (round_even (x * ?k)) - x * ?k) * inverse ?k"
    using False k by (simp add: round_double_def field_simps)
  then have "\<bar>round_double x - x\<bar> = \<bar>of_int (round_even (x * ?k)) - x * ?k\<bar> * inverse ?k" using k(1) by (simp add: abs_mult)
  also have "\<dots> \<le> 1 / 2 * inverse ?k" using round_even_error [of "x * ?k"] k(1) by (intro mult_right_mono) simp_all
  also have "\<dots> \<le> \<bar>x\<bar> / 2 ^ 53" using scale_bounds [OF False] k(1) by (simp add: field_simps)
  finally show ?thesis .
qed (simp add: round_double_def)

text \<open>Integers of at most 53 bits are exact.\<close>

lemma double_of_long_exact:
  assumes "\<bar>n\<bar> < 2 ^ 53"
  shows "double_of_long n = of_int n"
proof (cases "n = 0")
  case False
  then have n: "(of_int n :: rat) \<noteq> 0" "\<bar>of_int n\<bar> < (2 ^ 53 :: rat)"
    using assms of_int_less_iff [where 'a = rat, of "\<bar>n\<bar>" "2 ^ 53"] by simp_all
  let ?s = "scale (of_int n)"
  have "0 \<le> ?s"
  proof (rule ccontr)
    assume "\<not> 0 \<le> ?s"
    then have "2 powi ?s \<le> (2 powi - 1 :: rat)" by (intro power_int_increasing) simp_all
    then have "\<bar>of_int n\<bar> * 2 powi ?s \<le> \<bar>of_int n\<bar> * (2 powi - 1 :: rat)" by (intro mult_left_mono) simp_all
    then show False using scale_bounds [OF n(1)] n(2) by simp
  qed
  then have int: "of_int n * 2 powi ?s = (of_int (n * 2 ^ nat ?s) :: rat)" by (simp add: power_int_def)
  then have "round_even (of_int n * 2 powi ?s) = n * 2 ^ nat ?s" by (simp only: round_even_int)
  then have "double_of_long n = of_int (n * 2 ^ nat ?s) * 2 powi (- ?s)"
    using n(1) by (simp only: double_of_long_def round_double_def if_False)
  then show ?thesis by (simp add: int [symmetric] power_int_minus del: of_int_mult)
qed (simp add: double_of_long_def round_double_def)

end
