(* ===== verification/Server_Frame.thy ===== *)
theory Server_Frame
  imports Server_Safety
begin

text \<open>
  What a step of the server does to one connection: it is an event of the connection itself,
  the turn of the actor that finds it at the front of its queue, or it leaves the connection
  alone. The proofs of progress distinguish these three and nothing else.
\<close>

abbreviation line :: "nat \<Rightarrow> nat \<Rightarrow> config \<Rightarrow> pointer list" where
  "line a w c \<equiv> mq_items (sv_queues (cf_server c) a w)"

lemma line_waiting:
  assumes "config_inv c" and "(a, w) \<in> queue_ids (cf_server c)" and "p \<in> set (line a w c)"
  shows "p \<in> waiting (cf_server c)"
  using pointer_not_queued [of "cf_pending c" "cf_server c" p a w] assms by (auto simp: config_inv_def)

text \<open>The facts about the connection of \<open>rc\<close> that a step of others keeps; what its socket has to receive may change.\<close>

definition untouched :: "pointer \<Rightarrow> RequestContext \<Rightarrow> config \<Rightarrow> config \<Rightarrow> bool" where
  "untouched p rc c c' \<longleftrightarrow> sv_contexts (cf_server c') p = Some rc \<and>
     (\<forall>e. registration (cf_server c) rc = Some e \<longrightarrow> registration (cf_server c') rc = Some e) \<and>
     (\<forall>k. sv_fds (cf_server c) (rc_fd rc) = Some k \<longrightarrow> (\<exists>k'. sv_fds (cf_server c') (rc_fd rc) = Some k' \<and> sent k' = sent k))"

lemma untouchedI:
  assumes "sv_contexts (cf_server c') p = Some rc"
    and "\<And>e. registration (cf_server c) rc = Some e \<Longrightarrow> registration (cf_server c') rc = Some e"
    and "\<And>k. sv_fds (cf_server c) (rc_fd rc) = Some k \<Longrightarrow> sv_fds (cf_server c') (rc_fd rc) = Some k"
  shows "untouched p rc c c'"
  using assms unfolding untouched_def by blast

text \<open>The handler of a socket that is not the one of the connection.\<close>

lemma other_event_untouched:
  assumes inv: "config_inv c" and rc: "sv_contexts (cf_server c) p = Some rc"
    and batch: "cf_batch c w = (cp, events) # es" "\<And>ev. registration (cf_server c) rc \<noteq> Some (ev, cp)"
    and fr: "fresh (cf_server c) fr" and accs: "accepts_ok (cf_server c) accs"
    and r: "io_event al clk fr accs w cp events (cf_server c) = Inr s'" and c': "cf_server c' = s'"
  shows "untouched p rc c c'"
proof -
  have c: "server_inv (cf_pending c) (cf_server c)" "server_core (cf_server c)" "reported (cf_server c) w (cp, events)"
    using inv batch(1) by (auto simp: config_inv_def server_inv_def)
  then obtain fd ev where e: "sv_epolls (cf_server c) w fd = Some (ev, cp)" "reports ev events" by (auto simp: reported_def)
  have fd: "rc_fd rc \<noteq> fd" using entries_of_context [OF c(2) rc, of w ev cp] e(1) batch(2) by auto
  have "(\<forall>p rc. rc_fd rc \<noteq> fd \<longrightarrow> sv_contexts (cf_server c) p = Some rc \<longrightarrow> sv_contexts s' p = Some rc) \<and>
      (\<forall>fd' k. fd' \<noteq> fd \<longrightarrow> sv_fds (cf_server c) fd' = Some k \<longrightarrow> sv_fds s' fd' = Some k) \<and>
      (\<forall>w' fd' e. (w', fd') \<noteq> (w, fd) \<longrightarrow> sv_epolls (cf_server c) w' fd' = Some e \<longrightarrow> sv_epolls s' w' fd' = Some e)"
    using io_event_ok [OF c(1) e fr accs, of al clk] unfolding r io_ok_def sum.case by blast
  then show ?thesis using fd rc by (intro untouchedI) (auto simp: c')
qed

lemma actor_turn_untouched:
  assumes inv: "config_inv c" and t: "actor_turn a w c c'" and rc: "sv_contexts (cf_server c) p = Some rc"
  shows "sv_fds (cf_server c') = sv_fds (cf_server c)"
    and "(a, w) \<in> queue_ids (cf_server c) \<and> 0 < cf_pending c a w \<and> p = hd (line a w c) \<and> p \<in> set (line a w c) \<or> untouched p rc c c'"
proof -
  have "sv_fds (cf_server c') = sv_fds (cf_server c) \<and>
      ((a, w) \<in> queue_ids (cf_server c) \<and> 0 < cf_pending c a w \<and> p = hd (line a w c) \<and> p \<in> set (line a w c) \<or> untouched p rc c c')"
    using t
  proof (cases rule: actor_turn.cases)
    case (event_read n q)
    then show ?thesis using rc by (auto simp: untouched_def)
  next
    case (handle fr al clk continue fr' s')
    have "handled_one (cf_pending c) a w (cf_server c) (Inr (continue, fr', s'))"
      using actor_handle_one_ok [of "cf_pending c" "cf_server c" a w fr al clk] handle inv by (simp add: config_inv_def)
    then have l: "line a w c = hd (line a w c) # mq_items (sv_queues s' a w)" "sv_fds s' = sv_fds (cf_server c)"
        "\<forall>p. p \<noteq> hd (line a w c) \<longrightarrow> sv_contexts s' p = sv_contexts (cf_server c) p" "keeps_entries (cf_server c) s'"
      unfolding handled_one_def sum.case prod.case by blast+
    show ?thesis
    proof (cases "p = hd (line a w c)")
      case True
      then have "p \<in> set (line a w c)" using l(1) by (metis list.set_intros(1))
      then show ?thesis using True handle(1-3) l(2) by simp
    next
      case False
      then have "untouched p rc c c'"
        using l(2-4) rc handle(1) by (intro untouchedI) (auto simp: keeps_entries_def)
      then show ?thesis using handle(1) l(2) by simp
    qed
  qed
  then show "sv_fds (cf_server c') = sv_fds (cf_server c)"
    and "(a, w) \<in> queue_ids (cf_server c) \<and> 0 < cf_pending c a w \<and> p = hd (line a w c) \<and> p \<in> set (line a w c) \<or> untouched p rc c c'"
    by blast+
qed

lemma step_cases:
  assumes inv: "config_inv c" and step: "server_step c c'" and rc: "sv_contexts (cf_server c) p = Some rc"
  obtains (own_event) ev w cp events es fr accs al clk s' where "registration (cf_server c) rc = Some (ev, cp)"
      "cf_batch c w = (cp, events) # es" "fresh (cf_server c) fr" "accepts_ok (cf_server c) accs"
      "io_event al clk fr accs w cp events (cf_server c) = Inr s'" "c' = c\<lparr>cf_server := s', cf_batch := (cf_batch c)(w := es)\<rparr>"
    | (own_turn) a w where "actor_turn a w c c'" "(a, w) \<in> queue_ids (cf_server c)" "p \<in> set (line a w c)"
      "sv_fds (cf_server c') = sv_fds (cf_server c)"
    | (other) "untouched p rc c c'"
  using step
proof (cases rule: server_step.cases)
  case (worker_start w fd cp al k s')
  have "keeps_entries (cf_server c) s' \<and> sv_contexts (cf_server c) \<subseteq>\<^sub>m sv_contexts s' \<and> sv_fds (cf_server c) \<subseteq>\<^sub>m sv_fds s'"
    using io_event_loop_start_ok [of "cf_pending c" "cf_server c" w fd cp al k] worker_start inv
    by (simp add: config_inv_def accept_ok_def)
  then have "untouched p rc c c'"
    using rc worker_start(1) by (intro untouchedI) (auto simp: map_le_def dom_def keeps_entries_def)
  then show thesis by (rule other)
next
  case (io w cp events es fr accs al clk s')
  show thesis
  proof (cases "\<exists>ev. registration (cf_server c) rc = Some (ev, cp)")
    case True
    then show thesis using own_event io by blast
  next
    case False
    then have "untouched p rc c c'" using other_event_untouched [OF inv rc io(2) _ io(3-5)] io(1) by auto
    then show thesis by (rule other)
  qed
next
  case (actor a w)
  from actor_turn_untouched [OF inv actor rc] show thesis using own_turn [OF actor] other by blast
next
  case (epoll_wait w es)
  then show thesis using rc by (intro other untouchedI) simp_all
next
  case (network fds)
  have "\<exists>k'. fds (rc_fd rc) = Some k'" if "sv_fds (cf_server c) (rc_fd rc) = Some k" for k using network(2) that by (metis domD domI)
  then have "untouched p rc c c'" using network rc unfolding untouched_def by fastforce
  then show thesis by (rule other)
qed

section \<open>Events\<close>

definition has_error :: "32 word \<Rightarrow> bool" where
  "has_error events \<longleftrightarrow> has events EPOLLERR \<or> has events EPOLLRDHUP \<or> has events EPOLLHUP \<or> has events EPOLLPRI"

text \<open>A worker handles the event that the socket of \<open>cp\<close> has something to read.\<close>

inductive input_turn :: "pointer \<Rightarrow> config \<Rightarrow> config \<Rightarrow> bool" for cp where
  "\<lbrakk>cf_batch c w = (cp, events) # es; has events EPOLLIN; \<not> has_error events; fresh (cf_server c) fr; accepts_ok (cf_server c) accs;
     io_event al clk fr accs w cp events (cf_server c) = Inr s'\<rbrakk> \<Longrightarrow>
   input_turn cp c (c\<lparr>cf_server := s', cf_batch := (cf_batch c)(w := es)\<rparr>)"

lemma input_turn_step: "input_turn cp c c' \<Longrightarrow> server_step c c'"
  by (auto elim!: input_turn.cases intro: server_step.io)

text \<open>What the event of a connection that is read from leads to.\<close>

lemma reading_event:
  assumes inv: "config_inv c" and rc: "sv_contexts (cf_server c) p = Some rc" "reading (cf_server c) p rc cp" and t: "input_turn cp c c'"
  shows "registered (cf_pending c) (cf_server c) p rc cp (reader p (rc_epoll_info rc)) \<and>
     (\<exists>al clk. client_handle_read al clk cp (cf_server c) = Inr (cf_server c'))"
  using t
proof (cases rule: input_turn.cases)
  case (1 w events es fr accs al clk s')
  have c: "server_inv (cf_pending c) (cf_server c)" "server_core (cf_server c)" "reported (cf_server c) w (cp, events)"
    using inv 1(2) by (auto simp: config_inv_def server_inv_def)
  then obtain fd ev where e: "sv_epolls (cf_server c) w fd = Some (ev, cp)" "reports ev events" by (auto simp: reported_def)
  have r: "registration (cf_server c) rc = Some (INPUT_EVENTS, cp)" "sv_sockets (cf_server c) cp = Some (reader p (rc_epoll_info rc))"
    using rc(2) by (simp_all add: reading_def)
  have "w = rc_epoll_info rc \<and> fd = rc_fd rc" using core_entry_inject [OF c(2) e(1) r(1)] .
  then have "\<not> has events EPOLLOUT" using e r(1) by (auto simp: reports_def)
  moreover have "bind_res x Inr = x" for x :: "server res" by (cases x) auto
  ultimately have "client_handle_read al clk cp (cf_server c) = Inr s'"
    using 1(3,4,7) r(2) by (simp add: io_event_def get_socket_def has_error_def reader_def)
  moreover have "registered (cf_pending c) (cf_server c) p rc cp (reader p (rc_epoll_info rc))"
    using c(1) rc r(2) by (simp add: registered_def reader_def)
  ultimately show ?thesis using 1(1) by auto
qed

end
