(* ===== verification/Request_Response.thy ===== *)
theory Request_Response
  imports Connection
begin

text \<open>
  A request on the wire and what the read handler makes of it: when the bytes of a well-formed
  request arrive on the socket of an idle connection, the worker's read and parse leave in the
  context the method, the path and the headers the client wrote. The text of the answer the
  client will get is a function of these.
\<close>

section \<open>Reading\<close>

text \<open>A connection ready for a request: nothing received yet.\<close>

definition rc_idle :: "RequestContext \<Rightarrow> bool" where
  "rc_idle rc \<longleftrightarrow> rc_wf rc \<and> ib_offset (rc_input_buffer rc) = 0 \<and> unat (ib_length (rc_input_buffer rc)) < 2 ^ 31"

text \<open>
  The bytes the socket delivers until it would block are a well-formed request, with no more
  headers than the header array of \<open>rq\<close> has free.
\<close>

definition request_arrives :: "HttpRequest \<Rightarrow> socket \<Rightarrow> byte list \<Rightarrow> byte list \<Rightarrow> nat \<Rightarrow> (byte list \<times> byte list) list \<Rightarrow> bool" where
  "request_arrives rq k m path v hs \<longleftrightarrow> rx_data (rx k) = print_request m path v hs \<and> fst (rx_outcome (rx k)) = READ_BUSY \<and>
     word_bytes m \<and> word_bytes path \<and> v \<le> 9 \<and> (\<forall>h\<in>set hs. header_ok h) \<and> length hs \<le> req_num_headers rq \<and>
     length (print_request m path v hs) < 2 ^ 30"

text \<open>What a read that returns leaves behind, whatever the allocator gave it.\<close>

lemma try_parse_request_read:
  assumes idle: "rc_idle rc" and r: "input_buffer_read_into al (rc_input_buffer rc) k = Inr (st, ib, k1)"
    and req: "request_arrives (rc_http_request rc) k m path v hs"
  shows "\<exists>body. ib_buffer ib = print_request m path v hs @ body"
    and "try_parse_http_request al rc k =
       Inr (READ_FINISH, rc\<lparr>rc_input_buffer := ib, rc_http_request := text_request m path v hs (rc_http_request rc)\<rparr>, k1)"
    and "sent k1 = sent k"
proof -
  let ?b = "rc_input_buffer rc" and ?req = "print_request m path v hs" and ?rq = "rc_http_request rc"
  have data: "rx_data (rx k) = ?req" "fst (rx_outcome (rx k)) = READ_BUSY"
    and words: "word_bytes m" "word_bytes path" "v \<le> 9" "\<forall>h\<in>set hs. header_ok h"
    and room: "length hs \<le> req_num_headers ?rq" "length ?req < 2 ^ 30"
    using req by (simp_all add: request_arrives_def)
  have wf: "ib_wf ?b" "req_num_headers ?rq \<le> length (req_headers ?rq)" "ib_offset ?b = 0" "unat (ib_length ?b) < 2 ^ 31"
    using idle by (simp_all add: rc_idle_def rc_wf_def)
  have none: "ib_contents ?b = []" using wf(3) by (simp add: ib_contents_def)
  have post: "ib_wf ib" "ib_contents ib = ?req" "(st, rx k1) = rx_outcome (rx k)"
      "unat (ib_length ib) \<le> max (unat (ib_length ?b)) (2 * unat (ib_offset ib))"
    using input_buffer_read_into_post [OF wf(1) r] data(1) none by (simp_all add: read_into_post_def)
  show "sent k1 = sent k" using input_buffer_read_into_post [OF wf(1) r] by (simp add: read_into_post_def)
  have st: "st = READ_BUSY" using post(3) data(2) by (simp add: prod_eq_iff)
  have "unat (ib_offset ib) = length ?req" using length_ib_contents [OF post(1)] post(2) by simp
  then have len: "length (ib_buffer ib) < 2 ^ 31" using post(1,4) wf(4) room(2) by (simp add: ib_wf_def)
  let ?body = "drop (unat (ib_offset ib)) (ib_buffer ib)"
  have buf: "ib_buffer ib = ?req @ ?body" using ib_buffer_split [of ib] post(2) by simp
  then show "\<exists>body. ib_buffer ib = ?req @ body" ..
  have "phr_parse_request (ib_buffer ib) 0 ?rq = (Inr (int (length ?req)), text_request m path v hs ?rq)"
    using phr_parse_request_text [OF words room(1) wf(2), of ?body] room(2) by (simp flip: buf)
  moreover have "0 < length ?req" by (simp add: print_request_def)
  ultimately have "http_request_parse ib 0 ?rq = Inr (PARSE_FINISH, text_request m path v hs ?rq)"
    by (simp add: http_request_parse_wf [OF post(1)])
  then show "try_parse_http_request al rc k =
      Inr (READ_FINISH, rc\<lparr>rc_input_buffer := ib, rc_http_request := text_request m path v hs ?rq\<rparr>, k1)"
    using r st wf(3) by (simp add: try_parse_http_request_def)
qed

section \<open>Answering\<close>

lemma keep_alive_header:
  assumes "rc_parsed rc" and "req_num_headers (rc_http_request rc) = length hs"
    and "map (hdr_slices (ib_buffer (rc_input_buffer rc))) (take (length hs) (req_headers (rc_http_request rc))) = hs"
  shows "context_keep_alive rc = Inr 1 \<longleftrightarrow> (ascii ''Connection'', ascii ''Keep-Alive'') \<in> set hs"
proof -
  let ?s = "hdr_slices (ib_buffer (rc_input_buffer rc))" and ?hs = "req_headers (rc_http_request rc)"
  have len: "length hs \<le> length ?hs" using assms(1,2) by (simp add: rc_parsed_def request_within_def)
  have "?s (?hs ! i) = hs ! i" if "i < length hs" for i
    using that len arg_cong [OF assms(3), of "\<lambda>xs. xs ! i"] by simp
  then show ?thesis
    using context_keep_alive_result [OF assms(1)] assms(2) by (auto simp: asks_keep_alive_def in_set_conv_nth)
qed

text \<open>The answer to a request for a path.\<close>

definition answer_text :: "byte list \<Rightarrow> (byte list \<times> byte list) list \<Rightarrow> byte list" where
  "answer_text path hs = response_text 200
     [(ascii ''Content-Length'', dec (int (length path))),
      (ascii ''Connection'', if (ascii ''Connection'', ascii ''Keep-Alive'') \<in> set hs
                             then ascii ''keep-alive'' else ascii ''close'')] path"

lemma word_bytes_no_nul: "word_bytes w \<Longrightarrow> 0 \<notin> set w"
  by (auto simp: word_bytes_def)

text \<open>The outcome of the read: the parts of the request are found again in the input buffer, or memory ran out.\<close>

lemma try_parse_arrives:
  assumes idle: "rc_idle rc" and req: "request_arrives (rc_http_request rc) k m path v hs"
  obtains (oom) e where "try_parse_http_request al rc k = Inl e" "\<exists>n. al n = None"
    | (parsed) rc1 k1 where "try_parse_http_request al rc k = Inr (READ_FINISH, rc1, k1)"
      "rc_wf rc1" "same_connection rc rc1" "rc_time_stats rc1 = rc_time_stats rc" "rc_parsed rc1"
      "rc_output_buffer rc1 = rc_output_buffer rc" "sent k1 = sent k"
      "bytes_at (ib_buffer (rc_input_buffer rc1)) (req_path (rc_http_request rc1)) (req_path_len (rc_http_request rc1)) = path"
      "context_keep_alive rc1 = Inr 1 \<longleftrightarrow> (ascii ''Connection'', ascii ''Keep-Alive'') \<in> set hs"
proof (cases "input_buffer_read_into al (rc_input_buffer rc) k")
  case (Inl e)
  have "ib_wf (rc_input_buffer rc)" "unat (ib_offset (rc_input_buffer rc)) + length (rx_data (rx k)) < 2 ^ 62"
    using idle req by (simp_all add: rc_idle_def rc_wf_def request_arrives_def)
  from input_buffer_read_into_returns_aux [OF this(1) _ this(2), of al] have "\<exists>n. al n = None" using Inl by fastforce
  then show thesis using oom Inl by (simp add: try_parse_http_request_def)
next
  case (Inr a)
  obtain st ib k1 where r: "input_buffer_read_into al (rc_input_buffer rc) k = Inr (st, ib, k1)" using Inr by (cases a) auto
  let ?rc1 = "rc\<lparr>rc_input_buffer := ib, rc_http_request := text_request m path v hs (rc_http_request rc)\<rparr>"
  obtain body where p: "ib_buffer ib = print_request m path v hs @ body" "try_parse_http_request al rc k = Inr (READ_FINISH, ?rc1, k1)"
      "sent k1 = sent k"
    using try_parse_request_read [OF idle r req] by blast
  have rc1: "rc_wf ?rc1" "rc_parsed ?rc1"
    using try_parse_outcome [of rc al k] idle p(2) by (auto simp: rc_idle_def)
  note sl = text_request_slices [OF p(1), of "rc_http_request rc"]
  have "context_keep_alive ?rc1 = Inr 1 \<longleftrightarrow> (ascii ''Connection'', ascii ''Keep-Alive'') \<in> set hs"
    using keep_alive_header [OF rc1(2), of hs] sl(4,5) by simp
  then show thesis using parsed [OF p(2) rc1(1) _ _ rc1(2)] sl(2) p(3) by (simp add: same_connection_def)
qed

section \<open>An example\<close>

text \<open>\<^verbatim>\<open>GET /a HTTP/1.1\<close> with the header \<^verbatim>\<open>Host: h\<close>, in two chunks.\<close>

definition sock_req_ex :: socket where
  "sock_req_ex = \<lparr>rx = [Rx_Data 71 [69, 84, 32, 47], Rx_Data 97 (drop 6 request_ex), Rx_Block], tx = [Tx_Accept 9], sent = []\<rparr>"

definition headers_ex :: "(byte list \<times> byte list) list" where
  "headers_ex = [([72, 111, 115, 116], [104])]"

lemma sock_req_ex_facts:
  "rx_data (rx sock_req_ex) = print_request [71, 69, 84] [47, 97] 1 headers_ex" "fst (rx_outcome (rx sock_req_ex)) = READ_BUSY"
  "word_bytes [71, 69, 84]" "word_bytes [47, 97]" "\<forall>h\<in>set headers_ex. header_ok h" "length headers_ex = 1"
  "length (print_request [71, 69, 84] [47, 97] 1 headers_ex) < 2 ^ 30"
proof -
  have b: "print_request [71, 69, 84] [47, 97] 1 headers_ex = request_ex"
    by (simp add: headers_ex_def request_ex_def print_request_def print_version_def print_headers_def print_header_def)
  show "rx_data (rx sock_req_ex) = print_request [71, 69, 84] [47, 97] 1 headers_ex" "fst (rx_outcome (rx sock_req_ex)) = READ_BUSY"
      "length (print_request [71, 69, 84] [47, 97] 1 headers_ex) < 2 ^ 30"
    unfolding b by (simp_all add: sock_req_ex_def request_ex_def)
  have tok: "is_token_char 72" "is_token_char 111" "is_token_char 115" "is_token_char 116" by code_simp+
  show "word_bytes [71, 69, 84]" "word_bytes [47, 97]" "\<forall>h\<in>set headers_ex. header_ok h" "length headers_ex = 1"
    by (simp_all add: headers_ex_def word_bytes_def header_ok_def token_bytes_def value_bytes_def is_ctl_def tok)
qed

end
