(* ===== verification/Request_Read.thy ===== *)
theory Request_Read
  imports Server_Handlers Request_Response
begin

text \<open>
  The read handler on a connection whose client has sent a whole request: it parses the
  request and hands the connection to an actor, unless memory runs out or the queue of the
  actor is full.
\<close>

lemma client_handle_read_arrives:
  assumes reg: "registered pend s p rc cp sc" and rd: "reading s p rc cp" and k: "sv_fds s (rc_fd rc) = Some k"
    and idle: "rc_idle rc" and req: "request_arrives (rc_http_request rc) k m path v hs"
  obtains (oom) e where "client_handle_read al clk cp s = Inl e" "\<exists>n. al n = None"
    | (parsed) rc1 k1 s1 where "s1 = put_fd (rc_fd rc) k1 (put_context p rc1 s)" "registered pend s1 p rc1 cp sc"
      "same_connection rc rc1" "rc_output_buffer rc1 = rc_output_buffer rc" "sent k1 = sent k"
      "bytes_at (ib_buffer (rc_input_buffer rc1)) (req_path (rc_http_request rc1)) (req_path_len (rc_http_request rc1)) = path"
      "context_keep_alive rc1 = Inr 1 \<longleftrightarrow> (ascii ''Connection'', ascii ''Keep-Alive'') \<in> set hs"
      "client_handle_read al clk cp s = bind_res (delete_epoll_event (rc_epoll_info rc1) (rc_fd rc1) s1) (\<lambda>s.
         bind_res (enqueue_request (clk 2) (rc_epoll_info rc1) p s) (free_socket cp))"
  using reg k
proof (rule client_handle_read_eq [of _ _ _ _ _ _ _ al clk])
  fix ts ts'
  assume ts: "prs_wf ts" "prs_wf ts'" "prs_running ts' = {TOTAL_TIME}"
    and fails: "\<And>e. try_parse_http_request al (rc\<lparr>rc_time_stats := ts\<rparr>) k = Inl e \<Longrightarrow> client_handle_read al clk cp s = Inl e"
    and eq: "\<And>st rc1 k1 s1. \<lbrakk>try_parse_http_request al (rc\<lparr>rc_time_stats := ts\<rparr>) k = Inr (st, rc1, k1);
        same_connection rc rc1; rc_time_stats rc1 = ts; s1 = put_fd (rc_fd rc) k1 (put_context p (rc1\<lparr>rc_time_stats := ts'\<rparr>) s)\<rbrakk> \<Longrightarrow>
      client_handle_read al clk cp s = (case st of
          READ_FINISH \<Rightarrow> bind_res (delete_epoll_event (rc_epoll_info rc) (rc_fd rc) s1) (\<lambda>s.
              bind_res (enqueue_request (clk 2) (rc_epoll_info rc) p s) (free_socket cp))
        | READ_ERROR \<Rightarrow> client_close_connection (clk 2) cp REQUEST_READ_ERROR s1
        | CLIENT_DISCONNECT \<Rightarrow> client_close_connection (clk 2) cp REQUEST_CLIENT_ERROR s1
        | READ_BUSY \<Rightarrow> Inr s1)"
  let ?rc0 = "rc\<lparr>rc_time_stats := ts\<rparr>"
  have "rc_idle ?rc0" "request_arrives (rc_http_request ?rc0) k m path v hs"
    using idle req ts(1) by (simp_all add: rc_idle_def rc_wf_def)
  then show thesis
  proof (cases rule: try_parse_arrives [of ?rc0 k m path v hs al])
    case (oom e)
    then show thesis using fails that(1) by blast
  next
    case (parsed rc1 k1)
    let ?rc1 = "rc1\<lparr>rc_time_stats := ts'\<rparr>"
    define s1 where "s1 = put_fd (rc_fd rc) k1 (put_context p ?rc1 s)"
    have same: "same_connection rc rc1" "same_connection rc ?rc1" using parsed(3) by (simp_all add: same_connection_def)
    have "\<not> writing s p rc cp" "drained ?rc1" using rd parsed(6) by (auto simp: reading_def writing_def)
    then have "registered pend s1 p ?rc1 cp sc"
      using update_in_place [OF reg same(2) _ _ _ _ s1_def] parsed(2) ts by (simp add: rc_wf_def)
    moreover have "context_keep_alive ?rc1 = context_keep_alive rc1" by (simp add: context_keep_alive_def)
    moreover have "rc_epoll_info ?rc1 = rc_epoll_info rc" "rc_fd ?rc1 = rc_fd rc" using same by (simp_all add: same_connection_def)
    ultimately show thesis
      using that(2) [OF s1_def _ same(2)] parsed(6-9) eq [OF parsed(1) same(1) _ s1_def] parsed(4) by simp
  qed
qed

text \<open>When it returns, the connection waits for an actor with the request in its context.\<close>

lemma client_handle_read_hands_over:
  assumes reg: "registered pend s p rc cp sc" and rd: "reading s p rc cp" and k: "sv_fds s (rc_fd rc) = Some k"
    and idle: "rc_idle rc" and req: "request_arrives (rc_http_request rc) k m path v hs"
    and r: "client_handle_read al clk cp s = Inr s'"
  shows "\<exists>rc' k'. sv_contexts s' p = Some rc' \<and> same_connection rc rc' \<and> (\<forall>w. sv_epolls s' w (rc_fd rc') = None) \<and>
     sv_fds s' (rc_fd rc') = Some k' \<and> sent k' = sent k \<and> rc_output_buffer rc' = rc_output_buffer rc \<and>
     bytes_at (ib_buffer (rc_input_buffer rc')) (req_path (rc_http_request rc')) (req_path_len (rc_http_request rc')) = path \<and>
     (context_keep_alive rc' = Inr 1 \<longleftrightarrow> (ascii ''Connection'', ascii ''Keep-Alive'') \<in> set hs)"
  using reg rd k idle req
proof (cases rule: client_handle_read_arrives [of pend s p rc cp sc k m path v hs al clk])
  case (parsed rc1 k1 s1)
  let ?a = "unat (sv_count s1 mod of_nat (sv_actor_count s1))"
  have "length (mq_items (sv_queues s1 ?a (rc_epoll_info rc1))) < mq_capacity (sv_queues s1 ?a (rc_epoll_info rc1))"
    using hand_over_full [OF parsed(2) refl, of "clk 2"] parsed(8) r by fastforce
  from parsed(2) refl this obtain ts where h: "sv_contexts s' = (sv_contexts s1)(p \<mapsto> rc1\<lparr>rc_time_stats := ts\<rparr>)" "sv_fds s' = sv_fds s1"
      "\<And>w fd. sv_epolls s' w fd = (if w = rc_epoll_info rc1 \<and> fd = rc_fd rc1 then None else sv_epolls s1 w fd)"
    using parsed(8) r by (auto elim!: hand_over_room [where now = "clk 2"])
  let ?rc' = "rc1\<lparr>rc_time_stats := ts\<rparr>"
  have "context_keep_alive ?rc' = context_keep_alive rc1" by (simp add: context_keep_alive_def)
  moreover have "sv_epolls s' w (rc_fd rc1) = None" for w using h(3) registeredD(15) [OF parsed(2)] by simp
  moreover have "sv_fds s' (rc_fd rc1) = Some k1" using h(2) parsed(1,3) by (simp add: same_connection_def)
  ultimately show ?thesis
    using h(1) parsed(3-7) by (intro exI [of _ ?rc'] exI [of _ k1]) (simp add: same_connection_def)
qed (use r in simp)

end
