(* ===== verification/Server_Liveness.thy ===== *)
theory Server_Liveness
  imports Server_Properties Server_Frame Request_Read
begin

text \<open>
  Progress: in every run of the server in which the scheduler lets the actors run, a request
  that waits in a queue is answered. The queues are first in first out, so the number of
  requests in front of a waiting one never grows, and every turn of its actor makes it, or
  the distance to the next pop, smaller.
\<close>

section \<open>What a step does to the queues\<close>

definition same_queues :: "server \<Rightarrow> server \<Rightarrow> bool" where
  "same_queues s s' \<longleftrightarrow> sv_queues s' = sv_queues s \<and> sv_actor_count s' = sv_actor_count s \<and>
     sv_io_worker_count s' = sv_io_worker_count s"

definition queues_grow :: "server \<Rightarrow> server \<Rightarrow> bool" where
  "queues_grow s s' \<longleftrightarrow> queue_ids s' = queue_ids s \<and>
     (\<forall>(a, w)\<in>queue_ids s. \<exists>ys. mq_items (sv_queues s' a w) = mq_items (sv_queues s a w) @ ys)"

lemma same_queues_ids: "same_queues s s' \<Longrightarrow> queue_ids s' = queue_ids s"
  by (simp add: same_queues_def queue_ids_def)

lemma same_queues_grow: "same_queues s s' \<Longrightarrow> queues_grow s s'"
  by (simp add: same_queues_def queues_grow_def queue_ids_def)

lemma same_queues_refl: "same_queues s s"
  by (simp add: same_queues_def)

lemma same_queues_grow_trans: "\<lbrakk>same_queues s s'; queues_grow s' s''\<rbrakk> \<Longrightarrow> queues_grow s s''"
  by (auto simp: same_queues_def queues_grow_def queue_ids_def)

lemma epoll_ctl_queues: "same_queues s (snd (epoll_ctl w op1 fd ev s))"
  by (cases op1) (auto simp: epoll_ctl_def set_epoll_def same_queues_def)

lemma close_fd_queues: "same_queues s (snd (close_fd fd s))"
  by (auto simp: close_fd_def same_queues_def split: option.splits)

lemma epoll_event_queues:
  "delete_epoll_event w fd s = Inr s' \<Longrightarrow> same_queues s s'"
  "mod_input_epoll_event w fd cp s = Inr s' \<Longrightarrow> same_queues s s'"
  "add_input_epoll_event w fd cp s = Inr s' \<Longrightarrow> same_queues s s'"
  using epoll_ctl_queues
  by (fastforce simp: delete_epoll_event_def mod_input_epoll_event_def add_input_epoll_event_def res_simps case_prod_beta Let_def)+

lemma free_socket_queues: "free_socket cp s = Inr s' \<Longrightarrow> same_queues s s'"
  by (auto simp: free_socket_def same_queues_def split: option.splits)

lemma context_finalize_destroy_queues: "context_finalize_destroy p s = Inr s' \<Longrightarrow> same_queues s s'"
  using close_fd_queues
  by (fastforce simp: context_finalize_destroy_def res_simps case_prod_beta Let_def same_queues_def)

lemmas call_queues = epoll_event_queues [unfolded same_queues_def] free_socket_queues [unfolded same_queues_def]
  context_finalize_destroy_queues [unfolded same_queues_def]

lemma client_close_queues: "client_close_connection now cp r s = Inr s' \<Longrightarrow> same_queues s s'"
  by (auto simp: client_close_connection_def res_simps Let_def same_queues_def dest!: call_queues)

lemma client_reset_queues: "client_reset_connection now now' cp r s = Inr s' \<Longrightarrow> same_queues s s'"
  by (auto simp: client_reset_connection_def res_simps Let_def same_queues_def dest!: call_queues)

lemma accept_connection_queues:
  "accept_connection al now p cp w fd k host nodelay quickack nameinfo s = Inr s' \<Longrightarrow> same_queues s s'"
  by (auto simp: accept_connection_def res_simps Let_def same_queues_def dest!: call_queues)

lemma handle_accept_read_queues: "handle_accept_read al clk fr w accs s = Inr s' \<Longrightarrow> same_queues s s'"
proof (induction al clk fr w accs s arbitrary: s' rule: handle_accept_read.induct)
  case (1 al clk fr w fd k host nodelay quickack nameinfo accs s)
  then obtain p cp fr' s1 where r: "fr = p # cp # fr'" "accept_connection al (clk 0) p cp w fd k host nodelay quickack nameinfo s = Inr s1"
      "handle_accept_read al (\<lambda>i. clk (Suc i)) fr' w accs s1 = Inr s'"
    by (auto simp: res_simps split: list.splits)
  from 1(1) [OF r(1) refl r(2,3)] accept_connection_queues [OF r(2)] show ?case by (simp add: same_queues_def)
qed (auto simp: same_queues_def)

lemma io_event_loop_start_queues: "io_event_loop_start al cp w fd s = Inr s' \<Longrightarrow> same_queues s s'"
  by (auto simp: io_event_loop_start_def res_simps Let_def same_queues_def dest!: call_queues)

lemma push_success_items:
  assumes q: "mq_inv q" "mq_notified q \<le> length (mq_items q)" and r: "mrmw_queue_push q p = Inr (QUEUE_SUCCESS, q')"
  shows "mq_items q' = mq_items q @ [p]"
proof -
  have room: "length (mq_items q) < mq_capacity q"
    using mq.bounded [OF q(1)] mq_push_full [OF q(1), of p] r by fastforce
  have "mq_capacity q < unat EVENTFD_MAX" using q(1) by (simp add: mq_inv_def mq_capacity_def EVENTFD_MAX_def)
  then have "mq_notified q < unat EVENTFD_MAX" using room q(2) by simp
  from mq_push_room [OF q(1) room this, of p] r show ?thesis by auto
qed

lemma enqueue_grows:
  assumes q: "queues_ok pend s" and r: "enqueue_request now w p s = Inr s'"
  shows "queues_grow s s'"
proof -
  let ?a = "unat (sv_count s mod of_nat (sv_actor_count s))"
  obtain q' where e: "(?a, w) \<in> queue_ids s" "mrmw_queue_push (sv_queues s ?a w) p = Inr (QUEUE_SUCCESS, q')"
      "\<And>a' w'. sv_queues s' a' w' = (if a' = ?a \<and> w' = w then q' else sv_queues s a' w')" "queue_ids s' = queue_ids s"
    using r by (auto simp: enqueue_request_def res_simps Let_def queue_ids_def put_queue_def split: if_splits)
  have "mq_inv (sv_queues s ?a w) \<and> mq_notified (sv_queues s ?a w) + pend ?a w = length (mq_items (sv_queues s ?a w))"
    using q e(1) by (auto simp: queues_ok_def)
  then have "mq_items q' = mq_items (sv_queues s ?a w) @ [p]" using push_success_items e(2) by simp
  then show ?thesis using e(3,4) by (auto simp: queues_grow_def)
qed

lemma same_queues_ok: "\<lbrakk>same_queues s s'; queues_ok pend s\<rbrakk> \<Longrightarrow> queues_ok pend s'"
  by (simp add: queues_ok_def same_queues_def queue_ids_def)

lemma same_queues_put: "same_queues s (put_fd fd k (put_context p rc s))"
  by (simp add: same_queues_def)

lemma client_handle_read_grows:
  assumes q: "queues_ok pend s" and r: "client_handle_read al clk cp s = Inr s'"
  shows "queues_grow s s'"
proof -
  obtain sc :: SocketContext and rc :: RequestContext and st s1 where e: "same_queues s s1"
    and st: "(case st of
         READ_FINISH \<Rightarrow> bind_res (delete_epoll_event (sc_epoll_info sc) (rc_fd rc) s1) (\<lambda>s.
           bind_res (enqueue_request (clk 2) (sc_epoll_info sc) (data_ptr sc) s) (free_socket cp))
       | READ_ERROR \<Rightarrow> client_close_connection (clk 2) cp REQUEST_READ_ERROR s1
       | CLIENT_DISCONNECT \<Rightarrow> client_close_connection (clk 2) cp REQUEST_CLIENT_ERROR s1
       | READ_BUSY \<Rightarrow> Inr s1) = Inr s'"
    using r unfolding client_handle_read_def bind_res_eq_Inr Let_def case_prod_beta
    by (elim exE conjE) (rule that, rule same_queues_put, assumption)
  have "queues_grow s1 s'"
  proof (cases st)
    case READ_FINISH
    then obtain s2 s3 where f: "delete_epoll_event (sc_epoll_info sc) (rc_fd rc) s1 = Inr s2"
        "enqueue_request (clk 2) (sc_epoll_info sc) (data_ptr sc) s2 = Inr s3" "free_socket cp s3 = Inr s'"
      using st by (auto simp: res_simps)
    have s2: "same_queues s1 s2" using epoll_event_queues(1) [OF f(1)] .
    have "queues_grow s2 s3" using enqueue_grows [OF same_queues_ok [OF s2 same_queues_ok [OF e q]] f(2)] .
    then have "queues_grow s1 s3" using same_queues_grow_trans [OF s2] by blast
    then show ?thesis using free_socket_queues [OF f(3)] by (simp add: queues_grow_def same_queues_def queue_ids_def)
  qed (use st in \<open>auto intro!: same_queues_grow same_queues_refl dest: client_close_queues\<close>)
  with e show ?thesis by (rule same_queues_grow_trans)
qed

lemma client_handle_write_queues: "client_handle_write clk cp s = Inr s' \<Longrightarrow> same_queues s s'"
  by (auto simp: client_handle_write_def res_simps Let_def same_queues_def split: WriteState.splits if_splits
      dest!: client_close_queues [unfolded same_queues_def] client_reset_queues [unfolded same_queues_def])
    (metis WriteState.exhaust)+

lemma call_handler_grows:
  "\<lbrakk>queues_ok pend s; call_handler h al clk fr accs w cp events s = Inr s'\<rbrakk> \<Longrightarrow> queues_grow s s'"
  by (cases h)
    (auto simp: handle_accept_error_def client_handle_error_def res_simps
      intro: same_queues_grow handle_accept_read_queues client_handle_write_queues client_close_queues client_handle_read_grows)

lemma io_event_grows:
  assumes q: "queues_ok pend s" and one: "\<not> (has events EPOLLIN \<and> has events EPOLLOUT)"
    and r: "io_event al clk fr accs w cp events s = Inr s'"
  shows "queues_grow s s'"
  using one r same_queues_grow [OF same_queues_refl] call_handler_grows [OF q]
  by (auto simp: io_event_def res_simps split: if_splits option.splits)

section \<open>The way to the front\<close>

text \<open>Turns of the actor before \<open>p\<close> is popped: a pop for each request in front, and a read of the counter if none is announced.\<close>

definition distance :: "nat \<Rightarrow> nat \<Rightarrow> pointer \<Rightarrow> config \<Rightarrow> nat" where
  "distance a w p c = 2 * length (takeWhile (\<lambda>x. x \<noteq> p) (line a w c)) + (if cf_pending c a w = 0 then 1 else 0)"

text \<open>The request of \<open>rc\<close> has been answered, or still waits, unchanged, less than \<open>n\<close> turns away.\<close>

definition served :: "nat \<Rightarrow> nat \<Rightarrow> pointer \<Rightarrow> RequestContext \<Rightarrow> nat \<Rightarrow> config \<Rightarrow> bool" where
  "served a w p rc n c \<longleftrightarrow> answered a rc p (cf_server c) \<or>
     p \<in> set (line a w c) \<and> sv_contexts (cf_server c) p = Some rc \<and> distance a w p c < n"

lemma served_mono: "\<lbrakk>served a w p rc m c; m \<le> n\<rbrakk> \<Longrightarrow> served a w p rc n c"
  by (auto simp: served_def)

lemma grow_keeps_line:
  assumes "queues_grow (cf_server c) (cf_server c')" and "cf_pending c' a w = cf_pending c a w"
    and "(a, w) \<in> queue_ids (cf_server c)" and "p \<in> set (line a w c)" and "sv_contexts (cf_server c') p = Some rc"
  shows "served a w p rc (Suc (distance a w p c)) c'"
proof -
  obtain ys where "line a w c' = line a w c @ ys" using assms(1,3) by (auto simp: queues_grow_def)
  then show ?thesis using assms(2,4,5) by (simp add: served_def distance_def)
qed

lemma own_turn_serves:
  assumes inv: "config_inv c" and t: "actor_turn a w c c'" and p: "p \<in> set (line a w c)" and rc: "sv_contexts (cf_server c) p = Some rc"
  shows "served a w p rc (distance a w p c) c'"
  using t
proof (cases rule: actor_turn.cases)
  case (event_read n q)
  have "server_inv (cf_pending c) (cf_server c)" using inv by (simp add: config_inv_def)
  from event_read_ok [OF this event_read(2,3)] obtain q' where q':
      "mrmw_queue_event_read (sv_queues (cf_server c) a w) = (if line a w c = [] then None else Some (of_nat (length (line a w c))), q')"
      "mq_items q' = line a w c" "unat (of_nat (length (line a w c)) :: 64 word) = length (line a w c)" by blast
  have "mq_items q = line a w c" "unat n = length (line a w c)"
    using q' event_read(4) by (simp_all split: if_splits)
  moreover have "0 < length (line a w c)" using p by (cases "line a w c") auto
  ultimately show ?thesis using event_read(1,3) p rc by (simp add: served_def distance_def set_pending_def)
next
  case (handle fr al clk continue fr' s')
  have "handled_one (cf_pending c) a w (cf_server c) (Inr (continue, fr', s'))"
    using actor_handle_one_ok [of "cf_pending c" "cf_server c" a w fr al clk] handle inv by (simp add: config_inv_def)
  then have l: "line a w c = hd (line a w c) # mq_items (sv_queues s' a w)"
      "\<forall>rc. sv_contexts (cf_server c) (hd (line a w c)) = Some rc \<longrightarrow> answered a rc (hd (line a w c)) s'"
      "\<forall>p. p \<noteq> hd (line a w c) \<longrightarrow> sv_contexts s' p = sv_contexts (cf_server c) p"
    unfolding handled_one_def sum.case prod.case by blast+
  obtain x xs where x: "line a w c = x # xs" using p by (cases "line a w c") auto
  have h: "mq_items (sv_queues s' a w) = xs" "x = p \<Longrightarrow> answered a rc p s'" "x \<noteq> p \<Longrightarrow> sv_contexts s' p = Some rc"
    using l rc unfolding x by auto
  show ?thesis using handle(1,3) h p by (cases "x = p") (simp_all add: served_def distance_def x)
qed

lemma one_line:
  assumes "config_inv c" and "(a, w) \<in> queue_ids (cf_server c)" and "(a', w') \<in> queue_ids (cf_server c)"
    and "p \<in> set (line a w c)" and "p \<in> set (line a' w' c)"
  shows "(a', w') = (a, w)"
proof (rule ccontr)
  let ?s = "cf_server c" and ?m = "\<lambda>(a, w). mset (line a w c)"
  assume ne: "(a', w') \<noteq> (a, w)"
  have inv: "server_inv (cf_pending c) ?s" using assms(1) by (simp add: config_inv_def)
  have "queued ?s = (\<Sum>x\<in>queue_ids ?s - {(a, w)} - {(a', w')}. ?m x) + ?m (a', w') + ?m (a, w)"
    using sum.remove [of "queue_ids ?s" "(a, w)" ?m] sum.remove [of "queue_ids ?s - {(a, w)}" "(a', w')" ?m] assms(2,3) ne
    by (simp add: queued_def ac_simps)
  moreover have "1 \<le> count (mset (line a w c)) p" "1 \<le> count (mset (line a' w' c)) p"
    using assms(4,5) unfolding count_greater_eq_one_iff by simp_all
  ultimately have "2 \<le> count (queued ?s) p" by (simp del: count_greater_eq_one_iff One_nat_def)
  moreover have "count (queued ?s) p \<le> 1" using inv by (simp add: server_inv_def count_mset_set')
  ultimately show False by simp
qed

lemma other_turn_keeps_line:
  assumes inv: "config_inv c" and t: "actor_turn a' w' c c'" and other: "(a', w') \<noteq> (a, w)"
    and aw: "(a, w) \<in> queue_ids (cf_server c)" and p: "p \<in> set (line a w c)"
  shows "line a w c' = line a w c \<and> cf_pending c' a w = cf_pending c a w \<and>
     sv_contexts (cf_server c') p = sv_contexts (cf_server c) p"
  using t
proof (cases rule: actor_turn.cases)
  case (handle fr al clk continue fr' s')
  have "handled_one (cf_pending c) a' w' (cf_server c) (Inr (continue, fr', s'))"
    using actor_handle_one_ok [of "cf_pending c" "cf_server c" a' w' fr al clk] handle inv by (simp add: config_inv_def)
  then have l: "sv_queues s' = (sv_queues (cf_server c))(a' := (sv_queues (cf_server c) a')(w' := sv_queues s' a' w'))"
      "line a' w' c = hd (line a' w' c) # mq_items (sv_queues s' a' w')"
      "\<forall>p. p \<noteq> hd (line a' w' c) \<longrightarrow> sv_contexts s' p = sv_contexts (cf_server c) p"
    unfolding handled_one_def sum.case prod.case by blast+
  from fun_cong [OF fun_cong [OF l(1)], of a w] have "sv_queues s' a w = sv_queues (cf_server c) a w"
    using other by (auto split: if_splits)
  moreover have "hd (line a' w' c) \<in> set (line a' w' c)" using l(2) by (metis list.set_intros(1))
  then have "p \<noteq> hd (line a' w' c)" using one_line [OF inv aw handle(2) p] other by auto
  ultimately show ?thesis using handle(1) other l(3) by (auto simp: set_pending_def)
qed (use other in \<open>auto simp: set_pending_def put_queue_def\<close>)

lemma same_queues_ids_put_fd: "queues_grow (put_fd fd k s) s' \<Longrightarrow> queues_grow s s'"
  by (simp add: queues_grow_def queue_ids_def)

lemma reported_one_direction:
  assumes "config_inv c" and "cf_batch c w = (cp, events) # es"
  shows "\<not> (has events EPOLLIN \<and> has events EPOLLOUT)"
proof -
  have core: "server_core (cf_server c)" and "reported (cf_server c) w (cp, events)"
    using assms by (auto simp: config_inv_def server_inv_def)
  then obtain fd ev where e: "sv_epolls (cf_server c) w fd = Some (ev, cp)" "reports ev events" by (auto simp: reported_def)
  from core e(1) have "ev = INPUT_EVENTS \<or> ev = OUTPUT_EVENTS"
    by (cases rule: core_entry_cases) (auto simp: reading_def writing_def accept_entry_def)
  then show ?thesis using e(2) by (auto simp: reports_def)
qed

lemma io_keeps_waiting:
  assumes inv: "config_inv c" and batch: "cf_batch c w = (cp, events) # es" and fr: "fresh (cf_server c) fr"
    and accs: "accepts_ok (cf_server c) accs" and r: "io_event al clk fr accs w cp events (cf_server c) = Inr s'"
    and p: "p \<in> waiting (cf_server c)"
  shows "sv_contexts s' p = sv_contexts (cf_server c) p"
proof -
  obtain rc where rc: "sv_contexts (cf_server c) p = Some rc" "registration (cf_server c) rc = None" using p by (auto simp: waiting_def)
  from other_event_untouched [OF inv rc(1) batch _ fr accs r, of "c\<lparr>cf_server := s'\<rparr>"] rc show ?thesis by (simp add: untouched_def)
qed

lemma step_keeps_line:
  assumes inv: "config_inv c" and step: "server_step c c'" and aw: "(a, w) \<in> queue_ids (cf_server c)"
    and p: "p \<in> set (line a w c)" and rc: "sv_contexts (cf_server c) p = Some rc"
  shows "served a w p rc (Suc (distance a w p c)) c'"
  using step
proof (cases rule: server_step.cases)
  case (worker_start w' fd cp al k s')
  have "queues_grow (cf_server c) (cf_server c')"
    using same_queues_ids_put_fd [OF same_queues_grow [OF io_event_loop_start_queues [OF worker_start(7)]]] worker_start(1) by simp
  moreover have "sv_contexts (cf_server c) \<subseteq>\<^sub>m sv_contexts s'"
    using io_event_loop_start_ok [of "cf_pending c" "cf_server c" w' fd cp al k] worker_start inv
    by (simp add: config_inv_def accept_ok_def)
  then have "sv_contexts s' p = Some rc" using rc by (metis domI map_le_def)
  ultimately show ?thesis using worker_start(1) by (intro grow_keeps_line [OF _ _ aw p]) simp_all
next
  case (epoll_wait w' es)
  then show ?thesis using rc by (intro grow_keeps_line [OF _ _ aw p]) (simp_all add: same_queues_grow same_queues_refl)
next
  case (io w' cp events es fr accs al clk s')
  have "queues_ok (cf_pending c) (cf_server c)" using inv by (simp add: config_inv_def server_inv_def)
  from io_event_grows [OF this reported_one_direction [OF inv io(2)] io(5)]
    io_keeps_waiting [OF inv io(2-5) line_waiting [OF inv aw p]]
  show ?thesis using io(1) rc by (intro grow_keeps_line [OF _ _ aw p]) simp_all
next
  case (actor a' w')
  show ?thesis
  proof (cases "(a', w') = (a, w)")
    case True
    then have "actor_turn a w c c'" using actor by simp
    from served_mono [OF own_turn_serves [OF inv this p rc]] show ?thesis by simp
  next
    case False
    then show ?thesis using other_turn_keeps_line [OF inv actor False aw p] p rc by (simp add: served_def distance_def)
  qed
next
  case (network fds)
  then show ?thesis using rc by (intro grow_keeps_line [OF _ _ aw p]) (simp_all add: queues_grow_def queue_ids_def)
qed

lemma step_queue_ids:
  assumes inv: "config_inv c" and step: "server_step c c'"
  shows "queue_ids (cf_server c') = queue_ids (cf_server c)"
  using step
proof (cases rule: server_step.cases)
  case (worker_start w' fd cp al k s')
  then show ?thesis using same_queues_ids [OF io_event_loop_start_queues] by (simp add: queue_ids_def)
next
  case (io w' cp events es fr accs al clk s')
  have "queues_ok (cf_pending c) (cf_server c)" using inv by (simp add: config_inv_def server_inv_def)
  from io_event_grows [OF this reported_one_direction [OF inv io(2)] io(5)] show ?thesis
    using io(1) by (simp add: queues_grow_def)
next
  case (actor a' w')
  from actor show ?thesis
  proof (cases rule: actor_turn.cases)
    case (handle fr al clk continue fr' s')
    have "handled_one (cf_pending c) a' w' (cf_server c) (Inr (continue, fr', s'))"
      using actor_handle_one_ok [of "cf_pending c" "cf_server c" a' w' fr al clk] handle inv by (simp add: config_inv_def)
    then show ?thesis using handle(1) unfolding handled_one_def sum.case prod.case queue_ids_def by simp
  qed (simp add: queue_ids_def)
qed (simp_all add: queue_ids_def)

section \<open>Fair runs\<close>

definition is_run :: "(nat \<Rightarrow> config) \<Rightarrow> bool" where
  "is_run run \<longleftrightarrow> started (run 0) \<and> (\<forall>i. server_step (run i) (run (Suc i)))"

text \<open>An actor with requests in one of its queues is eventually given a turn at that queue.\<close>

definition actor_fair :: "nat \<Rightarrow> nat \<Rightarrow> (nat \<Rightarrow> config) \<Rightarrow> bool" where
  "actor_fair a w run \<longleftrightarrow> (\<forall>i. line a w (run i) \<noteq> [] \<longrightarrow> (\<exists>j\<ge>i. actor_turn a w (run j) (run (Suc j))))"

lemma run_reachable: "is_run run \<Longrightarrow> reachable (run i)"
proof (induction i)
  case (Suc i)
  then show ?case by (auto simp: reachable_def is_run_def intro: rtranclp.rtrancl_into_rtrancl)
qed (auto simp: reachable_def is_run_def)

lemma run_inv: "is_run run \<Longrightarrow> config_inv (run i)"
  using run_reachable reachable_config_inv by blast

lemma run_queue_ids: "is_run run \<Longrightarrow> queue_ids (cf_server (run i)) = queue_ids (cf_server (run 0))"
proof (induction i)
  case (Suc i)
  have "server_step (run i) (run (Suc i))" using Suc.prems by (simp add: is_run_def)
  from step_queue_ids [OF run_inv [OF Suc.prems] this] Suc show ?case by simp
qed simp

text \<open>What the socket of a connection has taken so far.\<close>

definition has_sent :: "RequestContext \<Rightarrow> byte list \<Rightarrow> config \<Rightarrow> bool" where
  "has_sent rc bs c \<longleftrightarrow> (\<exists>k. sv_fds (cf_server c) (rc_fd rc) = Some k \<and> sent k = bs)"

text \<open>The request of \<open>rc\<close> waits in the queue of actor \<open>a\<close> and worker \<open>w\<close>.\<close>

definition in_line :: "nat \<Rightarrow> nat \<Rightarrow> pointer \<Rightarrow> RequestContext \<Rightarrow> byte list \<Rightarrow> config \<Rightarrow> bool" where
  "in_line a w p rc bs c \<longleftrightarrow> (a, w) \<in> queue_ids (cf_server c) \<and> p \<in> set (line a w c) \<and> sv_contexts (cf_server c) p = Some rc \<and> has_sent rc bs c"

lemma in_line_sent:
  assumes inv: "config_inv c" and step: "server_step c c'" and l: "in_line a w p rc bs c"
  shows "has_sent rc bs c'"
proof -
  have rc: "sv_contexts (cf_server c) p = Some rc" "has_sent rc bs c" "p \<in> waiting (cf_server c)"
    using l line_waiting [OF inv] by (auto simp: in_line_def)
  from inv step rc(1) show ?thesis
  proof (cases rule: step_cases)
    case (own_event ev w' cp events es fr accs al clk s')
    then show ?thesis using rc(1,3) by (simp add: waiting_def)
  qed (use rc(2) in \<open>auto simp: has_sent_def untouched_def\<close>)
qed

interpretation act: progress started server_step config_inv "in_line a w p rc bs" "actor_turn a w" "distance a w p"
  "\<lambda>_ c'. answered a rc p (cf_server c') \<and> has_sent rc bs c'" for a w p rc bs
proof unfold_locales
  fix c c'
  assume c: "config_inv c" "in_line a w p rc bs c"
  note sent = in_line_sent [OF c(1) _ c(2)]
  show "answered a rc p (cf_server c') \<and> has_sent rc bs c' \<or> in_line a w p rc bs c' \<and> distance a w p c' \<le> distance a w p c"
    if "server_step c c'"
    using step_keeps_line [OF c(1) that] step_queue_ids [OF c(1) that] c(2) sent [OF that]
    by (fastforce simp: in_line_def served_def less_Suc_eq_le)
  show "answered a rc p (cf_server c') \<and> has_sent rc bs c' \<or> in_line a w p rc bs c' \<and> distance a w p c' < distance a w p c"
    if "actor_turn a w c c'"
    using own_turn_serves [OF c(1) that] step_queue_ids [OF c(1) server_step.actor [OF that]] c(2) sent [OF server_step.actor [OF that]]
    by (auto simp: in_line_def served_def)
qed

text \<open>In a fair run a live context that no event loop has registered is answered, and nothing is sent before.\<close>

lemma waiting_served:
  assumes run: "is_run run" and fair: "\<forall>(a, w)\<in>queue_ids (cf_server (run 0)). actor_fair a w run"
    and rc: "sv_contexts (cf_server (run i)) p = Some rc" "\<forall>w. sv_epolls (cf_server (run i)) w (rc_fd rc) = None" "has_sent rc bs (run i)"
  shows "rc_wf rc \<and> rc_parsed rc \<and> drained rc \<and> (\<exists>a. \<exists>j>i. answered a rc p (cf_server (run j)) \<and> has_sent rc bs (run j))"
proof -
  let ?s = "cf_server (run i)"
  have inv: "server_inv (cf_pending (run i)) ?s" using run_inv [OF run, of i] by (simp add: config_inv_def)
  then have "p \<in># queued ?s" using finite_waiting [OF inv] rc by (simp add: server_inv_def waiting_def)
  then obtain a w where aw: "(a, w) \<in> queue_ids ?s" "p \<in> set (line a w (run i))"
    by (auto simp: queued_def set_mset_sum)
  then have "in_line a w p rc bs (run i)" "(a, w) \<in> queue_ids (cf_server (run 0))"
    using rc run_queue_ids [OF run, of i] by (simp_all add: in_line_def)
  moreover from this fair have "actor_fair a w run" by blast
  then have "\<exists>j\<ge>i. actor_turn a w (run j) (run (Suc j))" if "\<And>j. i \<le> j \<Longrightarrow> in_line a w p rc bs (run j)" for i
    using that [of i] unfolding in_line_def actor_fair_def by (metis length_pos_if_in_set less_numeral_extra(3) list.size(3) order_refl)
  ultimately obtain j where "i \<le> j" "answered a rc p (cf_server (run (Suc j))) \<and> has_sent rc bs (run (Suc j))"
    using act.goal_reached [of run] run unfolding is_run_def by blast
  then have "\<exists>a. \<exists>j>i. answered a rc p (cf_server (run j)) \<and> has_sent rc bs (run j)" by (intro exI [of _ a] exI [of _ "Suc j"]) simp
  moreover have "context_ok ?s p rc" "registration ?s rc = None" using core_context inv rc by (simp_all add: server_inv_def)
  then have "rc_wf rc" "rc_parsed rc" "drained rc" by (auto simp: context_ok_def waiting_ok_def reading_def writing_def)
  ultimately show ?thesis by blast
qed

text \<open>What the answer is, when the output buffer has room for it.\<close>

lemma answered_pending:
  assumes rc: "rc_wf rc" "rc_parsed rc" and ans: "answered a rc p s"
    and path: "path = bytes_at (ib_buffer (rc_input_buffer rc)) (req_path (rc_http_request rc)) (req_path_len (rc_http_request rc))"
      "0 \<notin> set path" "length path < 10 ^ 9"
    and t: "t = response_text 200
       [(ascii ''Content-Length'', dec (int (length path))),
        (ascii ''Connection'', if context_keep_alive rc = Inr 1 then ascii ''keep-alive'' else ascii ''close'')] path"
      "length t < ob_free (rc_output_buffer rc)"
  shows "\<exists>rc' cp. sv_contexts s p = Some rc' \<and> writing s p rc' cp \<and> same_connection rc rc' \<and>
     context_keep_alive rc' = context_keep_alive rc \<and> ob_pending (rc_output_buffer rc') = ob_pending (rc_output_buffer rc) @ t"
proof -
  obtain al ts rc1 rc' cp where a: "prs_wf ts" "handle_request al (rc\<lparr>rc_actor_id := int a, rc_time_stats := ts\<rparr>) = Inr rc1"
      "sv_contexts s p = Some rc'" "rc_output_buffer rc' = rc_output_buffer rc1" "writing s p rc' cp"
      "same_connection rc rc'" "context_keep_alive rc' = context_keep_alive rc"
    using ans by (auto simp: answered_def)
  let ?rc0 = "rc\<lparr>rc_actor_id := int a, rc_time_stats := ts\<rparr>"
  have "rc_wf ?rc0" "rc_parsed ?rc0" using rc a(1) by (simp_all add: rc_wf_def rc_parsed_def)
  moreover have "context_keep_alive ?rc0 = context_keep_alive rc" by (simp add: context_keep_alive_def)
  ultimately have "ob_pending (rc_output_buffer rc1) = ob_pending (rc_output_buffer rc) @ t"
    using handle_request_room [of ?rc0 path t al] path t a(2) by auto
  then show ?thesis using a(3-7) by auto
qed

section \<open>Properties\<close>


section \<open>A run\<close>

text \<open>The request of the example of \<open>Request_Response\<close>, on an idle connection.\<close>

lemma request_arrives_ex: "req_num_headers rq = NUM_HEADERS \<Longrightarrow> request_arrives rq sock_req_ex [71, 69, 84] [47, 97] 1 headers_ex"
  using sock_req_ex_facts by (simp add: request_arrives_def NUM_HEADERS_def)

lemma read_ex:
  assumes reg: "registered pend s p rc cp sc" and rd: "reading s p rc cp" and k: "sv_fds s (rc_fd rc) = Some sock_req_ex"
    and rc: "ib_offset (rc_input_buffer rc) = 0" "ib_length (rc_input_buffer rc) = BUF_SIZE" "req_num_headers (rc_http_request rc) = NUM_HEADERS"
    and one: "sv_actor_count s = 1" and room: "mq_items (sv_queues s 0 (rc_epoll_info rc)) = []" "0 < mq_capacity (sv_queues s 0 (rc_epoll_info rc))"
  shows "\<exists>s' rc'. client_handle_read al_ex clk cp s = Inr s' \<and> sv_contexts s' = (sv_contexts s)(p \<mapsto> rc') \<and>
     sv_sockets s' = (sv_sockets s)(cp := None) \<and> sv_epolls s' (rc_epoll_info rc) (rc_fd rc) = None \<and> queue_ids s' = queue_ids s \<and>
     mq_items (sv_queues s' 0 (rc_epoll_info rc)) = [p] \<and> rc_fd rc' = rc_fd rc \<and> rc_epoll_info rc' = rc_epoll_info rc \<and>
     bytes_at (ib_buffer (rc_input_buffer rc')) (req_path (rc_http_request rc')) (req_path_len (rc_http_request rc')) = [47, 97] \<and>
     context_keep_alive rc' \<noteq> Inr 1 \<and> rc_output_buffer rc' = rc_output_buffer rc"
proof -
  have idle: "rc_idle rc" using registeredD(9) [OF reg] rc by (simp add: rc_idle_def BUF_SIZE_def)
  from reg rd k idle request_arrives_ex [OF rc(3)] show ?thesis
  proof (cases rule: client_handle_read_arrives [of pend s p rc cp sc sock_req_ex _ _ _ _ al_ex clk])
    case (oom e)
    then show ?thesis by (simp add: al_ex_def)
  next
    case (parsed rc1 k1 s1)
    have fd: "rc_fd rc1 = rc_fd rc" "rc_epoll_info rc1 = rc_epoll_info rc" using parsed(3) by (simp_all add: same_connection_def)
    have a: "0 = unat (sv_count s1 mod of_nat (sv_actor_count s1))" using one parsed(1) by simp
    have "length (mq_items (sv_queues s1 0 (rc_epoll_info rc1))) < mq_capacity (sv_queues s1 0 (rc_epoll_info rc1))"
      using room fd(2) parsed(1) by simp
    from parsed(2) a this show ?thesis
    proof (rule hand_over_room [where now = "clk 2"], unfold fd)
      fix ts2 q' s'
      assume h: "mq_items q' = mq_items (sv_queues s1 0 (rc_epoll_info rc)) @ [p]"
          "bind_res (delete_epoll_event (rc_epoll_info rc) (rc_fd rc) s1) (\<lambda>s.
            bind_res (enqueue_request (clk 2) (rc_epoll_info rc) p s) (free_socket cp)) = Inr s'"
          "sv_contexts s' = (sv_contexts s1)(p \<mapsto> rc1\<lparr>rc_time_stats := ts2\<rparr>)" "sv_sockets s' = (sv_sockets s1)(cp := None)"
          "\<And>w fd. sv_epolls s' w fd = (if w = rc_epoll_info rc \<and> fd = rc_fd rc then None else sv_epolls s1 w fd)"
          "\<And>a' w'. sv_queues s' a' w' = (if a' = 0 \<and> w' = rc_epoll_info rc then q' else sv_queues s1 a' w')"
          "sv_io_worker_count s' = sv_io_worker_count s1" "sv_actor_count s' = sv_actor_count s1"
      have "context_keep_alive (rc1\<lparr>rc_time_stats := ts2\<rparr>) \<noteq> Inr 1"
        using parsed(7) by (simp add: context_keep_alive_def headers_ex_def ascii_def)
      then show ?thesis
        using h parsed(1,4,6,8) room(1) fd by (intro exI [of _ s'] exI [of _ "rc1\<lparr>rc_time_stats := ts2\<rparr>"]) (simp add: queue_ids_def)
    qed
  qed
qed

text \<open>A client is connected, its request has arrived, been parsed and handed to the actor.\<close>

definition waits_ex :: "config \<Rightarrow> RequestContext \<Rightarrow> bool" where
  "waits_ex c rc \<longleftrightarrow> reachable c \<and> queue_ids (cf_server c) = {(0, 0)} \<and> cf_pending c 0 0 = 0 \<and> line 0 0 c = [32] \<and> fresh (cf_server c) [64] \<and>
     sv_contexts (cf_server c) 32 = Some rc \<and> (\<forall>w. sv_epolls (cf_server c) w (rc_fd rc) = None) \<and>
     bytes_at (ib_buffer (rc_input_buffer rc)) (req_path (rc_http_request rc)) (req_path_len (rc_http_request rc)) = [47, 97] \<and>
     context_keep_alive rc \<noteq> Inr 1 \<and> ob_free (rc_output_buffer rc) = unat BUF_SIZE \<and> ob_pending (rc_output_buffer rc) = [] \<and> cf_batch c 0 = []"

lemma arrived_ex:
  obtains c0 rc0 c rc where "reachable c0" "sv_contexts (cf_server c0) 32 = Some rc0" "reading (cf_server c0) 32 rc0 48"
    "sv_fds (cf_server c0) (rc_fd rc0) = Some sock_req_ex" "rc_idle rc0" "req_num_headers (rc_http_request rc0) = NUM_HEADERS"
    "ob_free (rc_output_buffer rc0) = unat BUF_SIZE" "ob_pending (rc_output_buffer rc0) = []" "input_turn 48 c0 c" "waits_ex c rc"
proof -
  obtain c rc where c: "reachable c" "sv_contexts (cf_server c) 32 = Some rc" "rc_fd rc = 5" "reading (cf_server c) 32 rc 48"
      "cf_batch c 0 = []" "cf_pending c 0 0 = 0" "queue_ids (cf_server c) = {(0, 0)}" "sv_actor_count (cf_server c) = 1" "line 0 0 c = []"
      "mq_capacity (sv_queues (cf_server c) 0 0) = 1024" "fresh (cf_server c) [64]" "sv_fds (cf_server c) 5 = Some \<lparr>rx = [], tx = [], sent = []\<rparr>"
    and rc: "ib_offset (rc_input_buffer rc) = 0" "ib_length (rc_input_buffer rc) = BUF_SIZE"
      "req_num_headers (rc_http_request rc) = NUM_HEADERS" "ob_free (rc_output_buffer rc) = unat BUF_SIZE"
      "ob_pending (rc_output_buffer rc) = []" "rc_epoll_info rc = 0"
    using reachable_conn_ex by blast
  let ?s = "(cf_server c)\<lparr>sv_fds := (sv_fds (cf_server c))(5 \<mapsto> sock_req_ex)\<rparr>"
  define c2 where "c2 = c\<lparr>cf_server := ?s\<rparr>"
  define c3 where "c3 = c2\<lparr>cf_batch := (cf_batch c2)(0 := [(48, EPOLLIN)])\<rparr>"
  have ok: "context_ok (cf_server c) 32 rc"
    using reachable_config_inv [OF c(1)] c(2) core_context by (auto simp: config_inv_def server_inv_def)
  then have "server_step c c2" unfolding c2_def using c(3,12)
    by (intro server_step.network) (auto simp: sock_req_ex_def split: if_splits)
  moreover have "reported ?s 0 (48, EPOLLIN)"
    using c(3,4) rc(6) unfolding reported_def
    by (intro exI [of _ 5] exI [of _ INPUT_EVENTS]) (simp add: reading_def reports_def, simp add: has_def epoll_flags)
  then have "server_step c2 c3" unfolding c3_def using c(5)
    by (intro server_step.epoll_wait) (simp_all add: c2_def MAX_EVENTS_def)
  ultimately have r3: "reachable c3" using c(1) reachable_step by blast
  have "server_inv (cf_pending c) ?s" using reachable_config_inv [OF r3] by (simp add: config_inv_def c2_def c3_def)
  moreover have rd: "reading ?s 32 rc 48" using c(4) by (simp add: reading_def)
  ultimately have reg: "registered (cf_pending c) ?s 32 rc 48 (reader 32 0)"
    using c(2) rc(6) by (simp add: registered_def) (simp add: reading_def)
  have k: "sv_fds ?s (rc_fd rc) = Some sock_req_ex" using c(3) by simp
  let ?clk = "\<lambda>_. \<lparr>tv_sec = 1, tv_nsec = 2\<rparr>"
  obtain s' rc' where s': "client_handle_read al_ex ?clk 48 ?s = Inr s'" "sv_contexts s' = (sv_contexts ?s)(32 \<mapsto> rc')"
      "sv_sockets s' = (sv_sockets ?s)(48 := None)" "sv_epolls s' 0 5 = None" "queue_ids s' = queue_ids ?s" "mq_items (sv_queues s' 0 0) = [32]"
    and rc': "rc_fd rc' = 5" "rc_epoll_info rc' = 0"
      "bytes_at (ib_buffer (rc_input_buffer rc')) (req_path (rc_http_request rc')) (req_path_len (rc_http_request rc')) = [47, 97]"
      "context_keep_alive rc' \<noteq> Inr 1" "rc_output_buffer rc' = rc_output_buffer rc"
    using read_ex [OF reg rd k rc(1-3), where clk = ?clk] c rc(6) by auto
  define c4 where "c4 = c3\<lparr>cf_server := s', cf_batch := (cf_batch c3)(0 := [])\<rparr>"
  have "io_event al_ex ?clk [64] [] 0 48 EPOLLIN ?s = Inr s'"
    using s'(1) registeredD(4) [OF reg] by (simp add: io_event_def get_socket_def reader_def has_def epoll_flags)
  moreover have "fresh ?s [64]" using c(11) by (simp add: fresh_def)
  ultimately have turn: "input_turn 48 c3 c4" unfolding c4_def
    using input_turn.intros [of c3 0 48 EPOLLIN "[]" "[64]" "[]" al_ex ?clk s']
    by (simp add: c3_def c2_def accepts_ok_def has_error_def) (simp add: has_def epoll_flags)
  then have r4: "reachable c4" using reachable_step [OF r3 input_turn_step] by blast
  have cs: "cf_server c4 = s'" "cf_pending c4 = cf_pending c" by (simp_all add: c4_def c3_def c2_def)
  have "server_core s'" using reachable_config_inv [OF r4] by (simp add: config_inv_def server_inv_def cs)
  then have none: "\<forall>w. sv_epolls s' w (rc_fd rc') = None"
    using entries_of_context [of s' 32 rc'] s'(2,4) rc'(1,2) by (metis fun_upd_same option.exhaust prod.exhaust)
  have "fresh s' [64]" using c(11) s'(2,3) by (simp add: fresh_def)
  with r4 none have "waits_ex c4 rc'"
    unfolding waits_ex_def using c(6,7) s' rc' rc(4,5) by (simp add: cs queue_ids_def) (simp add: c4_def)
  moreover have "cf_server c3 = ?s" by (simp add: c3_def c2_def)
  moreover have "rc_idle rc" using registeredD(9) [OF reg] rc(1,2) by (simp add: rc_idle_def BUF_SIZE_def)
  ultimately show thesis using that [of c3 rc c4 rc'] r3 turn rd k c(2) rc(3-5) by simp
qed

lemma actor_succeeds_ex:
  assumes inv: "server_inv pend s" and aw: "(a, w) \<in> queue_ids s" and pend: "0 < pend a w"
    and p: "mq_items (sv_queues s a w) = [p]" "sv_contexts s p = Some rc"
    and rc: "bytes_at (ib_buffer (rc_input_buffer rc)) (req_path (rc_http_request rc)) (req_path_len (rc_http_request rc)) = [47, 97]"
      "context_keep_alive rc \<noteq> Inr 1" "ob_free (rc_output_buffer rc) = unat BUF_SIZE"
  shows "\<exists>r. actor_handle_one al_ex clk [cp] a w s = Inr r"
proof -
  obtain p' xs rc' where h: "mq_items (sv_queues s a w) = p' # xs" "sv_contexts s p' = Some rc'" "context_ok s p' rc'" "waiting_ok s rc'"
    using queue_head [OF inv aw pend] .
  have eq: "p' = p" "rc' = rc" using h(1,2) p by auto
  have ok: "p \<noteq> NULL" "rc_wf rc" "sv_fds s (rc_fd rc) \<noteq> None" "rc_parsed rc" "waiting_ok s rc"
    using h(3,4) eq by (simp_all add: context_ok_def waiting_ok_def)
  have "mq_inv (sv_queues s a w)" using inv aw by (auto simp: server_inv_def queues_ok_def)
  then obtain q where q: "mrmw_queue_pop (sv_queues s a w) = Inr (p, q)" using mq_pop_item p(1) by blast
  have room: "length (response_text 200 [(ascii ''Content-Length'', dec (int (length [47, 97 :: byte]))),
      (ascii ''Connection'', ascii ''close'')] [47, 97]) = 59" by code_simp
  have no: "handle_request al_ex (rc\<lparr>rc_actor_id := int a, rc_time_stats := ts\<rparr>) \<noteq> Inl OOM" if "prs_wf ts" for ts
  proof -
    let ?rc = "rc\<lparr>rc_actor_id := int a, rc_time_stats := ts\<rparr>"
    have "rc_wf ?rc" "rc_parsed ?rc" using ok(2,4) that by (simp_all add: rc_wf_def rc_parsed_def)
    moreover have "context_keep_alive ?rc = context_keep_alive rc" by (simp add: context_keep_alive_def)
    ultimately show ?thesis
      using handle_request_room [of ?rc "[47, 97]" _ al_ex, OF _ _ _ _ _ refl] rc room by (auto simp: BUF_SIZE_def)
  qed
  have short: "req_path_len (rc_http_request rc) < 10 ^ 9"
    using arg_cong [OF rc(1), of length] ok(4) by (auto simp: rc_parsed_def request_within_def within_def bytes_at_def)
  from q ok(1) p(2) ok(5,2,3) show ?thesis
    by (cases rule: actor_handle_one_eq [of s a w p q rc al_ex clk "[cp]"])
      (use no short in \<open>auto simp: SIZEOF_SocketContext_def PTRDIFF_MAX_def\<close>)
qed

text \<open>The actor's two turns: it reads the counter, then it answers.\<close>

lemma turns_ex:
  assumes c: "reachable c" "queue_ids (cf_server c) = {(0, 0)}" "cf_pending c 0 0 = 0" "line 0 0 c = [p]" "fresh (cf_server c) [cp]"
    and rc: "sv_contexts (cf_server c) p = Some rc"
      "bytes_at (ib_buffer (rc_input_buffer rc)) (req_path (rc_http_request rc)) (req_path_len (rc_http_request rc)) = [47, 97]"
      "context_keep_alive rc \<noteq> Inr 1" "ob_free (rc_output_buffer rc) = unat BUF_SIZE"
  shows "\<exists>c1 c2. actor_turn 0 0 c c1 \<and> actor_turn 0 0 c1 c2 \<and> line 0 0 c2 = [] \<and>
     answered 0 rc p (cf_server c2) \<and> cf_batch c2 = cf_batch c"
proof -
  have aw: "(0, 0) \<in> queue_ids (cf_server c)" using c(2) by simp
  have inv: "server_inv (cf_pending c) (cf_server c)" using reachable_config_inv [OF c(1)] by (simp add: config_inv_def)
  from event_read_ok [OF inv aw c(3)] obtain q where q: "mrmw_queue_event_read (sv_queues (cf_server c) 0 0) = (Some 1, q)" "mq_items q = [p]"
      "server_inv ((cf_pending c)(0 := (cf_pending c 0)(0 := 1))) (put_queue 0 0 q (cf_server c))"
    unfolding c(4) by auto
  define c1 where "c1 = c\<lparr>cf_server := put_queue 0 0 q (cf_server c), cf_pending := set_pending 0 0 (unat (1 :: 64 word)) (cf_pending c)\<rparr>"
  have t1: "actor_turn 0 0 c c1" unfolding c1_def by (rule actor_turn.event_read [OF aw c(3) q(1)])
  have c1: "cf_pending c1 0 0 = 1" "line 0 0 c1 = [p]" "sv_contexts (cf_server c1) p = Some rc" "fresh (cf_server c1) [cp]"
      "(0, 0) \<in> queue_ids (cf_server c1)" "server_inv (cf_pending c1) (cf_server c1)"
    using q(2,3) rc(1) c(2,5) by (simp_all add: c1_def set_pending_def fresh_def queue_ids_def)
  let ?clk = "\<lambda>_. \<lparr>tv_sec = 1, tv_nsec = 2\<rparr>"
  have h: "handled_one (cf_pending c1) 0 0 (cf_server c1) (actor_handle_one al_ex ?clk [cp] 0 0 (cf_server c1))"
    using actor_handle_one_ok [OF c1(6,5) _ c1(4)] c1(1) by simp
  have "\<exists>r. actor_handle_one al_ex ?clk [cp] 0 0 (cf_server c1) = Inr r"
    using actor_succeeds_ex [OF c1(6,5) _ c1(2,3) rc(2-4)] c1(1) by simp
  then obtain continue fr' s' where r: "actor_handle_one al_ex ?clk [cp] 0 0 (cf_server c1) = Inr (continue, fr', s')" by auto
  have "0 < cf_pending c1 0 0" using c1(1) by simp
  note t2 = actor_turn.handle [OF c1(5) this c1(4) r]
  have "line 0 0 c1 = hd (line 0 0 c1) # mq_items (sv_queues s' 0 0)"
      "\<forall>rc. sv_contexts (cf_server c1) (hd (line 0 0 c1)) = Some rc \<longrightarrow> answered 0 rc (hd (line 0 0 c1)) s'"
    using h unfolding r handled_one_def sum.case prod.case by blast+
  then have "mq_items (sv_queues s' 0 0) = []" "answered 0 rc p s'" unfolding c1(2) using c1(3) by simp_all
  with t1 t2 show ?thesis by (intro exI [of _ c1] exI conjI) (assumption, assumption, simp_all, simp add: c1_def)
qed

text \<open>A configuration that is reached, two turns of the actor, and nothing more: a run.\<close>

lemma stutter: "server_step c c"
  using server_step.network [of "sv_fds (cf_server c)" c] by simp

lemma run_extends:
  assumes "reachable c" and "f 0 = c" and "\<And>i. server_step (f i) (f (Suc i))"
  obtains run i where "is_run run" "\<And>j. run (i + j) = f j"
proof -
  obtain c0 where c0: "started c0" "server_step\<^sup>*\<^sup>* c0 c" using assms(1) by (auto simp: reachable_def)
  from rtranclp_imp_relpowp [OF c0(2)] obtain n where "(server_step ^^ n) c0 c" ..
  then obtain g where g: "g 0 = c0" "g n = c" "\<And>i. i < n \<Longrightarrow> server_step (g i) (g (Suc i))"
    by (auto simp: relpowp_fun_conv)
  define run where "run i = (if i < n then g i else f (i - n))" for i
  have "server_step (run i) (run (Suc i))" for i
  proof -
    consider "Suc i < n" | "Suc i = n" | "n \<le> i" by linarith
    then show ?thesis by cases (use g(2) g(3) [of i] assms(2,3) in \<open>auto simp: run_def Suc_diff_le\<close>)
  qed
  moreover have "run 0 = c0" using g(1,2) assms(2) by (auto simp: run_def)
  ultimately have "is_run run" using c0(1) by (simp add: is_run_def)
  then show thesis by (rule that [of run n]) (simp add: run_def)
qed

lemma run_ex:
  assumes c: "reachable c" "queue_ids (cf_server c) = {(0, 0)}" and t: "actor_turn 0 0 c c1" "actor_turn 0 0 c1 c2" "line 0 0 c2 = []"
  obtains run i where "is_run run" "run i = c" "\<forall>(a, w)\<in>queue_ids (cf_server (run 0)). actor_fair a w run"
proof -
  define f where "f i = (if i = 0 then c else if i = 1 then c1 else c2)" for i :: nat
  have "server_step (f i) (f (Suc i))" for i
    using server_step.actor [OF t(1)] server_step.actor [OF t(2)] stutter [of c2] by (simp add: f_def)
  then obtain run n where r: "is_run run" "\<And>j. run (n + j) = f j" using run_extends [of c f] c(1) by (auto simp: f_def)
  have at: "run n = c" "run (Suc n) = c1" "run (Suc (Suc n)) = c2" using r(2) [of 0] r(2) [of 1] r(2) [of 2] by (simp_all add: f_def)
  have "queue_ids (cf_server (run 0)) = {(0, 0)}" using run_queue_ids [OF r(1), of n] at(1) c(2) by simp
  moreover have "actor_fair 0 0 run" unfolding actor_fair_def
  proof (intro allI impI)
    fix i
    assume "line 0 0 (run i) \<noteq> []"
    moreover have "run i = c2" if "Suc n < i" using r(2) [of "i - n"] that by (simp add: f_def)
    ultimately have "\<not> Suc n < i" using t(3) by auto
    then show "\<exists>j\<ge>i. actor_turn 0 0 (run j) (run (Suc j))" using t(2) at by (intro exI [of _ "Suc n"]) simp
  qed
  ultimately show thesis using that [OF r(1) at(1)] by simp
qed


end
