(* ===== verification/Server_Refinement.thy ===== *)
theory Server_Refinement
  imports Server_Properties
begin

text \<open>
  The running server refines \<open>Connection_Protocol\<close>: seen from its connections, every step of
  every thread is a step of the protocol, or does not show.
\<close>

definition phases :: "config \<Rightarrow> pointer \<Rightarrow> phase option" where
  "phases c = phase_of (cf_server c)"

lemma phase_unchanged:
  "phase_of (put_queue a w q s) = phase_of s" "phase_of (s\<lparr>sv_fds := fds\<rparr>) = phase_of s"
  by (rule phase_cong; simp)+

lemma actor_turn_simulated:
  assumes inv: "config_inv c" and t: "actor_turn a w c c'"
  shows "protocol_step (phases c) (phases c')"
  using t
proof (cases rule: actor_turn.cases)
  case (event_read n q)
  then show ?thesis by (intro protocol_same) (simp add: phases_def phase_unchanged)
next
  case (handle fr al clk continue fr' s')
  have "handled_one (cf_pending c) a w (cf_server c) (Inr (continue, fr', s'))"
    using actor_handle_one_ok [of "cf_pending c" "cf_server c" a w fr al clk] handle inv by (simp add: config_inv_def)
  then show ?thesis using handle(1) unfolding handled_one_def sum.case prod.case by (simp add: phases_def)
qed

lemma io_step_simulated:
  assumes inv: "config_inv c" and batch: "cf_batch c w = (cp, events) # es" and fr: "fresh (cf_server c) fr"
    and accs: "accepts_ok (cf_server c) accs" and r: "io_event al clk fr accs w cp events (cf_server c) = Inr s'"
  shows "protocol_step (phase_of (cf_server c)) (phase_of s')"
proof -
  have c: "server_inv (cf_pending c) (cf_server c)" "reported (cf_server c) w (cp, events)"
    using inv batch by (auto simp: config_inv_def)
  then obtain fd ev where e: "sv_epolls (cf_server c) w fd = Some (ev, cp)" "reports ev events" by (auto simp: reported_def)
  from io_event_ok [OF c(1) e fr accs, of al clk] show ?thesis by (simp add: r io_ok_def)
qed

lemma server_step_simulated:
  assumes inv: "config_inv c" and step: "server_step c c'"
  shows "protocol_step (phases c) (phases c')"
  using step
proof (cases rule: server_step.cases)
  case (worker_start w fd cp al k s')
  then have "accepts_only (phase_of (cf_server c)) (phase_of s')"
    using io_event_loop_start_ok [of "cf_pending c" "cf_server c" w fd cp al k] inv by (simp add: config_inv_def accept_ok_def)
  then show ?thesis using worker_start(1) by (simp add: phases_def accepts_only_step)
next
  case (io w cp events es fr accs al clk s')
  from io_step_simulated [OF inv io(2-5)] io(1) show ?thesis by (simp add: phases_def)
next
  case (actor a w)
  then show ?thesis by (rule actor_turn_simulated [OF inv])
next
  case (epoll_wait w es)
  then show ?thesis by (intro protocol_same) (simp add: phases_def)
next
  case (network fds)
  then show ?thesis by (intro protocol_same) (simp add: phases_def phase_unchanged)
qed

interpretation ref: simulation started server_step config_inv phases protocol_step
  by unfold_locales (rule server_step_simulated)

lemma started_phases: "started c \<Longrightarrow> phases c = (\<lambda>_. None)"
  by (intro ext) (auto simp: phases_def boot_def main_start_def res_simps phase_gone elim!: started.cases)

lemma waiting_phase:
  assumes "config_inv c"
  shows "phases c p = Some Waiting \<longleftrightarrow> p \<in># queued (cf_server c)"
proof -
  have inv: "server_inv (cf_pending c) (cf_server c)" using assms by (simp add: config_inv_def)
  then have "p \<in># queued (cf_server c) \<longleftrightarrow> p \<in> waiting (cf_server c)"
    using finite_waiting [OF inv] by (simp add: server_inv_def)
  then show ?thesis by (auto simp: phases_def phase_of_def waiting_def split: option.splits if_splits)
qed

section \<open>Properties\<close>

text \<open>
  Property C4: the server refines the protocol of its connections. From the start without
  connections, the phases of the connections of every reachable configuration are reached by
  steps of the protocol, and every step of a thread (a handler, a request of an actor, a read
  of a counter, an \<^verbatim>\<open>epoll_wait\<close>, a change of the network) is at most one step of it: a
  connection is accepted for reading, handed to an actor, answered, then read again or
  closed, and never closed or written to while it waits for an actor. The connections that
  wait are exactly those in the queues.
\<close>

theorem server_refines_protocol:
  assumes "reachable c"
  shows "protocol_step\<^sup>*\<^sup>* (\<lambda>_. None) (phases c) \<and>
     (\<forall>p. phases c p = Some Waiting \<longleftrightarrow> p \<in># queued (cf_server c)) \<and>
     (\<forall>c'. server_step c c' \<longrightarrow> protocol_step (phases c) (phases c'))"
proof -
  obtain c0 where c0: "started c0" "server_step\<^sup>*\<^sup>* c0 c" using assms by (auto simp: reachable_def)
  from ref.reachable_simulated [OF c0] started_phases [OF c0(1)]
  show ?thesis using waiting_phase server_step_simulated reachable_config_inv [OF assms] by auto
qed

theorem server_refines_protocol_witness:
  "\<exists>c. reachable c \<and> phases c 32 = Some Reading \<and> protocol_step\<^sup>*\<^sup>* (\<lambda>_. None) (phases c)"
proof -
  obtain c rc where c: "reachable c" "sv_contexts (cf_server c) 32 = Some rc" "reading (cf_server c) 32 rc 48"
    using reachable_conn_ex by blast
  from server_refines_protocol [OF c(1)] c phase_reading [OF c(2,3)] show ?thesis by (auto simp: phases_def)
qed

end
