(* ===== verification/Server_Delivery.thy ===== *)
theory Server_Delivery
  imports Server_Liveness Server_Refinement
begin

text \<open>
  Delivery: an answer that an actor has prepared leaves the server. Whatever the other threads
  and clients do, the bytes the socket has taken and the bytes still in the output buffer
  together stay the same, and every turn of the IO worker at a socket that takes bytes makes
  the rest shorter, until the answer is with the client or the connection is given up.
\<close>

section \<open>What a write leaves behind\<close>

text \<open>The socket takes, or refuses for good, what is written next.\<close>

definition writable :: "socket \<Rightarrow> bool" where
  "writable k \<longleftrightarrow> (case tx k of [] \<Rightarrow> False | e # _ \<Rightarrow> e \<noteq> Tx_Block)"

lemma writable_wrote:
  assumes "writable k" and "bs \<noteq> []"
  shows "(\<exists>n k'. sys_write bs k = (Wrote n, k')) \<or> (\<exists>k'. sys_write bs k = (Write_Fail, k'))"
  using assms by (auto simp: writable_def sys_write.simps Let_def split: list.splits tx_event.splits)

lemma write_to_shrinks:
  "\<lbrakk>ob_wf b; output_buffer_write_to b k = Inr (st, b', k')\<rbrakk> \<Longrightarrow> length (ob_pending b') \<le> length (ob_pending b)"
proof (induction b k rule: output_buffer_write_to.induct)
  case (1 b k)
  show ?case
  proof (cases "\<exists>n k1. write_from_offset b < write_into_offset b \<and> sys_write (ob_pending b) k = (Wrote (Suc n), k1)")
    case True
    then obtain n k1 where w: "write_from_offset b < write_into_offset b" "sys_write (ob_pending b) k = (Wrote (Suc n), k1)" by blast
    note adv = ob_advance [OF "1.prems"(1), of "Suc n"]
    have n: "Suc n \<le> length (ob_pending b)" using sys_write_wrote [OF w(2)] by simp
    have "output_buffer_write_to (b\<lparr>write_from_offset := write_from_offset b + of_nat (Suc n)\<rparr>) k1 = Inr (st, b', k')"
      using "1.prems" w ob_load_pending [OF "1.prems"(1)] by (simp add: output_buffer_write_to.simps [of b])
    from "1.IH" [OF w(1) ob_load_pending [OF "1.prems"(1)] w(2) [symmetric] refl refl adv(1) [OF n] this] adv(2) [OF n]
    show ?thesis by simp
  next
    case False
    then show ?thesis
      using "1.prems" ob_load_pending [OF "1.prems"(1)]
      by (auto simp: output_buffer_write_to.simps [of b] split: if_splits prod.splits write_ret.splits nat.splits)
  qed
qed

lemma write_to_progress:
  assumes wf: "ob_wf b" and k: "writable k" and w: "output_buffer_write_to b k = Inr (WRITE_BUSY, b', k')"
  shows "length (ob_pending b') < length (ob_pending b)"
proof -
  have lt: "write_from_offset b < write_into_offset b"
    using w by (simp add: output_buffer_write_to.simps [of b] split: if_splits)
  then have ne: "ob_pending b \<noteq> []" using wf by (simp add: ob_pending_Nil)
  note unf = output_buffer_write_to.simps [of b] ob_load_pending [OF wf]
  obtain n k1 where n: "sys_write (ob_pending b) k = (Wrote (Suc n), k1)"
    using writable_wrote [OF k ne] w lt by (auto simp: unf split: nat.splits)
  have le: "Suc n \<le> length (ob_pending b)" using sys_write_wrote [OF n] by simp
  have "output_buffer_write_to (b\<lparr>write_from_offset := write_from_offset b + of_nat (Suc n)\<rparr>) k1 = Inr (WRITE_BUSY, b', k')"
    using w lt n by (simp add: unf)
  from write_to_shrinks [OF ob_advance(1) [OF wf le] this] ob_advance(2) [OF wf le] le show ?thesis by simp
qed

section \<open>The worker's turn\<close>

text \<open>Connection \<open>p\<close> has \<open>D\<close> sent or in the buffer, and is kept alive after it if \<open>keep\<close>.\<close>

definition writes :: "pointer \<Rightarrow> byte list \<Rightarrow> bool \<Rightarrow> config \<Rightarrow> bool" where
  "writes p D keep c \<longleftrightarrow> (\<exists>rc cp k. sv_contexts (cf_server c) p = Some rc \<and> writing (cf_server c) p rc cp \<and>
     sv_fds (cf_server c) (rc_fd rc) = Some k \<and> sent k @ ob_pending (rc_output_buffer rc) = D \<and> keep = (context_keep_alive rc = Inr 1))"

definition unwritten :: "pointer \<Rightarrow> config \<Rightarrow> nat" where
  "unwritten p c = (case sv_contexts (cf_server c) p of Some rc \<Rightarrow> length (ob_pending (rc_output_buffer rc)) | None \<Rightarrow> 0)"

text \<open>The step in which the last bytes are taken: the socket has got all of \<open>D\<close>, and the connection is read from again or closed.\<close>

definition delivered :: "pointer \<Rightarrow> byte list \<Rightarrow> bool \<Rightarrow> config \<Rightarrow> config \<Rightarrow> bool" where
  "delivered p D keep c c' \<longleftrightarrow> (\<exists>rc k ob k'. sv_contexts (cf_server c) p = Some rc \<and> sv_fds (cf_server c) (rc_fd rc) = Some k \<and>
     output_buffer_write_to (rc_output_buffer rc) k = Inr (WRITE_FINISH, ob, k') \<and> sent k' = D \<and>
     (if keep then phases c' p = Some Reading \<and> sv_fds (cf_server c') (rc_fd rc) = Some k' else phases c' p = None))"

text \<open>The step in which the connection is given up: its socket reported an error, or the write failed.\<close>

definition broken :: "pointer \<Rightarrow> config \<Rightarrow> config \<Rightarrow> bool" where
  "broken p c c' \<longleftrightarrow> (\<exists>rc cp k w events es. sv_contexts (cf_server c) p = Some rc \<and> writing (cf_server c) p rc cp \<and>
     sv_fds (cf_server c) (rc_fd rc) = Some k \<and> cf_batch c w = (cp, events) # es \<and>
     (has_error events \<or> (\<exists>ob k'. output_buffer_write_to (rc_output_buffer rc) k = Inr (WRITE_ERROR, ob, k'))) \<and> phases c' p = None)"

text \<open>The worker handles an event of the connection: an error, or room in a socket that takes bytes.\<close>

inductive writer_turn :: "pointer \<Rightarrow> config \<Rightarrow> config \<Rightarrow> bool" for p where
  "\<lbrakk>sv_contexts (cf_server c) p = Some rc; writing (cf_server c) p rc cp; sv_fds (cf_server c) (rc_fd rc) = Some k;
     cf_batch c w = (cp, events) # es; has_error events \<or> has events EPOLLOUT \<and> writable k;
     fresh (cf_server c) fr; accepts_ok (cf_server c) accs; io_event al clk fr accs w cp events (cf_server c) = Inr s'\<rbrakk> \<Longrightarrow>
   writer_turn p c (c\<lparr>cf_server := s', cf_batch := (cf_batch c)(w := es)\<rparr>)"

lemma client_reset_fds: "client_reset_connection now now' cp r s = Inr s' \<Longrightarrow> sv_fds s' = sv_fds s"
  by (auto simp: client_reset_connection_def mod_input_epoll_event_def epoll_ctl_def res_simps Let_def case_prod_beta split: if_splits)

lemma own_event:
  assumes inv: "config_inv c" and rc: "sv_contexts (cf_server c) p = Some rc" "writing (cf_server c) p rc cp"
    and batch: "cf_batch c w = (cp, events) # es"
  shows "w = rc_epoll_info rc" "registered (cf_pending c) (cf_server c) p rc cp (writer p w)"
    "io_event al clk fr accs w cp events (cf_server c) =
       (if has_error events then client_close_connection (clk 0) cp REQUEST_EPOLL_ERROR (cf_server c)
        else if has events EPOLLOUT then client_handle_write clk cp (cf_server c) else Inr (cf_server c))"
proof -
  have c: "server_inv (cf_pending c) (cf_server c)" "server_core (cf_server c)" "reported (cf_server c) w (cp, events)"
    using inv batch by (auto simp: config_inv_def server_inv_def)
  then obtain fd ev where e: "sv_epolls (cf_server c) w fd = Some (ev, cp)" "reports ev events" by (auto simp: reported_def)
  have r: "registration (cf_server c) rc = Some (OUTPUT_EVENTS, cp)" "sv_sockets (cf_server c) cp = Some (writer p (rc_epoll_info rc))"
    using rc(2) by (simp_all add: writing_def)
  have w: "w = rc_epoll_info rc \<and> fd = rc_fd rc" using core_entry_inject [OF c(2) e(1) r(1)] .
  then show "w = rc_epoll_info rc" by simp
  show "registered (cf_pending c) (cf_server c) p rc cp (writer p w)"
    using c(1) rc r(2) w by (simp add: registered_def writer_def)
  have "\<not> has events EPOLLIN" using e r(1) w by (auto simp: reports_def)
  then show "io_event al clk fr accs w cp events (cf_server c) =
       (if has_error events then client_close_connection (clk 0) cp REQUEST_EPOLL_ERROR (cf_server c)
        else if has events EPOLLOUT then client_handle_write clk cp (cf_server c) else Inr (cf_server c))"
    using r(2) by (simp add: io_event_def get_socket_def has_error_def client_handle_error_def writer_def)
qed

text \<open>The outcomes of an event of the connection.\<close>

definition nearer :: "bool \<Rightarrow> pointer \<Rightarrow> byte list \<Rightarrow> bool \<Rightarrow> config \<Rightarrow> config \<Rightarrow> bool" where
  "nearer turn p D keep c c' \<longleftrightarrow> delivered p D keep c c' \<or> broken p c c' \<or>
     writes p D keep c' \<and> unwritten p c' \<le> unwritten p c \<and> (turn \<longrightarrow> unwritten p c' < unwritten p c)"

lemma write_handler_outcome:
  assumes reg: "registered (cf_pending c) (cf_server c) p rc cp sc" and wr: "writing (cf_server c) p rc cp"
    and k: "sv_fds (cf_server c) (rc_fd rc) = Some k" and D: "D = sent k @ ob_pending (rc_output_buffer rc)"
    and keep: "keep = (context_keep_alive rc = Inr 1)" and batch: "cf_batch c w = (cp, events) # es"
    and r: "client_handle_write clk cp (cf_server c) = Inr s'" and c': "cf_server c' = s'"
  shows "nearer (writable k) p D keep c c'"
  using reg wr k
proof (cases rule: client_handle_write_eq [of "cf_pending c" "cf_server c" p rc cp sc k clk])
  case (1 st ob k1 ts' alive' rc' s1)
  have rc: "sv_contexts (cf_server c) p = Some rc" "ob_wf (rc_output_buffer rc)"
    using registeredD(3,9) [OF reg] by (simp_all add: rc_wf_def)
  note w = output_buffer_write_toD [OF rc(2) 1(1)]
  have al: "keep = (alive' = 1)" "keep = (context_keep_alive rc' = Inr 1)"
    using 1(5,7) keep by (simp_all add: context_keep_alive_def)
  have fd: "rc_fd rc' = rc_fd rc" "sv_contexts s1 p = Some rc'" "sv_fds s1 (rc_fd rc) = Some k1" "rc_output_buffer rc' = ob"
    using 1(5,6) by simp_all
  have close: "phase_of s' p = None" if "client_close_connection now cp res s1 = Inr s'" for now res
    using client_close_ok [OF 1(8), of now res] that by (simp add: handler_ok_def)
  show ?thesis
  proof (cases st)
    case WRITE_BUSY
    then have "cf_server c' = s1" using r c' 1(11) by simp
    then have "writes p D keep c'" "unwritten p c' = length (ob_pending ob)"
      unfolding writes_def unwritten_def using fd 1(9) w(2) al(2) D by auto
    moreover have "unwritten p c = length (ob_pending (rc_output_buffer rc))" using rc(1) by (simp add: unwritten_def)
    ultimately show ?thesis
      using write_to_shrinks [OF rc(2) 1(1)] write_to_progress [OF rc(2) _ 1(1) [unfolded WRITE_BUSY]] by (simp add: nearer_def)
  next
    case WRITE_ERROR
    then have "phase_of s' p = None" using r 1(11) close by simp
    then have "broken p c c'" unfolding broken_def phases_def c'
      using rc(1) wr k batch 1(1) WRITE_ERROR by blast
    then show ?thesis by (simp add: nearer_def)
  next
    case WRITE_FINISH
    then have sent: "sent k1 = D" using w(2,5) D by simp
    have "if keep then phase_of s' p = Some Reading \<and> sv_fds s' (rc_fd rc) = Some k1 else phase_of s' p = None"
      using r 1(11) WRITE_FINISH close client_reset_ok [OF 1(8), of "clk 2" "clk 3" REQUEST_SUCCESS] client_reset_fds fd(3)
      unfolding al(1) by (fastforce simp: handler_ok_def split: if_splits)
    then have "delivered p D keep c c'" unfolding delivered_def phases_def c'
      using rc(1) k 1(1) sent WRITE_FINISH by blast
    then show ?thesis by (simp add: nearer_def)
  qed
qed

lemma own_event_outcome:
  assumes inv: "config_inv c" and rc: "sv_contexts (cf_server c) p = Some rc" "writing (cf_server c) p rc cp"
    and k: "sv_fds (cf_server c) (rc_fd rc) = Some k" and D: "D = sent k @ ob_pending (rc_output_buffer rc)"
    and keep: "keep = (context_keep_alive rc = Inr 1)" and batch: "cf_batch c w = (cp, events) # es"
    and r: "io_event al clk fr accs w cp events (cf_server c) = Inr s'" and c': "cf_server c' = s'"
  shows "nearer (has_error events \<or> has events EPOLLOUT \<and> writable k) p D keep c c'"
proof -
  note own = own_event [OF inv rc batch]
  consider (err) "has_error events" "client_close_connection (clk 0) cp REQUEST_EPOLL_ERROR (cf_server c) = Inr s'"
    | (out) "\<not> has_error events" "has events EPOLLOUT" "client_handle_write clk cp (cf_server c) = Inr s'"
    | (none) "\<not> has_error events" "\<not> has events EPOLLOUT" "s' = cf_server c"
    using r unfolding own(3) by (auto split: if_splits)
  then show ?thesis
  proof cases
    case err
    have "phase_of s' p = None" using client_close_ok [OF own(2), of "clk 0" REQUEST_EPOLL_ERROR] err(2) by (simp add: handler_ok_def)
    then have "broken p c c'" unfolding broken_def phases_def c' using rc k batch err(1) by blast
    then show ?thesis by (simp add: nearer_def)
  next
    case out
    from write_handler_outcome [OF own(2) rc(2) k D keep batch out(3) c'] out(1,2) show ?thesis by simp
  next
    case none
    then have "writes p D keep c'" "unwritten p c' = unwritten p c"
      unfolding writes_def unwritten_def c' using rc k D keep by blast+
    then show ?thesis using none(1,2) by (simp add: nearer_def)
  qed
qed

section \<open>The steps of the others\<close>

lemma writes_frame:
  assumes inv: "config_inv c'" and rc: "sv_contexts (cf_server c) p = Some rc" "writing (cf_server c) p rc cp"
    and k: "sv_fds (cf_server c) (rc_fd rc) = Some k" and D: "D = sent k @ ob_pending (rc_output_buffer rc)"
    and keep: "keep = (context_keep_alive rc = Inr 1)"
    and same: "sv_contexts (cf_server c') p = Some rc"
      "sv_epolls (cf_server c') (rc_epoll_info rc) (rc_fd rc) = sv_epolls (cf_server c) (rc_epoll_info rc) (rc_fd rc)"
      "sv_fds (cf_server c') (rc_fd rc) = Some k'" "sent k' = sent k"
  shows "nearer False p D keep c c'"
proof -
  have reg: "registration (cf_server c') rc = Some (OUTPUT_EVENTS, cp)" using rc(2) same(2) by (simp add: writing_def)
  have "context_ok (cf_server c') p rc" using inv core_context same(1) by (auto simp: config_inv_def server_inv_def)
  then have "(\<exists>cp'. writing (cf_server c') p rc cp' \<or> reading (cf_server c') p rc cp') \<or> waiting_ok (cf_server c') rc"
    unfolding context_ok_def by blast
  then have "writing (cf_server c') p rc cp"
    unfolding reading_def waiting_ok_def writing_def reg by auto
  then have "writes p D keep c'" unfolding writes_def using same(1,3,4) D keep by auto
  moreover have "unwritten p c' = unwritten p c" using rc(1) same(1) by (simp add: unwritten_def)
  ultimately show ?thesis by (simp add: nearer_def)
qed

lemma nearer_weaken: "nearer t p D keep c c' \<Longrightarrow> nearer False p D keep c c'"
  by (auto simp: nearer_def)

lemma step_nearer:
  assumes inv: "config_inv c" and step: "server_step c c'" and wr: "writes p D keep c"
  shows "nearer False p D keep c c'"
proof -
  obtain rc cp k where rc: "sv_contexts (cf_server c) p = Some rc" "writing (cf_server c) p rc cp"
      "sv_fds (cf_server c) (rc_fd rc) = Some k" "D = sent k @ ob_pending (rc_output_buffer rc)" "keep = (context_keep_alive rc = Inr 1)"
    using wr by (auto simp: writes_def)
  have reg: "registration (cf_server c) rc = Some (OUTPUT_EVENTS, cp)" using rc(2) by (simp add: writing_def)
  from inv step rc(1) show ?thesis
  proof (cases rule: step_cases)
    case (own_event ev w cp' events es fr accs al clk s')
    then have "cp' = cp" using reg by simp
    from nearer_weaken [OF own_event_outcome [OF inv rc own_event(2) [unfolded this] own_event(5) [unfolded this]]] own_event(6)
    show ?thesis by simp
  next
    case (own_turn a w)
    then show ?thesis using line_waiting [OF inv own_turn(2,3)] rc(1) reg by (simp add: waiting_def)
  next
    case other
    then obtain k' where "sv_contexts (cf_server c') p = Some rc" "sv_fds (cf_server c') (rc_fd rc) = Some k'" "sent k' = sent k"
        "registration (cf_server c') rc = registration (cf_server c) rc"
      using rc(3) reg by (auto simp: untouched_def)
    then show ?thesis using writes_frame [OF server_step_inv [OF inv step] rc] by blast
  qed
qed

lemma own_turn_nearer:
  assumes inv: "config_inv c" and turn: "writer_turn p c c'" and wr: "writes p D keep c"
  shows "nearer True p D keep c c'"
  using turn
proof (cases rule: writer_turn.cases)
  case (1 rc cp k w events es fr accs al clk s')
  have "D = sent k @ ob_pending (rc_output_buffer rc)" "keep = (context_keep_alive rc = Inr 1)"
    using wr 1(2,4) by (auto simp: writes_def)
  from own_event_outcome [OF inv 1(2-4) this 1(5) 1(9)] 1(1,6) show ?thesis by simp
qed

interpretation wrt: progress started server_step config_inv "writes p D keep" "writer_turn p" "unwritten p"
  "\<lambda>c c'. delivered p D keep c c' \<or> broken p c c'" for p D keep
  by unfold_locales (auto dest: step_nearer own_turn_nearer simp: nearer_def)

section \<open>Properties\<close>

text \<open>A connection that is written to for ever gets a turn of its worker at a socket that takes bytes or has failed.\<close>

definition writer_fair :: "pointer \<Rightarrow> (nat \<Rightarrow> config) \<Rightarrow> bool" where
  "writer_fair p run \<longleftrightarrow> (\<forall>i. (\<forall>j\<ge>i. phases (run j) p = Some Writing) \<longrightarrow> (\<exists>j\<ge>i. writer_turn p (run j) (run (Suc j))))"

lemma writes_phase: "writes p D keep c \<Longrightarrow> phases c p = Some Writing"
  by (auto simp: writes_def phases_def phase_writing)

lemma writes_delivered:
  assumes run: "is_run run" and fair: "writer_fair p run" and wr: "writes p D keep (run i)"
  shows "\<exists>j\<ge>i. delivered p D keep (run j) (run (Suc j)) \<or> broken p (run j) (run (Suc j))"
proof -
  have "\<exists>j\<ge>i. writer_turn p (run j) (run (Suc j))" if "\<And>j. i \<le> j \<Longrightarrow> writes p D keep (run j)" for i
    using that writes_phase fair unfolding writer_fair_def by blast
  then show ?thesis using wrt.goal_reached [of run] run wr unfolding is_run_def by blast
qed

text \<open>
  Property C6: an answer is delivered. In every run of the server in which a connection that
  is written to for ever is eventually served by its IO worker when its socket takes bytes or
  has failed, a connection that is registered for writing later has all of its answer taken
  by the socket, in order, each byte once, behind what the socket had taken before; it is
  then read from again if the request asked to be kept alive and closed otherwise. Or it is
  closed because its socket reported an error or a write failed, and for no other reason.
\<close>

theorem answer_is_delivered:
  assumes "is_run run" and "writer_fair p run"
    and "sv_contexts (cf_server (run i)) p = Some rc" and "writing (cf_server (run i)) p rc cp"
    and "sv_fds (cf_server (run i)) (rc_fd rc) = Some k"
  shows "\<exists>j\<ge>i. delivered p (sent k @ ob_pending (rc_output_buffer rc)) (context_keep_alive rc = Inr 1) (run j) (run (Suc j)) \<or>
     broken p (run j) (run (Suc j))"
proof -
  have "writes p (sent k @ ob_pending (rc_output_buffer rc)) (context_keep_alive rc = Inr 1) (run i)"
    unfolding writes_def using assms(3-5) by blast
  from writes_delivered [OF assms(1,2) this] show ?thesis .
qed

section \<open>A run\<close>

lemma write_to_finishes:
  assumes wf: "ob_wf b" and b: "ob_pending b \<noteq> []" "length (ob_pending b) \<le> Suc n" and k: "tx k = [Tx_Accept n]"
  shows "\<exists>ob k'. output_buffer_write_to b k = Inr (WRITE_FINISH, ob, k')"
proof -
  let ?n = "length (ob_pending b)" and ?k = "k\<lparr>tx := [], sent := sent k @ ob_pending b\<rparr>"
  let ?b = "b\<lparr>write_from_offset := write_from_offset b + of_nat ?n\<rparr>"
  note adv = ob_advance [OF wf order_refl]
  have "\<not> write_from_offset ?b < write_into_offset ?b" using ob_pending_Nil [OF adv(1)] adv(2) by simp
  then have "output_buffer_write_to ?b ?k = Inr (WRITE_FINISH, ?b, ?k)" by (simp add: output_buffer_write_to.simps [of ?b])
  moreover have "sys_write (ob_pending b) k = (Wrote ?n, ?k)" using b k by (simp add: sys_write.simps min_def)
  moreover have "write_from_offset b < write_into_offset b" using b(1) wf by (simp add: ob_pending_Nil)
  moreover obtain m where "?n = Suc m" using b(1) by (cases ?n) auto
  ultimately show ?thesis by (simp add: output_buffer_write_to.simps [of b] ob_load_pending [OF wf])
qed

text \<open>The write handler on a socket that takes the whole answer, of a connection that is not kept.\<close>

lemma write_event_ex:
  assumes inv: "config_inv c" and rc: "sv_contexts (cf_server c) p = Some rc" "writing (cf_server c) p rc cp"
    and k: "sv_fds (cf_server c) (rc_fd rc) = Some k" "tx k = [Tx_Accept n]"
    and ob: "ob_pending (rc_output_buffer rc) \<noteq> []" "length (ob_pending (rc_output_buffer rc)) \<le> Suc n"
    and alive: "context_keep_alive rc \<noteq> Inr 1" and batch: "cf_batch c w = (cp, EPOLLOUT) # es"
  shows "(\<exists>s'. io_event al clk fr accs w cp EPOLLOUT (cf_server c) = Inr s' \<and> phase_of s' p = None \<and>
     sv_queues s' = sv_queues (cf_server c)) \<and> (\<forall>c'. \<not> broken p c c')"
proof -
  note own = own_event [OF inv rc batch]
  have "ob_wf (rc_output_buffer rc)" using registeredD(9) [OF own(2)] by (simp add: rc_wf_def)
  from write_to_finishes [OF this ob k(2)] obtain ob1 k1 where
    w: "output_buffer_write_to (rc_output_buffer rc) k = Inr (WRITE_FINISH, ob1, k1)" by blast
  have ev: "\<not> has_error EPOLLOUT" "has EPOLLOUT EPOLLOUT" by (simp_all add: has_error_def has_def epoll_flags)
  have "\<not> broken p c c'" for c'
  proof
    assume "broken p c c'"
    then obtain cp' w' events es' where b: "writing (cf_server c) p rc cp'" "cf_batch c w' = (cp', events) # es'"
        "has_error events \<or> (\<exists>ob k'. output_buffer_write_to (rc_output_buffer rc) k = Inr (WRITE_ERROR, ob, k'))"
      unfolding broken_def using rc(1) k(1) by force
    moreover have "w' = w" using own_event(1) [OF inv rc(1) b(1,2)] own(1) by simp
    ultimately show False using batch w ev(1) by auto
  qed
  moreover
  from own(2) rc(2) k(1) have "\<exists>s'. io_event al clk fr accs w cp EPOLLOUT (cf_server c) = Inr s' \<and> phase_of s' p = None \<and>
      sv_queues s' = sv_queues (cf_server c)"
  proof (cases rule: client_handle_write_eq [of "cf_pending c" "cf_server c" p rc cp "writer p w" k clk])
    case (1 st ob' k1' ts' alive' rc' s1)
    have "st = WRITE_FINISH" "alive' \<noteq> 1" using 1(1,7) w alive by auto
    then have "client_handle_write clk cp (cf_server c) = client_close_connection (clk 2) cp REQUEST_SUCCESS s1" using 1(11) by simp
    moreover obtain s' where "client_close_connection (clk 2) cp REQUEST_SUCCESS s1 = Inr s'" "sv_contexts s' p = None"
        "sv_queues s' = sv_queues s1"
      using client_close_eq [OF 1(8), of "clk 2" REQUEST_SUCCESS] by (metis fun_upd_same)
    ultimately show ?thesis using own(3) ev 1(6) by (simp add: phase_gone)
  qed
  ultimately show ?thesis by blast
qed

text \<open>From a connection with an answer to write: its socket takes bytes, \<^verbatim>\<open>epoll_wait\<close> reports it, the worker writes.\<close>

lemma deliver_ex:
  assumes c: "reachable c" and rc: "sv_contexts (cf_server c) p = Some rc" "writing (cf_server c) p rc cp"
    and k: "sv_fds (cf_server c) (rc_fd rc) = Some k"
    and ob: "ob_pending (rc_output_buffer rc) \<noteq> []" "length (ob_pending (rc_output_buffer rc)) \<le> Suc n"
    and alive: "context_keep_alive rc \<noteq> Inr 1" and batch: "cf_batch c (rc_epoll_info rc) = []"
  shows "\<exists>c1 c2 c3. server_step c c1 \<and> server_step c1 c2 \<and> server_step c2 c3 \<and> phases c1 p = Some Writing \<and>
     phases c2 p = Some Writing \<and> phases c3 p = None \<and> (\<forall>c'. \<not> broken p c2 c') \<and>
     (\<forall>c'\<in>{c1, c2, c3}. \<forall>a w. line a w c' = line a w c)"
proof -
  let ?w = "rc_epoll_info rc" and ?k = "k\<lparr>tx := [Tx_Accept n]\<rparr>"
  let ?s = "(cf_server c)\<lparr>sv_fds := (sv_fds (cf_server c))(rc_fd rc \<mapsto> ?k)\<rparr>"
  define c1 where "c1 = c\<lparr>cf_server := ?s\<rparr>"
  define c2 where "c2 = c1\<lparr>cf_batch := (cf_batch c1)(?w := [(cp, EPOLLOUT)])\<rparr>"
  have s1: "server_step c c1" unfolding c1_def
    using k by (intro server_step.network) (auto split: if_splits)
  have wr: "writing ?s p rc cp" using rc(2) by (simp add: writing_def)
  then have "reported ?s ?w (cp, EPOLLOUT)"
    unfolding reported_def by (intro exI [of _ "rc_fd rc"] exI [of _ OUTPUT_EVENTS]) (simp add: writing_def reports_def, simp add: has_def epoll_flags)
  then have s2: "server_step c1 c2" unfolding c2_def using batch
    by (intro server_step.epoll_wait) (simp_all add: c1_def MAX_EVENTS_def)
  have srv: "cf_server c2 = ?s" "cf_batch c2 ?w = (cp, EPOLLOUT) # []" by (simp_all add: c2_def c1_def)
  have "config_inv c2" using server_step_inv [OF server_step_inv [OF reachable_config_inv [OF c] s1] s2] .
  then obtain s' where s': "io_event al_ex (\<lambda>_. \<lparr>tv_sec = 1, tv_nsec = 2\<rparr>) [] [] ?w cp EPOLLOUT ?s = Inr s'" "phase_of s' p = None"
      "sv_queues s' = sv_queues ?s"
    and nb: "\<forall>c'. \<not> broken p c2 c'"
    using write_event_ex [of c2 p rc cp ?k n ?w "[]"] srv wr rc(1) ob alive by fastforce
  let ?c3 = "c2\<lparr>cf_server := s', cf_batch := (cf_batch c2)(?w := [])\<rparr>"
  have "server_step c2 ?c3"
    using server_step.io [OF srv(2), of "[]" "[]" al_ex "\<lambda>_. \<lparr>tv_sec = 1, tv_nsec = 2\<rparr>" s'] s'(1) by (simp add: srv(1) fresh_def accepts_ok_def)
  moreover have "phases c1 p = Some Writing" "phases c2 p = Some Writing"
    using phase_writing [OF _ wr] rc(1) srv(1) by (simp_all add: phases_def c1_def)
  ultimately show ?thesis using s1 s2 s'(2,3) nb srv(1)
    by (intro exI [of _ c1] exI [of _ c2] exI [of _ ?c3]) (simp add: phases_def c1_def)
qed

text \<open>The request of the example has been answered and waits to be written.\<close>

lemma answered_ex:
  assumes "waits_ex c rc"
  obtains c1 c2 rc' cp k where "actor_turn 0 0 c c1" "actor_turn 0 0 c1 c2" "line 0 0 c2 = []" "reachable c2"
    "sv_contexts (cf_server c2) 32 = Some rc'" "writing (cf_server c2) 32 rc' cp"
    "sv_fds (cf_server c2) (rc_fd rc') = Some k" "cf_batch c2 (rc_epoll_info rc') = []" "context_keep_alive rc' \<noteq> Inr 1"
    "ob_pending (rc_output_buffer rc') =
       response_text 200 [(ascii ''Content-Length'', ascii ''2''), (ascii ''Connection'', ascii ''close'')] (ascii ''/a'')"
proof -
  have c: "reachable c" "queue_ids (cf_server c) = {(0, 0)}" "cf_pending c 0 0 = 0" "line 0 0 c = [32]" "fresh (cf_server c) [64]"
      "sv_contexts (cf_server c) 32 = Some rc" "\<forall>w. sv_epolls (cf_server c) w (rc_fd rc) = None"
      "bytes_at (ib_buffer (rc_input_buffer rc)) (req_path (rc_http_request rc)) (req_path_len (rc_http_request rc)) = [47, 97]"
      "context_keep_alive rc \<noteq> Inr 1" "ob_free (rc_output_buffer rc) = unat BUF_SIZE" "ob_pending (rc_output_buffer rc) = []" "cf_batch c 0 = []"
    using assms unfolding waits_ex_def by blast+
  obtain c1 c2 where t: "actor_turn 0 0 c c1" "actor_turn 0 0 c1 c2" "answered 0 rc 32 (cf_server c2)" "cf_batch c2 = cf_batch c" "line 0 0 c2 = []"
    using turns_ex [OF c(1-6,8-10)] by blast
  let ?t = "response_text 200 [(ascii ''Content-Length'', dec (int (length [47, 97 :: byte]))), (ascii ''Connection'', ascii ''close'')] [47, 97]"
  have room: "length ?t = 59" "?t = response_text 200 [(ascii ''Content-Length'', ascii ''2''), (ascii ''Connection'', ascii ''close'')] (ascii ''/a'')"
    by code_simp+
  have steps: "server_step c c1" "server_step c1 c2" using t(1,2) by (blast intro: server_step.actor)+
  have inv: "config_inv c" "config_inv c2"
    using reachable_config_inv [OF c(1)] server_step_inv steps by blast+
  have r2: "reachable c2" using c(1) steps reachable_step by blast
  have "context_ok (cf_server c) 32 rc" "registration (cf_server c) rc = None"
    using core_context inv(1) c(6,7) by (simp_all add: config_inv_def server_inv_def)
  then have "rc_wf rc" "rc_parsed rc" by (auto simp: context_ok_def waiting_ok_def reading_def writing_def)
  from answered_pending [OF this t(3) c(8) [symmetric]] obtain rc' cp where
    rc': "sv_contexts (cf_server c2) 32 = Some rc'" "writing (cf_server c2) 32 rc' cp" "ob_pending (rc_output_buffer rc') = ?t"
    using c(9-11) room(1) by (auto simp: BUF_SIZE_def)
  have ka: "context_keep_alive rc' \<noteq> Inr 1" using t(3) c(9) rc'(1) by (auto simp: answered_def)
  have ok: "context_ok (cf_server c2) 32 rc'" using core_context inv(2) rc'(1) by (simp add: config_inv_def server_inv_def)
  then obtain k where k: "sv_fds (cf_server c2) (rc_fd rc') = Some k" by (auto simp: context_ok_def)
  have ids: "queue_ids (cf_server c2) = {(0, 0)}" "0 < sv_actor_count (cf_server c2)"
    using step_queue_ids [OF inv(1) steps(1)] step_queue_ids [OF server_step_inv [OF inv(1) steps(1)] steps(2)] c(2) inv(2)
    by (simp_all add: config_inv_def server_inv_def)
  have "(0, rc_epoll_info rc') \<in> queue_ids (cf_server c2)" using ids(2) ok by (simp add: queue_ids_def context_ok_def)
  then have "cf_batch c2 (rc_epoll_info rc') = []" using ids(1) t(4) c(12) by simp
  with r2 rc' k ka room(2) t(1,2,5) show thesis by (intro that) simp_all
qed

theorem answer_is_delivered_witness:
  "\<exists>run i j front. is_run run \<and> writer_fair 32 run \<and> i \<le> j \<and> phases (run i) 32 = Some Writing \<and>
     delivered 32 (front @ response_text 200 [(ascii ''Content-Length'', ascii ''2''), (ascii ''Connection'', ascii ''close'')] (ascii ''/a''))
       False (run j) (run (Suc j))"
proof -
  let ?t = "response_text 200 [(ascii ''Content-Length'', ascii ''2''), (ascii ''Connection'', ascii ''close'')] (ascii ''/a'')"
  have room: "length ?t = 59" by code_simp
  obtain c rc cp k where c: "reachable c" "sv_contexts (cf_server c) 32 = Some rc" "writing (cf_server c) 32 rc cp"
      "sv_fds (cf_server c) (rc_fd rc) = Some k" "cf_batch c (rc_epoll_info rc) = []" "context_keep_alive rc \<noteq> Inr 1"
      "ob_pending (rc_output_buffer rc) = ?t"
    using arrived_ex answered_ex by metis
  have t: "ob_pending (rc_output_buffer rc) \<noteq> []" "length (ob_pending (rc_output_buffer rc)) \<le> Suc 99" using room c(7) by auto
  obtain c1 c2 c3 where s: "server_step c c1" "server_step c1 c2" "server_step c2 c3" "phases c1 32 = Some Writing"
      "phases c2 32 = Some Writing" "phases c3 32 = None" "\<forall>c'. \<not> broken 32 c2 c'"
    using deliver_ex [OF c(1-4) t c(6,5)] by blast
  define f where "f i = (if i = 0 then c else if i = 1 then c1 else if i = 2 then c2 else c3)" for i :: nat
  have "server_step (f i) (f (Suc i))" for i using s(1-3) stutter [of c3] by (auto simp: f_def)
  then obtain run n where r: "is_run run" "\<And>j. run (n + j) = f j" using run_extends [of c f] c(1) by (auto simp: f_def)
  have fair: "writer_fair 32 run" unfolding writer_fair_def
  proof (intro allI impI)
    fix i
    assume "\<forall>j\<ge>i. phases (run j) 32 = Some Writing"
    then have "phases (run (n + (i + 3))) 32 = Some Writing" by simp
    then show "\<exists>j\<ge>i. writer_turn 32 (run j) (run (Suc j))" using s(6) unfolding r(2) by (simp add: f_def)
  qed
  have n: "run n = c" using r(2) [of 0] by (simp add: f_def)
  obtain j where j: "n \<le> j" "delivered 32 (sent k @ ?t) False (run j) (run (Suc j)) \<or> broken 32 (run j) (run (Suc j))"
    using answer_is_delivered [OF r(1) fair, of n rc cp k] c(2-4,6,7) n by auto
  have "\<not> broken 32 (run j) (run (Suc j))"
  proof
    assume b: "broken 32 (run j) (run (Suc j))"
    then have "phases (run (Suc j)) 32 = None" "phases (run j) 32 = Some Writing"
      by (auto simp: broken_def phases_def phase_writing)
    moreover have "run j = f (j - n)" "run (Suc j) = f (Suc j - n)" using r(2) [of "j - n"] r(2) [of "Suc j - n"] j(1) by simp_all
    ultimately have "run j = c2" using s(4-6) j(1) by (auto simp: f_def Suc_diff_le split: if_splits)
    then show False using b s(7) by simp
  qed
  with j(2) have "delivered 32 (sent k @ ?t) False (run j) (run (Suc j))" by blast
  moreover have "phases (run n) 32 = Some Writing" using n phase_writing [OF c(2,3)] by (simp add: phases_def)
  ultimately show ?thesis using r(1) fair j(1) by blast
qed

end
