(* ===== verification/Request_Served.thy ===== *)
theory Request_Served
  imports Server_Delivery
begin

text \<open>
  The whole way of a request through the running server: from the bytes a client has sent,
  over the read handler of the IO worker, the queue, the actor and the write handler, to the
  bytes the client receives, while the other threads and the other clients do what they like.
\<close>

lemma read_turn_hands_over:
  assumes inv: "config_inv c" and rc: "sv_contexts (cf_server c) p = Some rc" "reading (cf_server c) p rc cp" "rc_idle rc"
    and k: "sv_fds (cf_server c) (rc_fd rc) = Some k" and req: "request_arrives (rc_http_request rc) k m path v hs"
    and t: "input_turn cp c c'"
  shows "\<exists>rc'. sv_contexts (cf_server c') p = Some rc' \<and> (\<forall>w. sv_epolls (cf_server c') w (rc_fd rc') = None) \<and>
     has_sent rc' (sent k) c' \<and> rc_output_buffer rc' = rc_output_buffer rc \<and>
     bytes_at (ib_buffer (rc_input_buffer rc')) (req_path (rc_http_request rc')) (req_path_len (rc_http_request rc')) = path \<and>
     (context_keep_alive rc' = Inr 1 \<longleftrightarrow> (ascii ''Connection'', ascii ''Keep-Alive'') \<in> set hs)"
proof -
  obtain al clk where r: "client_handle_read al clk cp (cf_server c) = Inr (cf_server c')"
    and reg: "registered (cf_pending c) (cf_server c) p rc cp (reader p (rc_epoll_info rc))"
    using reading_event [OF inv rc(1,2) t] by blast
  from client_handle_read_hands_over [OF reg rc(2) k rc(3) req r] show ?thesis unfolding has_sent_def by blast
qed

text \<open>From the queue to the client.\<close>

lemma waiting_delivered:
  assumes run: "is_run run" and fair: "\<forall>(a, w)\<in>queue_ids (cf_server (run 0)). actor_fair a w run" "writer_fair p run"
    and rc: "sv_contexts (cf_server (run i)) p = Some rc" "\<forall>w. sv_epolls (cf_server (run i)) w (rc_fd rc) = None" "has_sent rc bs (run i)"
    and path: "path = bytes_at (ib_buffer (rc_input_buffer rc)) (req_path (rc_http_request rc)) (req_path_len (rc_http_request rc))"
      "0 \<notin> set path" "length path < 10 ^ 9"
    and t: "t = response_text 200
       [(ascii ''Content-Length'', dec (int (length path))),
        (ascii ''Connection'', if context_keep_alive rc = Inr 1 then ascii ''keep-alive'' else ascii ''close'')] path"
      "length t < ob_free (rc_output_buffer rc)"
  shows "\<exists>j>i. delivered p (bs @ t) (context_keep_alive rc = Inr 1) (run j) (run (Suc j)) \<or>
     broken p (run j) (run (Suc j))"
proof -
  obtain a j where j: "rc_wf rc" "rc_parsed rc" "i < j" "answered a rc p (cf_server (run j))" "has_sent rc bs (run j)" "drained rc"
    using waiting_served [OF run fair(1) rc] by blast
  from answered_pending [OF j(1,2,4) path t] obtain rc' cp where
    w: "sv_contexts (cf_server (run j)) p = Some rc'" "writing (cf_server (run j)) p rc' cp" "same_connection rc rc'"
      "context_keep_alive rc' = context_keep_alive rc" "ob_pending (rc_output_buffer rc') = t"
    using j(6) by auto
  have "writes p (bs @ t) (context_keep_alive rc = Inr 1) (run j)"
    unfolding writes_def using w j(5) by (auto simp: has_sent_def same_connection_def)
  from writes_delivered [OF run fair(2) this] j(3) show ?thesis by (meson less_le_trans)
qed

section \<open>Properties\<close>


section \<open>A run\<close>

text \<open>
  The example: the read event of the connection, two turns of the actor, room in the socket,
  its report, the write, and then nothing more.
\<close>

lemma served_run_ex:
  obtains run n rc where "is_run run" "\<forall>(a, w)\<in>queue_ids (cf_server (run 0)). actor_fair a w run" "writer_fair 32 run"
    "sv_contexts (cf_server (run n)) 32 = Some rc" "reading (cf_server (run n)) 32 rc 48" "rc_idle rc"
    "sv_fds (cf_server (run n)) (rc_fd rc) = Some sock_req_ex" "req_num_headers (rc_http_request rc) = NUM_HEADERS"
    "ob_free (rc_output_buffer rc) = unat BUF_SIZE" "ob_pending (rc_output_buffer rc) = []" "input_turn 48 (run n) (run (Suc n))"
    "\<forall>j\<ge>n. \<not> broken 32 (run j) (run (Suc j))"
proof -
  obtain c0 rc0 c rc where c0: "reachable c0" "sv_contexts (cf_server c0) 32 = Some rc0" "reading (cf_server c0) 32 rc0 48"
      "sv_fds (cf_server c0) (rc_fd rc0) = Some sock_req_ex" "rc_idle rc0" "req_num_headers (rc_http_request rc0) = NUM_HEADERS"
      "ob_free (rc_output_buffer rc0) = unat BUF_SIZE" "ob_pending (rc_output_buffer rc0) = []" "input_turn 48 c0 c" "waits_ex c rc"
    using arrived_ex .
  obtain c1 c2 rc' cp k where t: "actor_turn 0 0 c c1" "actor_turn 0 0 c1 c2" "line 0 0 c2 = []"
    and c2: "reachable c2" "sv_contexts (cf_server c2) 32 = Some rc'" "writing (cf_server c2) 32 rc' cp"
      "sv_fds (cf_server c2) (rc_fd rc') = Some k" "cf_batch c2 (rc_epoll_info rc') = []" "context_keep_alive rc' \<noteq> Inr 1"
    and pending: "ob_pending (rc_output_buffer rc') =
       response_text 200 [(ascii ''Content-Length'', ascii ''2''), (ascii ''Connection'', ascii ''close'')] (ascii ''/a'')"
    using answered_ex [OF c0(10)] .
  have "length (ob_pending (rc_output_buffer rc')) = 59" unfolding pending by code_simp
  then have ob: "ob_pending (rc_output_buffer rc') \<noteq> []" "length (ob_pending (rc_output_buffer rc')) \<le> Suc 99" by auto
  obtain d1 d2 d3 where d: "server_step c2 d1" "server_step d1 d2" "server_step d2 d3" "phases d1 32 = Some Writing"
      "phases d2 32 = Some Writing" "phases d3 32 = None" "\<forall>c'. \<not> broken 32 d2 c'" "\<forall>c'\<in>{d1, d2, d3}. \<forall>a w. line a w c' = line a w c2"
    using deliver_ex [OF c2(1-4) ob c2(6,5)] by blast
  have ph: "phases c0 32 = Some Reading" "phases c 32 = Some Waiting" "phases c2 32 = Some Writing"
    using c0(10) phase_reading [OF c0(2,3)] phase_writing [OF c2(2,3)] by (simp_all add: phases_def waits_ex_def phase_waiting)
  define f where "f i = [c0, c, c1, c2, d1, d2, d3] ! min i 6" for i :: nat
  have f: "f 0 = c0" "f 1 = c" "f 2 = c1" "f 3 = c2" "f 4 = d1" "f 5 = d2" "\<And>i. 6 \<le> i \<Longrightarrow> f i = d3" by (simp_all add: f_def)
  have cases: "i = 0 \<or> i = 1 \<or> i = 2 \<or> i = 3 \<or> i = 4 \<or> i = 5 \<or> 6 \<le> i" for i :: nat by linarith
  note steps = input_turn_step [OF c0(9)] server_step.actor [OF t(1)] server_step.actor [OF t(2)] d(1-3) stutter [of d3]
  have "server_step (f i) (f (Suc i))" for i using cases [of i] steps by (auto simp: f_def)
  then obtain run n where r: "is_run run" "\<And>j. run (n + j) = f j" using run_extends [OF c0(1), of f] f(1) by blast
  have at: "run j = f (j - n)" if "n \<le> j" for j using r(2) [of "j - n"] that by simp
  have run: "run n = c0" "run (Suc n) = c" using r(2) [of 0] r(2) [of 1] f(1,2) by simp_all
  have lines: "line 0 0 (f i) = []" if "3 \<le> i" for i
  proof -
    have "f i \<in> {c2, d1, d2, d3}" using cases [of i] that by (auto simp: f_def)
    then show ?thesis using t(3) d(8) by (metis insertE singletonD)
  qed
  have "queue_ids (cf_server (run 0)) = {(0, 0)}" using run_queue_ids [OF r(1), of "Suc n"] run(2) c0(10) by (simp add: waits_ex_def)
  moreover have "actor_fair 0 0 run" unfolding actor_fair_def
  proof (intro allI impI)
    fix i
    assume "line 0 0 (run i) \<noteq> []"
    moreover have "line 0 0 (run i) = []" if "n + 3 \<le> i" using at [of i] lines [of "i - n"] that by simp
    ultimately have "i \<le> n + 2" by linarith
    then show "\<exists>j\<ge>i. actor_turn 0 0 (run j) (run (Suc j))"
      using t(2) r(2) [of 2] r(2) [of 3] f(3,4) by (intro exI [of _ "n + 2"]) (simp add: numeral_3_eq_3)
  qed
  moreover have "writer_fair 32 run" unfolding writer_fair_def
  proof (intro allI impI)
    fix i
    assume "\<forall>j\<ge>i. phases (run j) 32 = Some Writing"
    then have "phases (run (n + (i + 6))) 32 = Some Writing" by simp
    then show "\<exists>j\<ge>i. writer_turn 32 (run j) (run (Suc j))" using d(6) f(7) [of "i + 6"] unfolding r(2) by simp
  qed
  moreover have "\<not> broken 32 (run j) (run (Suc j))" if "n \<le> j" for j
  proof
    assume b: "broken 32 (run j) (run (Suc j))"
    then have p: "phases (f (Suc j - n)) 32 = None" "phases (f (j - n)) 32 = Some Writing"
      using at [of j] at [of "Suc j"] that by (auto simp: broken_def phases_def phase_writing)
    have "j - n = 5" using p cases [of "j - n"] that ph d(4-6) by (auto simp: f_def Suc_diff_le)
    then show False using b d(7) at [of j] that f(6) by simp
  qed
  ultimately show thesis using that [of run n rc0] r(1) run c0 by simp
qed


end
