(* ===== verification/Queue_Benchmark.thy ===== *)
theory Queue_Benchmark
  imports Mrmw_Queue Request_Context State_Machine
begin

text \<open>
  src/queue_test.c: one thread sends a hundred messages through a queue of ten slots, another
  receives them. The file passes an argument too few to \<^verbatim>\<open>init_request_context\<close> and to
  \<^verbatim>\<open>epoll_info_init\<close>; in the model the missing argument of the first is some value, and the set-up of
  the event loop is the guard of the step that waits. The two threads are steps of one
  machine: an attempt of the sender to push, a read of the event counter, a pop.
\<close>

section \<open>The threads\<close>

definition MESSAGE_COUNT :: nat where
  "MESSAGE_COUNT = 100"

text \<open>\<open>bm_sent\<close> and \<open>bm_count\<close> are the loop variables, \<open>bm_to_read\<close> the pops that are left, \<open>bm_received\<close> the log.\<close>

record bench =
  bm_queue :: MrmwQueue
  bm_contexts :: "pointer \<rightharpoonup> RequestContext"
  bm_sent :: nat
  bm_count :: nat
  bm_to_read :: nat
  bm_received :: "int list"

text \<open>The body of the inner loop of \<^verbatim>\<open>send_messages\<close>; the new context is at \<open>p\<close>.\<close>

definition send_messages :: "allocator \<Rightarrow> nat \<Rightarrow> pointer \<Rightarrow> bench \<Rightarrow> bench res" where
  "send_messages al w p b =
     bind_res (init_request_context al (int (bm_sent b)) ''hostname'' w) (\<lambda>request_context.
       let b = b\<lparr>bm_contexts := (bm_contexts b)(p \<mapsto> request_context)\<rparr>
       in bind_res (mrmw_queue_push (bm_queue b) p) (\<lambda>(result, q).
            if result = QUEUE_FAILURE then bind_res (mrmw_queue_size q) (\<lambda>(_, q). Inr (b\<lparr>bm_queue := q\<rparr>))
            else Inr (b\<lparr>bm_queue := q, bm_sent := bm_sent b + 1\<rparr>)))"

text \<open>The loop of \<^verbatim>\<open>recv_messages\<close>: the read of the counter after \<^verbatim>\<open>epoll_wait\<close>, and one turn of the inner loop.\<close>

definition recv_event :: "bench \<Rightarrow> bench res" where
  "recv_event b =
     (let (num_to_read, q) = mrmw_queue_event_read (bm_queue b)
      in bind_res (CHECK (num_to_read = None) ''Failed to read event file descriptor'') (\<lambda>_.
           let n = unat (the num_to_read)
           in Inr (b\<lparr>bm_queue := q, bm_count := bm_count b + n, bm_to_read := n\<rparr>)))"

definition recv_message :: "bench \<Rightarrow> bench res" where
  "recv_message b =
     bind_res (mrmw_queue_pop (bm_queue b)) (\<lambda>(p, q).
     bind_res (CHECK (p = NULL) ''Did not successfully read message'') (\<lambda>_.
       case bm_contexts b p of
         None \<Rightarrow> Inl Dangling
       | Some request_context \<Rightarrow>
           Inr (b\<lparr>bm_queue := q, bm_to_read := bm_to_read b - 1, bm_received := bm_received b @ [rc_fd request_context]\<rparr>)))"

text \<open>\<^verbatim>\<open>main\<close>: the queue and the threads, with what \<^verbatim>\<open>pthread_create\<close> and \<^verbatim>\<open>pthread_setname_np\<close> return.\<close>

definition bench_main :: "allocator \<Rightarrow> (nat \<Rightarrow> int) \<Rightarrow> bench res" where
  "bench_main al r =
     bind_res (mrmw_queue_init al 10) (\<lambda>queue.
     bind_res (CHECK (r 0 \<noteq> 0) ''Failed to create pthread'') (\<lambda>_.
     bind_res (CHECK (r 1 \<noteq> 0) ''Failed to set name'') (\<lambda>_.
     bind_res (CHECK (r 2 \<noteq> 0) ''Failed to create pthread'') (\<lambda>_.
     bind_res (CHECK (r 3 \<noteq> 0) ''Failed to set name'') (\<lambda>_.
       Inr \<lparr>bm_queue = queue, bm_contexts = \<lambda>_. None, bm_sent = 0, bm_count = 0, bm_to_read = 0, bm_received = []\<rparr>)))))"

definition bench_started :: "bench \<Rightarrow> bool" where
  "bench_started b \<longleftrightarrow> (\<exists>al r. bench_main al r = Inr b)"

inductive bench_step :: "bench \<Rightarrow> bench \<Rightarrow> bool" where
  send: "\<lbrakk>bm_sent b < MESSAGE_COUNT; p \<noteq> NULL; bm_contexts b p = None; send_messages al w p b = Inr b'\<rbrakk> \<Longrightarrow> bench_step b b'"
| event: "\<lbrakk>bm_to_read b = 0; bm_count b < MESSAGE_COUNT; mq_notified (bm_queue b) \<noteq> 0; recv_event b = Inr b'\<rbrakk> \<Longrightarrow> bench_step b b'"
| receive: "\<lbrakk>0 < bm_to_read b; recv_message b = Inr b'\<rbrakk> \<Longrightarrow> bench_step b b'"

section \<open>The invariant\<close>

definition bench_inv :: "bench \<Rightarrow> bool" where
  "bench_inv b \<longleftrightarrow> mq_inv (bm_queue b) \<and> mq_capacity (bm_queue b) = 10 \<and>
     mq_notified (bm_queue b) + bm_to_read b = length (mq_items (bm_queue b)) \<and>
     bm_count b = length (bm_received b) + bm_to_read b \<and> bm_sent b = length (bm_received b) + length (mq_items (bm_queue b)) \<and>
     bm_received b = map int [0..<length (bm_received b)] \<and> bm_sent b \<le> MESSAGE_COUNT \<and>
     (\<forall>i<length (mq_items (bm_queue b)). mq_items (bm_queue b) ! i \<noteq> NULL \<and>
        (\<exists>rc. bm_contexts b (mq_items (bm_queue b) ! i) = Some rc \<and> rc_fd rc = int (length (bm_received b) + i)))"

lemma send_outcome:
  assumes inv: "bench_inv b" and b: "bm_sent b < MESSAGE_COUNT" "p \<noteq> NULL" "bm_contexts b p = None"
  obtains (oom) "send_messages al w p b = Inl OOM"
    | (full) b' where "send_messages al w p b = Inr b'" "bench_inv b'" "length (mq_items (bm_queue b)) = 10"
        "bm_queue b' = bm_queue b" "bm_sent b' = bm_sent b" "bm_to_read b' = bm_to_read b" "bm_count b' = bm_count b"
    | (sent) b' where "send_messages al w p b = Inr b'" "bench_inv b'" "length (mq_items (bm_queue b)) < 10" "bm_sent b' = Suc (bm_sent b)"
        "bm_count b' = bm_count b" "mq_notified (bm_queue b') = Suc (mq_notified (bm_queue b))"
        "length (mq_items (bm_queue b')) = Suc (length (mq_items (bm_queue b)))"
proof (cases "init_request_context al (int (bm_sent b)) ''hostname'' w")
  case (Inl e)
  then have "e = OOM" by (auto simp: init_request_context_def input_buffer_init_def output_buffer_init_def res_simps)
  then show thesis using oom Inl by (simp add: send_messages_def)
next
  case (Inr rc)
  let ?q = "bm_queue b" and ?b = "b\<lparr>bm_contexts := (bm_contexts b)(p \<mapsto> rc)\<rparr>"
  have q: "mq_inv ?q" "mq_capacity ?q = 10" "mq_notified ?q + bm_to_read b = length (mq_items ?q)" using inv by (simp_all add: bench_inv_def)
  have fd: "rc_fd rc = int (bm_sent b)" using init_request_context_wf [OF Inr] by simp
  have ctx: "mq_items ?q ! i \<noteq> NULL \<and> (\<exists>rc'. (if mq_items ?q ! i = p then Some rc else bm_contexts b (mq_items ?q ! i)) = Some rc' \<and>
      rc_fd rc' = int (length (bm_received b) + i))" if "i < length (mq_items ?q)" for i
    using inv that b(3) by (auto simp: bench_inv_def)
  show thesis
  proof (cases "length (mq_items ?q) < 10")
    case True
    have "mq_notified ?q < unat EVENTFD_MAX" using True q(3) by (simp add: EVENTFD_MAX_def)
    then obtain q' where q': "mrmw_queue_push ?q p = Inr (QUEUE_SUCCESS, q')" "mq_inv q'" "mq_items q' = mq_items ?q @ [p]"
        "mq_capacity q' = mq_capacity ?q" "mq_notified q' = Suc (mq_notified ?q)"
      using mq_push_room [OF q(1), of p] True q(2) by auto
    let ?b' = "?b\<lparr>bm_queue := q', bm_sent := bm_sent b + 1\<rparr>"
    have "send_messages al w p b = Inr ?b'" using Inr q'(1) by (simp add: send_messages_def)
    moreover have "bench_inv ?b'"
      using inv b q q' fd ctx by (auto simp: bench_inv_def nth_append less_Suc_eq)
    ultimately show thesis using sent [of ?b'] True q' by simp
  next
    case False
    then have len: "length (mq_items ?q) = mq_capacity ?q" using mq.bounded [OF q(1)] q(2) by simp
    then have "mrmw_queue_push ?q p = Inr (QUEUE_FAILURE, ?q)" using mq_push_full q(1) by blast
    moreover have "mrmw_queue_size ?q = Inr (mq_current_size ?q, ?q)" using q(1) by (simp add: mrmw_queue_size_def mq_inv_def)
    ultimately have "send_messages al w p b = Inr ?b" using Inr by (simp add: send_messages_def)
    moreover have "bench_inv ?b" using inv ctx by (simp add: bench_inv_def)
    ultimately show thesis using full [of ?b] len q(2) by simp
  qed
qed

lemma event_outcome:
  assumes inv: "bench_inv b" and b: "bm_to_read b = 0" "mq_notified (bm_queue b) \<noteq> 0"
  obtains b' where "recv_event b = Inr b'" "bench_inv b'" "bm_sent b' = bm_sent b" "mq_items (bm_queue b') = mq_items (bm_queue b)"
    "mq_notified (bm_queue b') = 0"
proof -
  have q: "mq_inv (bm_queue b)" using inv by (simp add: bench_inv_def)
  obtain q' where r: "mrmw_queue_event_read (bm_queue b) = (if mq_notified (bm_queue b) = 0 then None else Some (mq_add_event (bm_queue b)), q')"
    and q': "mq_inv q'" "mq_items q' = mq_items (bm_queue b)" "mq_capacity q' = mq_capacity (bm_queue b)" "mq_notified q' = 0"
    by (rule mq_event_read [OF q])
  let ?n = "mq_notified (bm_queue b)"
  let ?b = "b\<lparr>bm_queue := q', bm_count := bm_count b + ?n, bm_to_read := ?n\<rparr>"
  have "recv_event b = Inr ?b" using r b(2) by (simp add: recv_event_def Let_def) (simp add: mq_notified_def)
  moreover have "bench_inv ?b" using inv b(1) q' by (simp add: bench_inv_def)
  ultimately show thesis using that [of ?b] q' by simp
qed

lemma receive_outcome:
  assumes inv: "bench_inv b" and b: "0 < bm_to_read b"
  obtains b' where "recv_message b = Inr b'" "bench_inv b'" "bm_sent b' = bm_sent b" "mq_notified (bm_queue b') = mq_notified (bm_queue b)"
    "Suc (length (mq_items (bm_queue b'))) = length (mq_items (bm_queue b))"
proof -
  have q: "mq_inv (bm_queue b)" "mq_items (bm_queue b) \<noteq> []" using inv b by (auto simp: bench_inv_def)
  then obtain p xs where it: "mq_items (bm_queue b) = p # xs" by (cases "mq_items (bm_queue b)") auto
  obtain q' where q': "mrmw_queue_pop (bm_queue b) = Inr (p, q')" "mq_inv q'" "mq_items q' = xs" "mq_capacity q' = mq_capacity (bm_queue b)"
      "mq_notified q' = mq_notified (bm_queue b)"
    using mq_pop_item [OF q(1) it] by blast
  have ctx: "(p # xs) ! i \<noteq> NULL \<and> (\<exists>rc. bm_contexts b ((p # xs) ! i) = Some rc \<and> rc_fd rc = int (length (bm_received b) + i))"
    if "i < Suc (length xs)" for i using inv that by (simp add: bench_inv_def it)
  from ctx [of 0] obtain rc where rc: "p \<noteq> NULL" "bm_contexts b p = Some rc" "rc_fd rc = int (length (bm_received b))" by auto
  let ?b = "b\<lparr>bm_queue := q', bm_to_read := bm_to_read b - 1, bm_received := bm_received b @ [rc_fd rc]\<rparr>"
  have "recv_message b = Inr ?b" using q'(1) rc(1,2) by (simp add: recv_message_def)
  moreover have "xs ! i \<noteq> NULL \<and> (\<exists>rc. bm_contexts b (xs ! i) = Some rc \<and> rc_fd rc = int (Suc (length (bm_received b)) + i))"
    if "i < length xs" for i using ctx [of "Suc i"] that by simp
  then have "bench_inv ?b" using inv b q' it rc(3) by (auto simp: bench_inv_def)
  ultimately show thesis using that [of ?b] q' it by simp
qed

interpretation bm: invariant_system bench_started bench_step bench_inv
proof unfold_locales
  show "bench_inv b" if "bench_started b" for b
    using that by (auto simp: bench_started_def bench_main_def res_simps bench_inv_def dest!: mrmw_queue_init_inv)
  show "bench_inv b'" if "bench_inv b" "bench_step b b'" for b b'
    using that(2)
  proof cases
    case (send p al w)
    from that(1) send(1-3) show ?thesis by (cases rule: send_outcome [of b p al w]) (use send(4) in auto)
  next
    case event
    from that(1) event(1,3) show ?thesis by (cases rule: event_outcome [of b]) (use event(4) in auto)
  next
    case receive
    from that(1) receive(1) show ?thesis by (cases rule: receive_outcome [of b]) (use receive(2) in auto)
  qed
qed

section \<open>Progress\<close>

definition bench_finished :: "bench \<Rightarrow> bool" where
  "bench_finished b \<longleftrightarrow> bm_sent b = MESSAGE_COUNT \<and> bm_count b = MESSAGE_COUNT \<and> bm_to_read b = 0"

text \<open>A thread sleeps, or does something; it moves if it changes the queue, which a refused push does not.\<close>

definition bench_tick :: "bench \<Rightarrow> bench \<Rightarrow> bool" where
  "bench_tick b b' \<longleftrightarrow> bench_step b b' \<or> b' = b"

definition bench_moves :: "bench \<Rightarrow> bench \<Rightarrow> bool" where
  "bench_moves b b' \<longleftrightarrow> bench_step b b' \<and> bm_queue b' \<noteq> bm_queue b"

definition bench_left :: "bench \<Rightarrow> nat" where
  "bench_left b = 3 * (MESSAGE_COUNT - bm_sent b) + length (mq_items (bm_queue b)) + mq_notified (bm_queue b)"

lemma bench_step_left:
  assumes inv: "bench_inv b" and step: "bench_step b b'"
  shows "bench_left b' \<le> bench_left b \<and> (bm_queue b' \<noteq> bm_queue b \<longrightarrow> bench_left b' < bench_left b)"
  using step
proof cases
  case (send p al w)
  from inv send(1-3) show ?thesis by (cases rule: send_outcome [of b p al w]) (use send in \<open>auto simp: bench_left_def\<close>)
next
  case event
  from inv event(1,3) show ?thesis by (cases rule: event_outcome [of b]) (use event in \<open>auto simp: bench_left_def\<close>)
next
  case receive
  from inv receive(1) show ?thesis by (cases rule: receive_outcome [of b]) (use receive in \<open>auto simp: bench_left_def\<close>)
qed

interpretation bmp: progress bench_started bench_tick bench_inv "\<lambda>b. \<not> bench_finished b" bench_moves bench_left "\<lambda>_. bench_finished"
  by unfold_locales (use bm.start_inv bm.step_inv bench_step_left in \<open>auto simp: bench_tick_def bench_moves_def\<close>)

lemma finished_received: "\<lbrakk>bench_inv b; bench_finished b\<rbrakk> \<Longrightarrow> bm_received b = map int [0..<MESSAGE_COUNT] \<and> mq_items (bm_queue b) = []"
  by (auto simp: bench_inv_def bench_finished_def)

text \<open>Until the end a thread can move, if the sender gets memory.\<close>

lemma bench_not_stuck:
  assumes inv: "bench_inv b" and busy: "\<not> bench_finished b" and p: "p \<noteq> NULL" "bm_contexts b p = None"
    and mem: "init_request_context al (int (bm_sent b)) ''hostname'' w = Inr rc"
  shows "\<exists>b'. bench_moves b b' \<and> (bm_contexts b' = bm_contexts b \<and> bm_sent b' = bm_sent b \<or> dom (bm_contexts b') = insert p (dom (bm_contexts b)) \<and> bm_sent b' = Suc (bm_sent b))"
proof -
  have i: "mq_notified (bm_queue b) + bm_to_read b = length (mq_items (bm_queue b))" "bm_count b = length (bm_received b) + bm_to_read b"
      "bm_sent b = length (bm_received b) + length (mq_items (bm_queue b))" "bm_sent b \<le> MESSAGE_COUNT"
    using inv by (simp_all add: bench_inv_def)
  consider (rcv) "0 < bm_to_read b" | (ev) "bm_to_read b = 0" "mq_notified (bm_queue b) \<noteq> 0" "bm_count b < MESSAGE_COUNT"
    | (snd) "bm_to_read b = 0" "mq_notified (bm_queue b) = 0" "bm_sent b < MESSAGE_COUNT"
    using i busy by (auto simp: bench_finished_def) linarith
  then show ?thesis
  proof cases
    case rcv
    obtain b' where b': "recv_message b = Inr b'" "bm_sent b' = bm_sent b" "Suc (length (mq_items (bm_queue b'))) = length (mq_items (bm_queue b))"
      by (rule receive_outcome [OF inv rcv])
    moreover have "bm_contexts b' = bm_contexts b" using b'(1) by (auto simp: recv_message_def res_simps split: option.splits)
    ultimately show ?thesis using bench_step.receive [OF rcv b'(1)] unfolding bench_moves_def by (metis n_not_Suc_n)
  next
    case ev
    obtain b' where b': "recv_event b = Inr b'" "bm_sent b' = bm_sent b" "mq_notified (bm_queue b') = 0"
      by (rule event_outcome [OF inv ev(1,2)])
    moreover have "bm_contexts b' = bm_contexts b" using b'(1) by (auto simp: recv_event_def res_simps Let_def split: prod.splits)
    ultimately show ?thesis using bench_step.event [OF ev(1,3,2) b'(1)] ev(2) unfolding bench_moves_def by metis
  next
    case snd
    have "mq_items (bm_queue b) = []" using i(1) snd by simp
    from inv snd(3) p show ?thesis
    proof (cases rule: send_outcome [of b p al w])
      case oom
      then show ?thesis using mem \<open>mq_items (bm_queue b) = []\<close> mq_push_room [of "bm_queue b" p] inv
        by (auto simp: send_messages_def bench_inv_def EVENTFD_MAX_def snd(2))
    next
      case (full b')
      then show ?thesis using \<open>mq_items (bm_queue b) = []\<close> by simp
    next
      case (sent b')
      have "dom (bm_contexts b') = insert p (dom (bm_contexts b))"
        using sent(1,4) mem by (auto simp: send_messages_def res_simps Let_def split: if_splits prod.splits)
      moreover have "bm_queue b' \<noteq> bm_queue b" using sent(6) by auto
      ultimately show ?thesis using bench_step.send [OF snd(3) p sent(1)] sent(4) unfolding bench_moves_def by blast
    qed
  qed
qed

section \<open>Properties\<close>


text \<open>A run in which a thread moves as long as one can; the contexts are at the addresses 1, 2, ...\<close>

lemma bench_next_ex:
  assumes inv: "bench_inv b" "dom (bm_contexts b) \<subseteq> of_nat ` {1..bm_sent b}" and busy: "\<not> bench_finished b"
  shows "\<exists>b'. bench_moves b b' \<and> dom (bm_contexts b') \<subseteq> of_nat ` {1..bm_sent b'}"
proof -
  let ?p = "of_nat (Suc (bm_sent b)) :: pointer"
  have le: "bm_sent b \<le> 100" using inv(1) by (simp add: bench_inv_def MESSAGE_COUNT_def)
  have ne: "?p \<noteq> of_nat i" if "i \<le> bm_sent b" for i
  proof
    assume "?p = of_nat i"
    then have "unat ?p = unat (of_nat i :: pointer)" by (rule arg_cong)
    then show False using that le by (simp add: unat_of_nat_size del: of_nat_Suc)
  qed
  have "?p \<noteq> NULL" using ne [of 0] by simp
  moreover have "?p \<notin> of_nat ` {1..bm_sent b}" using ne by (metis atLeastAtMost_iff imageE)
  then have "bm_contexts b ?p = None" using inv(2) by blast
  moreover have m: "malloc (\<lambda>_. Some (\<lambda>_. 0)) n \<noteq> None" if "n \<le> PTRDIFF_MAX" for n using that by (simp add: malloc_def)
  have "\<exists>rc. init_request_context (\<lambda>_. Some (\<lambda>_. 0)) (int (bm_sent b)) ''hostname'' 0 = Inr rc"
    using m [of SIZEOF_RequestContext] m [of SIZEOF_InputBuffer] m [of SIZEOF_OutputBuffer] m [of BUF_SIZE]
    by (auto simp: init_request_context_def input_buffer_init_def output_buffer_init_def CHECK_MEM_def
        SIZEOF_RequestContext_def SIZEOF_InputBuffer_def SIZEOF_OutputBuffer_def PTRDIFF_MAX_def BUF_SIZE_def simp del: malloc_eq_Some)
  then obtain rc where "init_request_context (\<lambda>_. Some (\<lambda>_. 0)) (int (bm_sent b)) ''hostname'' 0 = Inr rc" ..
  ultimately obtain b' where "bench_moves b b'" "bm_contexts b' = bm_contexts b \<and> bm_sent b' = bm_sent b \<or>
      dom (bm_contexts b') = insert ?p (dom (bm_contexts b)) \<and> bm_sent b' = Suc (bm_sent b)"
    using bench_not_stuck [OF inv(1) busy] by blast
  then show ?thesis using inv(2) by (intro exI [of _ b']) (force simp: atLeastAtMostSuc_conv simp del: of_nat_Suc)
qed


end
