(* ===== verification/Unit_Tests.thy ===== *)
theory Unit_Tests
  imports Input_Buffer Output_Buffer Mrmw_Queue Srsw_Queue Http_Response
begin

text \<open>
  The unit tests of the repository (tests/check_input_buffer.c, tests/check_output_buffer.c,
  tests/check_lock_queue.c) run on the model: each is a function that returns whether all its assertions
  hold, and evaluates to true. They rest on fresh memory being zero where they compare a region as a
  string; the tests of the queue hold of the locked queue, and the third of them fails on the lock-free one.
\<close>

definition zeroed :: allocator where
  "zeroed = (\<lambda>_. Some (\<lambda>_. 0))"

text \<open>The end of a socket pair after the other end has written the texts.\<close>

definition incoming :: "string \<Rightarrow> socket" where
  "incoming s = \<lparr>rx = (case ascii s of [] \<Rightarrow> [] | c # cs \<Rightarrow> [Rx_Data c cs]) @ [Rx_Block], tx = [], sent = []\<rparr>"

text \<open>\<^verbatim>\<open>ck_assert_str_eq\<close> and a comparison with \<^verbatim>\<open>strncmp(buf, s, strlen(s))\<close>\<close>

definition str_eq :: "byte list \<Rightarrow> string \<Rightarrow> bool" where
  "str_eq mem s \<longleftrightarrow> 0 \<in> set mem \<and> takeWhile (\<lambda>b. b \<noteq> 0) mem = ascii s"

definition starts :: "byte list \<Rightarrow> string \<Rightarrow> bool" where
  "starts mem s \<longleftrightarrow> take (length (ascii s)) mem = ascii s"

section \<open>Input buffer\<close>

definition input_buffer_read :: "bool res" where
  "input_buffer_read =
     bind_res (input_buffer_init zeroed 1024) (\<lambda>buffer.
     bind_res (input_buffer_read_into zeroed buffer (incoming ''testing 1 2 3'')) (\<lambda>(state, buffer, _).
       Inr (state = READ_BUSY \<and> str_eq (ib_buffer buffer) ''testing 1 2 3'' \<and> ib_offset buffer = 13)))"

definition input_buffer_mult_reads :: "bool res" where
  "input_buffer_mult_reads =
     bind_res (input_buffer_init zeroed 1024) (\<lambda>buffer.
     bind_res (input_buffer_read_into zeroed buffer (incoming ''testing-1'')) (\<lambda>(_, buffer1, _).
     bind_res (input_buffer_read_into zeroed buffer1 (incoming ''testing-2'')) (\<lambda>(_, buffer2, _).
       Inr (str_eq (ib_buffer buffer1) ''testing-1'' \<and> str_eq (ib_buffer buffer2) ''testing-1testing-2''))))"

definition input_buffer_resize :: "bool res" where
  "input_buffer_resize =
     bind_res (input_buffer_init zeroed 4) (\<lambda>buffer.
     bind_res (input_buffer_read_into zeroed buffer (incoming ''testing-1-2-3-4-5-6-7-8-9-10-11-12-13-14-15'')) (\<lambda>(state, buffer, _).
       Inr (state = READ_BUSY \<and> starts (ib_buffer buffer) ''testing-1-2-3-4-5-6-7-8-9-10-11-12-13-14-15'' \<and>
            ib_offset buffer = 43 \<and> ib_length buffer = 64 \<and> ib_resize_count buffer = 4)))"

definition input_buffer_reuse :: "bool res" where
  "input_buffer_reuse =
     bind_res (input_buffer_init zeroed 1024) (\<lambda>buffer.
     bind_res (input_buffer_read_into zeroed buffer (incoming ''testing'')) (\<lambda>(_, buffer1, _).
       let buffer2 = input_buffer_reset buffer1
       in bind_res (input_buffer_read_into zeroed buffer2 (incoming ''1-2-3'')) (\<lambda>(_, buffer3, _).
            Inr (starts (ib_buffer buffer1) ''testing'' \<and> ib_offset buffer1 = 7 \<and> ib_offset buffer2 = 0 \<and>
                 starts (ib_buffer buffer3) ''1-2-3'' \<and> ib_offset buffer3 = 5))))"

lemma input_buffer_read_passes: "input_buffer_read = Inr True"
  by code_simp

lemma input_buffer_mult_reads_passes: "input_buffer_mult_reads = Inr True"
  by code_simp

lemma input_buffer_resize_passes: "input_buffer_resize = Inr True"
  by code_simp

lemma input_buffer_reuse_passes: "input_buffer_reuse = Inr True"
  by code_simp

lemmas input_buffer_tests = input_buffer_read_passes input_buffer_mult_reads_passes input_buffer_resize_passes input_buffer_reuse_passes

section \<open>Output buffer\<close>

definition output_buffer_write_to_buffer :: "bool res" where
  "output_buffer_write_to_buffer =
     bind_res (output_buffer_init zeroed 1024) (\<lambda>buffer.
     bind_res (output_buffer_append zeroed buffer (ascii ''testing'')) (\<lambda>buffer1.
     bind_res (output_buffer_append zeroed buffer1 (ascii '' testing'')) (\<lambda>buffer2.
       Inr (str_eq (ob_buffer buffer1) ''testing'' \<and> str_eq (ob_buffer buffer2) ''testing testing'' \<and>
            write_into_offset buffer2 = 15))))"

definition output_buffer_write_to_vargs :: "bool res" where
  "output_buffer_write_to_vargs =
     bind_res (output_buffer_init zeroed 1024) (\<lambda>buffer.
     bind_res (output_buffer_append zeroed buffer (ascii ''testing '' @ format_d 1 @ [32] @ format_d 2 @ [32] @ format_d 3)) (\<lambda>buffer.
       Inr (str_eq (ob_buffer buffer) ''testing 1 2 3'')))"

definition output_buffer_resize :: "bool res" where
  "output_buffer_resize =
     bind_res (output_buffer_init zeroed 2) (\<lambda>buffer.
     bind_res (output_buffer_append zeroed buffer (ascii ''testing'')) (\<lambda>buffer1.
     bind_res (output_buffer_append zeroed buffer1 (ascii '' happy happy'')) (\<lambda>buffer2.
     bind_res (output_buffer_append zeroed buffer2 (ascii '' this is a test of the emergency broadcast message'')) (\<lambda>buffer3.
       Inr (str_eq (ob_buffer buffer1) ''testing'' \<and> ob_resize_count buffer1 = 1 \<and>
            str_eq (ob_buffer buffer2) ''testing happy happy'' \<and>
            str_eq (ob_buffer buffer3) ''testing happy happy this is a test of the emergency broadcast message'' \<and>
            ob_resize_count buffer3 = 3)))))"

definition output_buffer_resize_vargs :: "bool res" where
  "output_buffer_resize_vargs =
     bind_res (output_buffer_init zeroed 2) (\<lambda>buffer.
     bind_res (output_buffer_append zeroed buffer (ascii ''testing '' @ format_d 5)) (\<lambda>buffer.
       Inr (str_eq (ob_buffer buffer) ''testing 5'' \<and> ob_resize_count buffer = 1)))"

definition output_buffer_reuse :: "bool res" where
  "output_buffer_reuse =
     bind_res (output_buffer_init zeroed 102) (\<lambda>buffer.
     bind_res (output_buffer_append zeroed buffer (ascii ''testing 1 2 3 4 5 6 7 8'')) (\<lambda>buffer.
       let buffer1 = output_buffer_reset buffer
       in bind_res (output_buffer_append zeroed buffer1 (ascii ''fake fake'')) (\<lambda>buffer2.
            Inr (write_into_offset buffer1 = 0 \<and> starts (ob_buffer buffer2) ''fake fake''))))"

text \<open>The socket takes whatever is written; \<open>sent\<close> is what the other end reads.\<close>

definition output_buffer_write :: "bool res" where
  "output_buffer_write =
     (let k = \<lparr>rx = [], tx = [Tx_Accept 1024, Tx_Accept 1024, Tx_Accept 1024], sent = []\<rparr>
      in bind_res (output_buffer_init zeroed 1024) (\<lambda>buffer.
         bind_res (output_buffer_append zeroed buffer (ascii ''writing to socket'')) (\<lambda>buffer.
         bind_res (output_buffer_write_to buffer k) (\<lambda>(state1, buffer1, k).
         bind_res (output_buffer_append zeroed buffer1 (ascii '' 1 2 3'')) (\<lambda>buffer.
         bind_res (output_buffer_write_to buffer k) (\<lambda>(state2, buffer, k).
         bind_res (output_buffer_write_to buffer k) (\<lambda>(state3, buffer, k1).
         bind_res (output_buffer_append zeroed buffer (ascii ''4 5 6'')) (\<lambda>buffer.
         bind_res (output_buffer_write_to buffer k1) (\<lambda>(state4, buffer, k2).
           Inr (list_all (\<lambda>s. s = WRITE_FINISH) [state1, state2, state3, state4] \<and> write_from_offset buffer1 = 17 \<and>
                sent k1 = ascii ''writing to socket 1 2 3'' \<and> sent k2 = sent k1 @ ascii ''4 5 6''))))))))))"

section \<open>Queue\<close>

definition queue_push_pop :: "bool res" where
  "queue_push_pop =
     bind_res (mrmw_queue_init zeroed 10) (\<lambda>q.
     bind_res (mrmw_queue_push q 5) (\<lambda>(_, q). bind_res (mrmw_queue_push q 6) (\<lambda>(_, q). bind_res (mrmw_queue_push q 7) (\<lambda>(_, q).
     bind_res (mrmw_queue_pop q) (\<lambda>(a, q). bind_res (mrmw_queue_pop q) (\<lambda>(b, q). bind_res (mrmw_queue_pop q) (\<lambda>(c, q).
       Inr ((a, b, c) = (5, 6, 7)))))))))"

definition queue_get_size :: "bool res" where
  "queue_get_size =
     bind_res (mrmw_queue_init zeroed 10) (\<lambda>q.
     bind_res (mrmw_queue_push q 1) (\<lambda>(_, q). bind_res (mrmw_queue_size q) (\<lambda>(a, q).
     bind_res (mrmw_queue_push q 1) (\<lambda>(_, q). bind_res (mrmw_queue_size q) (\<lambda>(b, q).
     bind_res (mrmw_queue_pop q) (\<lambda>(_, q). bind_res (mrmw_queue_size q) (\<lambda>(c, q).
     bind_res (mrmw_queue_pop q) (\<lambda>(_, q). bind_res (mrmw_queue_size q) (\<lambda>(d, q).
       Inr ((a, b, c, d) = (1, 2, 1, 0)))))))))))"

definition queue_too_small :: "bool res" where
  "queue_too_small =
     bind_res (mrmw_queue_init zeroed 1) (\<lambda>q.
     bind_res (mrmw_queue_push q 1) (\<lambda>(r1, q). bind_res (mrmw_queue_push q 2) (\<lambda>(r2, q).
     bind_res (mrmw_queue_pop q) (\<lambda>(a, q). bind_res (mrmw_queue_push q 3) (\<lambda>(r3, q).
     bind_res (mrmw_queue_pop q) (\<lambda>(b, q).
       Inr (r1 = QUEUE_SUCCESS \<and> r2 = QUEUE_FAILURE \<and> a = 1 \<and> r3 = QUEUE_SUCCESS \<and> b = 3)))))))"

definition queue_event_fd :: "bool res" where
  "queue_event_fd =
     bind_res (mrmw_queue_init zeroed 5) (\<lambda>q.
     bind_res (mrmw_queue_push q 1) (\<lambda>(_, q). bind_res (mrmw_queue_push q 2) (\<lambda>(_, q). bind_res (mrmw_queue_push q 3) (\<lambda>(_, q).
       let (val, q) = mrmw_queue_event_read q; (again, q) = mrmw_queue_event_read q
       in Inr (val = Some 3 \<and> again = None)))))"

lemma output_buffer_write_to_buffer_passes: "output_buffer_write_to_buffer = Inr True"
  by code_simp

lemma output_buffer_write_to_vargs_passes: "output_buffer_write_to_vargs = Inr True"
  by code_simp

lemma output_buffer_write_passes: "output_buffer_write = Inr True"
  by code_simp

lemma output_buffer_resize_passes: "output_buffer_resize = Inr True"
  by code_simp

lemma output_buffer_resize_vargs_passes: "output_buffer_resize_vargs = Inr True"
  by code_simp

lemma output_buffer_reuse_passes: "output_buffer_reuse = Inr True"
  by code_simp

lemmas output_buffer_tests = output_buffer_write_to_buffer_passes output_buffer_write_to_vargs_passes output_buffer_write_passes output_buffer_resize_passes output_buffer_resize_vargs_passes output_buffer_reuse_passes

lemma queue_push_pop_passes: "queue_push_pop = Inr True"
  by code_simp

lemma queue_get_size_passes: "queue_get_size = Inr True"
  by code_simp

lemma queue_too_small_passes: "queue_too_small = Inr True"
  by code_simp

lemma queue_event_fd_passes: "queue_event_fd = Inr True"
  by code_simp

lemmas queue_tests = queue_push_pop_passes queue_get_size_passes queue_too_small_passes queue_event_fd_passes

text \<open>The tests are linked with the locked queue; on the lock-free one the first assertion of the third test fails.\<close>

lemma queue_too_small_srsw:
  "bind_res (srsw_queue_init zeroed 1) (\<lambda>q. bind_res (srsw_queue_push q 1) (\<lambda>(r, _). Inr r)) = Inr QUEUE_FAILURE"
  by code_simp

end
