(* ===== verification/Spec2Isabelle.thy ===== *)
theory Spec2Isabelle
  imports Message_Passing Chunked Http_Parser_Sse Log_Lines Lifetimes Command_Line Stats_Report Request_Served Queue_Benchmark Unit_Tests
begin

text \<open>
  The jullop HTTP server.

  The program. jullop (src/*.c) is an HTTP/1.x server for Linux. \<^verbatim>\<open>main.c\<close> starts a statistics thread,
  one actor thread per core and a number of IO workers, each with its own listening socket. An IO worker
  (\<^verbatim>\<open>io_worker.c\<close>) runs an epoll loop: it accepts connections, creates a \<^verbatim>\<open>RequestContext\<close> for each
  (\<^verbatim>\<open>request_context.c\<close>), and calls the handlers of \<^verbatim>\<open>client.c\<close> when a client is readable, writable
  or in error. When the bytes in the input buffer are a request (\<^verbatim>\<open>http_request.c\<close>,
  \<^verbatim>\<open>picohttpparser.c\<close>) the worker takes the connection out of its event loop and pushes the context
  onto the queue of an actor chosen round-robin (\<^verbatim>\<open>mrmw_queue.c\<close>, whose eventfd wakes the actor). The
  actor (\<^verbatim>\<open>actor.c\<close>) pops it, prints the response into the output buffer (\<^verbatim>\<open>http_response.c\<close>,
  \<^verbatim>\<open>output_buffer.c\<close>) and registers the connection with the worker's loop for writing; the worker
  sends the bytes, then resets the connection for the next request or closes it. Stop watches
  (\<^verbatim>\<open>request_stats.c\<close>) time each phase and are added to the shared counters (\<^verbatim>\<open>server_stats.c\<close>).
  \<^verbatim>\<open>message_passing.c\<close> and \<^verbatim>\<open>srsw_queue.c\<close> are two other ways to hand a pointer to another thread.

  Conventions. \<^verbatim>\<open>size_t\<close>, \<^verbatim>\<open>uint64_t\<close> and \<^verbatim>\<open>atomic_long\<close> are 64-bit words that wrap, a byte is an
  8-bit word, pointers handed between threads are 64-bit words, \<^verbatim>\<open>int\<close> results of calls are integers.
  Every operation that can fail returns \<open>fault + 'a\<close>: \<open>OOM\<close> and \<open>Exit_Failure\<close> are the exits of
  \<^verbatim>\<open>CHECK_MEM\<close> and \<^verbatim>\<open>CHECK\<close> (\<^verbatim>\<open>logging.h\<close>), \<open>Out_Of_Bounds\<close> is an access outside an allocation and
  \<open>Dangling\<close> one through a freed pointer or a closed descriptor, so that the absence of undefined
  behaviour is a theorem and not an assumption of the model. What the operating system and the network
  decide is an argument: the allocator and the bytes of fresh memory, the clock, the script of a
  socket (which bytes arrive when, how many bytes a write accepts, errors), the result of \<^verbatim>\<open>accept\<close>, the
  events of \<^verbatim>\<open>epoll_wait\<close>, the interleaving of threads.

  The theories, from the bottom up.

  \<^item> \<open>Prelude\<close>: the machine types, the result type, \<^verbatim>\<open>CHECK\<close>/\<^verbatim>\<open>CHECK_MEM\<close>, region access, shared lemmas.
    \<open>Posix\<close>: malloc, realloc, sockets with read and write, the eventfd.
  \<^item> \<open>Input_Buffer\<close> (\<^verbatim>\<open>input_buffer.[ch]\<close>): a read appends exactly what the socket delivers, and stays
    inside the region. \<open>Output_Buffer\<close> (\<^verbatim>\<open>output_buffer.[ch]\<close>): what is appended is delivered exactly once
    and in order, from the locale \<open>resumable_writer\<close>, the contract of a transfer that is continued
    over many non-blocking writes; formatted text is appended after the contents, but for the case of an exact fit,
    whose last byte is lost.
  \<^item> \<open>Message_Passing\<close> (\<^verbatim>\<open>message_passing.[ch]\<close>): a pointer survives the trip through a socket.
  \<^item> \<open>Queue_Interface\<close> (\<^verbatim>\<open>queue.h\<close>): the locale \<open>bounded_queue\<close>, whose clients see a FIFO list.
    \<open>Mrmw_Queue\<close> (\<^verbatim>\<open>mrmw_queue.c\<close>) and \<open>Srsw_Queue\<close> (\<^verbatim>\<open>srsw_queue.c\<close>) interpret it. For the lock-free
    queue every atomic access is a step of its own, and the FIFO property and the absence of a race on
    a slot hold in every interleaving of one producer and one consumer.
  \<^item> \<open>Request_Stats\<close>, \<open>Server_Stats\<close> (\<^verbatim>\<open>request_stats.[ch]\<close>, \<^verbatim>\<open>server_stats.[ch]\<close>): stop watches as a two
    state machine per phase; counters whose concurrent updates commute.
  \<^item> \<open>Http_Parser\<close> (\<^verbatim>\<open>picohttpparser.[ch]\<close> without its last section), \<open>Http_Parser_Safety\<close>,
    \<open>Http_Parser_Roundtrip\<close>: memory safety on every input, incremental behaviour, the unrolled loops
    against plain ones, and the parse of every printed request and response. \<open>Http_Parser_Sse\<close>: the same parser as
    compiled with SSE 4.2, equal to the plain one; the locale \<open>ranged_scan\<close> says when a search sixteen bytes at a
    time may run in front of a loop. \<open>Chunked\<close>
    (\<^verbatim>\<open>phr_decode_chunked\<close>): the in-place decoder against an automaton on single bytes, its round trip and
    its resumption.
  \<^item> \<open>Http_Request\<close>, \<open>Http_Response\<close>, \<open>Request_Context\<close> (the files of the same names): parsing the
    region of an input buffer, printing a response that the response parser reads back, the state of a
    connection. \<open>Log_Lines\<close> (\<^verbatim>\<open>logging.h\<close>, \<^verbatim>\<open>http_request_print\<close>, \<^verbatim>\<open>context_print_finish\<close>): the bytes of the log
    lines; printing a parsed request stays inside its buffer.
  \<^item> \<open>Lifetimes\<close>: the constructors and destructors of all parts on a heap of blocks and a table of descriptors. The locale
    \<open>resource\<close> is their contract, with seven interpretations; a connection that has grown, been handed to actors and
    been closed has given back exactly what it took.
  \<^item> \<open>Server\<close> (\<^verbatim>\<open>server.h\<close>, \<^verbatim>\<open>epoll_info.[ch]\<close>, \<^verbatim>\<open>client.c\<close>, \<^verbatim>\<open>actor.c\<close>, \<^verbatim>\<open>io_worker.[ch]\<close>): the whole
    state of the process, with explicit maps for request contexts, socket contexts, descriptors and
    epoll registrations, and every handler as a function on it. \<open>Connection\<close>: what the handlers do to one
    context, on every outcome. \<open>Startup\<close> (\<^verbatim>\<open>main.c\<close>, \<^verbatim>\<open>stats_thread.c\<close>, the start of \<^verbatim>\<open>run_actor\<close>): the initial
    state. \<open>Command_Line\<close>: the arguments and the end of \<^verbatim>\<open>main\<close>, which joins a thread that is not there when it is
    asked for no IO worker.
  \<^item> \<open>State_Machine\<close>: the locales \<open>invariant_system\<close> and, extending it, \<open>simulation\<close> and \<open>progress\<close>, which is
    the contract of a liveness proof under weak fairness. \<open>Connection_Protocol\<close>: the phases of
    a connection (read, waiting for an actor, written) and the steps between them, the abstract specification of the server.
    \<open>Server_Invariant\<close>: the ownership invariant \<open>server_inv\<close>, in both directions, so that nothing dangles and nothing
    leaks, with a frame rule for handlers that touch one connection. \<open>Server_Handlers\<close>: every
    handler keeps it and moves at most one connection by one step of the protocol. \<open>Server_Safety\<close>: the threads interleaved as the relation \<open>server_step\<close> and the
    interpretation \<open>srv\<close> of the locale. \<open>Server_Properties\<close>: the theorems on reachable configurations.
    \<open>Server_Refinement\<close>: the interpretation \<open>ref\<close> of \<open>simulation\<close>, the server refines the protocol.
    \<open>Ieee_Double\<close>, \<open>Stats_Report\<close>: rounding to 53 bits, and the figures of the statistics thread, which are true of
    the server.
    \<open>Request_Response\<close>, \<open>Request_Read\<close>: what the read and the read handler make of a request that arrives on an idle
    connection. \<open>Server_Frame\<close>: a step of the server is an event of a given connection, the turn of the actor that finds it at
    the front of its queue, or leaves the connection alone.
    \<open>Server_Liveness\<close>: infinite runs of \<open>server_step\<close>, the fairness of the scheduler towards the actors, and
    the proof that a waiting request is answered in every fair run (the interpretation \<open>act\<close> of \<open>progress\<close>).
    \<open>Server_Delivery\<close>: the fairness of the IO workers and the sockets towards a connection that is written to, and the proof
    that its answer is delivered or the connection fails (the interpretation \<open>wrt\<close>).
    \<open>Request_Served\<close>: all of it together, from the request on the wire to the answer on the wire.

  \<^item> \<open>Unit_Tests\<close> (\<^verbatim>\<open>tests/check_*.c\<close>): the unit tests of the repository, evaluated on the model.
    \<open>Queue_Benchmark\<close> (\<^verbatim>\<open>queue_test.c\<close>): its two threads; every message arrives once and in order, and the benchmark ends.

  Granularity. A step of \<open>server_step\<close> is one event handler of an IO worker, one request of an actor, one
  read of an event counter, one \<^verbatim>\<open>epoll_wait\<close> or one change of the network. A handler is atomic in the
  model: the data it works on belongs to one connection, which the invariant shows to be owned by one
  thread at a time; queues are used under their mutex and counters with one atomic access each.
  The round-robin counter of \<^verbatim>\<open>client.c\<close> is a plain variable that all workers increment; the model
  increments it atomically, and nothing rests on its value.

  Bounds. \<^verbatim>\<open>process_epoll_event\<close> has fuel for its \<^verbatim>\<open>while (1)\<close>; fuel 2 is proved to be enough from every
  reachable configuration as long as the queue gets no new request meanwhile; the interleaving with pushes is that
  of \<open>server_step\<close>, where each read of the counter and each request is a step of its own. The queues hold 1024 requests as \<^verbatim>\<open>create_actor\<close> asks; a full queue ends the
  process (\<^verbatim>\<open>CHECK\<close> in \<^verbatim>\<open>client.c\<close>), and so does the model. Clock readings are below \<open>2 ^ 40\<close> seconds
  where differences are computed. A path of \<open>10 ^ 9\<close> bytes or more overflows the ten bytes of
  \<^verbatim>\<open>content_length_value\<close> in \<^verbatim>\<open>actor.c\<close>: a fault of the model and a condition of the theorems on answers.

  Not modelled. The formatting of the line of \<^verbatim>\<open>stats_loop\<close>, which groups digits as the locale says, and the log lines inside
  the handlers (\<open>Log_Lines\<close> has the macros and the printing functions); the endless outer
  loops of \<^verbatim>\<open>run_actor\<close>, \<^verbatim>\<open>io_event_loop\<close> and \<^verbatim>\<open>stats_loop\<close>, whose turns are the steps of
  \<open>server_step\<close> and \<open>stats_turn\<close>; the waiting at the start barrier, on which nothing rests, since a queue keeps its requests and its
  count until the actor runs; the contents of memory in \<open>Lifetimes\<close>, and there the contexts of other theories are one
  entry of a map each; \<^verbatim>\<open>mrmw_queue.h\<close>, an interface nothing implements; in \<^verbatim>\<open>queue_test.c\<close>, which does not compile
  against the headers, the set-up of the event loop and the end of \<^verbatim>\<open>main\<close>.
\<close>

end
